(* ===== verification/Kernel_Prelude.thy ===== *)
theory Kernel_Prelude
  imports Main "HOL-Library.Word" "HOL-Library.Sublist"
begin

text \<open>
  What every component of the development shares: the names of the kernel's machine integers,
  unsigned arithmetic that wraps at 32 and 64 bits written out on the natural numbers, facts on
  words and lists, the first-free-slot search that the kernel writes as a \<open>for\<close> loop over every
  one of its fixed tables, and the contracts (locales) that several components provide.
\<close>

unbundle bit_operations_syntax

section \<open>Machine integers\<close>

type_synonym u8 = "8 word"
type_synonym u16 = "16 word"
type_synonym u32 = "32 word"
type_synonym u64 = "64 word"

text \<open>
  Where a component only adds, subtracts and compares, its unsigned integers are natural numbers
  below \<open>2 ^ 64\<close> (or \<open>2 ^ 32\<close>) and the wrap-around of C's unsigned arithmetic is explicit.
\<close>

abbreviation size_max :: nat where
  "size_max \<equiv> 2 ^ 64 - 1"

definition add64 :: "nat \<Rightarrow> nat \<Rightarrow> nat" where
  "add64 a b = (a + b) mod 2 ^ 64"

definition sub64 :: "nat \<Rightarrow> nat \<Rightarrow> nat" where
  "sub64 a b = (a + (2 ^ 64 - b mod 2 ^ 64)) mod 2 ^ 64"

definition mul64 :: "nat \<Rightarrow> nat \<Rightarrow> nat" where
  "mul64 a b = (a * b) mod 2 ^ 64"

definition add32 :: "nat \<Rightarrow> nat \<Rightarrow> nat" where
  "add32 a b = (a + b) mod 2 ^ 32"

definition sub32 :: "nat \<Rightarrow> nat \<Rightarrow> nat" where
  "sub32 a b = (a + (2 ^ 32 - b mod 2 ^ 32)) mod 2 ^ 32"

lemma add64_exact [simp]: "a + b < 2 ^ 64 \<Longrightarrow> add64 a b = a + b"
  by (simp add: add64_def)

lemma sub64_exact [simp]: "b \<le> a \<Longrightarrow> a < 2 ^ 64 \<Longrightarrow> sub64 a b = a - b"
  by (simp add: sub64_def mod_if)

lemma mul64_exact [simp]: "a * b < 2 ^ 64 \<Longrightarrow> mul64 a b = a * b"
  by (simp add: mul64_def)

lemma add32_exact [simp]: "a + b < 2 ^ 32 \<Longrightarrow> add32 a b = a + b"
  by (simp add: add32_def)

lemma sub32_exact [simp]: "b \<le> a \<Longrightarrow> a < 2 ^ 32 \<Longrightarrow> sub32 a b = a - b"
  by (simp add: sub32_def mod_if)

lemma add64_lt [simp]: "add64 a b < 2 ^ 64"
  by (simp add: add64_def)

lemma sub64_lt [simp]: "sub64 a b < 2 ^ 64"
  by (simp add: sub64_def)

lemma add32_lt [simp]: "add32 a b < 2 ^ 32"
  by (simp add: add32_def)

lemma sub32_lt [simp]: "sub32 a b < 2 ^ 32"
  by (simp add: sub32_def)


section \<open>Facts on words\<close>

lemma unat_lt_64: "unat (w :: u64) < 2 ^ 64"
  using unsigned_less [of w, where 'a = nat] by simp

lemma unat_lt_32: "unat (w :: u32) < 2 ^ 32"
  using unsigned_less [of w, where 'a = nat] by simp

lemma unat_lt_8: "unat (w :: u8) < 256"
  using unsigned_less [of w, where 'a = nat] by simp

lemma unat_or_disjoint:
  fixes a b :: "'a::len word"
  assumes "a AND b = 0" and "unat a + unat b < 2 ^ LENGTH('a)"
  shows "unat (a OR b) = unat a + unat b"
  using assms by (simp flip: disjunctive_add_eq_or add: unat_word_ariths)

lemma unat_push_bit:
  fixes w :: "'a::len word"
  shows "unat (push_bit k w) = (unat w * 2 ^ k) mod 2 ^ LENGTH('a)"
  by (subst unsigned_push_bit_eq) (simp only: take_bit_eq_mod push_bit_eq_mult)

lemma unat_and_1: "unat (w AND 1) = unat (w::'a::len word) mod 2"
  by (subst unsigned_and_eq) (simp only: unsigned_1 and_one_eq)


text \<open>\<open>n\<close> bytes at \<open>a\<close> as a little-endian number.\<close>

definition le_nat :: "(nat \<Rightarrow> u8) \<Rightarrow> nat \<Rightarrow> nat \<Rightarrow> nat" where
  "le_nat m a n = (\<Sum>i<n. unat (m (a + i)) * 256 ^ i)"

lemma le_nat_lt: "le_nat m a n < 256 ^ n"
proof (induction n)
  case (Suc n)
  have "unat (m (a + n)) * 256 ^ n \<le> 255 * 256 ^ n" using unat_lt_8 [of "m (a + n)"] by (intro mult_le_mono1) simp
  then show ?case using Suc unfolding le_nat_def sum.lessThan_Suc power_Suc by linarith
qed (simp add: le_nat_def)


section \<open>Tables with free slots\<close>

text \<open>
  The kernel keeps most of its objects in fixed arrays and takes the first entry that a test
  accepts: \<open>for (i = 0; i < N; i++) if (P(&tab[i])) break;\<close>. \<open>first_idx\<close> is that loop; \<open>None\<close> is
  the loop running off the end of the table.
\<close>

fun first_idx :: "('a \<Rightarrow> bool) \<Rightarrow> 'a list \<Rightarrow> nat option" where
  "first_idx P [] = None"
| "first_idx P (x # xs) = (if P x then Some 0 else map_option Suc (first_idx P xs))"

lemma first_idx_Some:
  "first_idx P xs = Some i \<longleftrightarrow> i < length xs \<and> P (xs ! i) \<and> (\<forall>j<i. \<not> P (xs ! j))"
proof (induction xs arbitrary: i)
  case Nil
  then show ?case by simp
next
  case (Cons x xs)
  then show ?case by (cases i) (auto simp: less_Suc_eq_0_disj)
qed

lemma first_idx_None: "first_idx P xs = None \<longleftrightarrow> (\<forall>x\<in>set xs. \<not> P x)"
  by (induction xs) auto

lemma first_idx_SomeD:
  "first_idx P xs = Some i \<Longrightarrow> i < length xs \<and> P (xs ! i)"
  by (simp add: first_idx_Some)


section \<open>Lists\<close>

lemma find_SomeD: "find P xs = Some x \<Longrightarrow> P x \<and> x \<in> set xs"
  by (induction xs) (auto split: if_splits)

lemma sum_list_update_nat:
  fixes f :: "'a \<Rightarrow> nat"
  assumes "i < length xs"
  shows "(\<Sum>x\<leftarrow>xs[i := y]. f x) + f (xs ! i) = (\<Sum>x\<leftarrow>xs. f x) + f y"
  using assms
proof (induction xs arbitrary: i)
  case (Cons x xs)
  then show ?case by (cases i) (auto simp: algebra_simps)
qed simp

lemma length_filter_update:
  assumes "i < length xs"
  shows "length (filter P (xs[i := y])) + of_bool (P (xs ! i)) = length (filter P xs) + of_bool (P y)"
  using assms
proof (induction xs arbitrary: i)
  case (Cons x xs)
  then show ?case by (cases i) (auto split: if_splits)
qed simp


section \<open>The contract of a component with an invariant\<close>

text \<open>
  A component of the kernel is a state that only its own operations change. What a component
  promises its clients is an invariant that its initial state satisfies and every one of its
  operations keeps; a client may then rely on it after any sequence of operations. \<open>'op\<close> names
  the operations with their arguments.
\<close>

locale kernel_component =
  fixes init :: "'s \<Rightarrow> bool"
    and step :: "'op \<Rightarrow> 's \<Rightarrow> 's"
    and inv :: "'s \<Rightarrow> bool"
  assumes init_inv: "init s \<Longrightarrow> inv s"
    and step_inv: "inv s \<Longrightarrow> inv (step x s)"
begin

lemma run_keeps_inv: "inv s \<Longrightarrow> inv (fold step xs s)"
  by (induction xs arbitrary: s) (simp_all add: step_inv)

lemma run_inv: "init s \<Longrightarrow> inv (fold step xs s)"
  by (rule run_keeps_inv [OF init_inv])

end

end
