(* ===== verification/LibDiv.thy ===== *)
theory LibDiv
  imports Kernel_Prelude "HOL-Library.Signed_Division"
begin

text \<open>
  \<open>src/src/boot/libgcc_div.c\<close>: the freestanding replacements of libgcc's 64-bit division helpers.
  The fast path divides in 32 bits with the native instruction, which traps on a zero divisor; the
  slow path is a bit-by-bit long division that never traps. The main result is that, for a
  non-zero divisor, both paths compute the quotient and the remainder, and that the signed
  helpers truncate towards zero as C's division does (with \<open>INT64_MIN / -1\<close> wrapping).
\<close>

section \<open>The code\<close>

datatype cpu_trap = Divide_Error

text \<open>The loop \<open>for (int i = 63; i >= 0; i--)\<close>; the counter is the number of rounds left.\<close>

fun div_loop :: "u64 \<Rightarrow> u64 \<Rightarrow> nat \<Rightarrow> u64 \<times> u64 \<Rightarrow> u64 \<times> u64" where
  "div_loop num den 0 (q, r) = (q, r)"
| "div_loop num den (Suc i) (q, r) =
     (let r' = push_bit 1 r OR (drop_bit i num AND 1)
      in if den \<le> r' then div_loop num den i (q OR push_bit i 1, r' - den)
         else div_loop num den i (q, r'))"

definition udivmod64 :: "u64 \<Rightarrow> u64 \<Rightarrow> cpu_trap + u64 \<times> u64" where
  "udivmod64 num den =
     (if num \<le> 0xFFFFFFFF \<and> den \<le> 0xFFFFFFFF
      then (let n = ucast num :: u32; d = ucast den :: u32
            in if d = 0 then Inl Divide_Error else Inr (ucast (n div d), ucast (n mod d)))
      else Inr (div_loop num den 64 (0, 0)))"

definition udivdi3 :: "u64 \<Rightarrow> u64 \<Rightarrow> cpu_trap + u64" where
  "udivdi3 a b = map_sum id fst (udivmod64 a b)"

definition umoddi3 :: "u64 \<Rightarrow> u64 \<Rightarrow> cpu_trap + u64" where
  "umoddi3 a b = map_sum id snd (udivmod64 a b)"

definition divdi3 :: "u64 \<Rightarrow> u64 \<Rightarrow> cpu_trap + u64" where
  "divdi3 a b =
     (let ua = (if a <s 0 then - a else a); ub = (if b <s 0 then - b else b)
      in map_sum id (\<lambda>(q, _). if (a <s 0) \<noteq> (b <s 0) then - q else q) (udivmod64 ua ub))"

definition moddi3 :: "u64 \<Rightarrow> u64 \<Rightarrow> cpu_trap + u64" where
  "moddi3 a b =
     (let ua = (if a <s 0 then - a else a); ub = (if b <s 0 then - b else b)
      in map_sum id (\<lambda>(_, r). if a <s 0 then - r else r) (udivmod64 ua ub))"


section \<open>Long division\<close>

lemma shift_in_bit:
  fixes r num :: "u64"
  assumes "unat r < 2 ^ 63"
  shows "unat (push_bit 1 r OR (drop_bit i num AND 1)) = 2 * unat r + (unat num div 2 ^ i) mod 2"
proof -
  have p: "unat (push_bit 1 r) = 2 * unat r" using assms by (simp only: unat_push_bit) simp
  have d: "unat (drop_bit i num AND 1) = (unat num div 2 ^ i) mod 2"
    by (simp only: unat_and_1 unat_drop_bit_eq) (simp only: drop_bit_eq_div)
  have "push_bit 1 r AND (drop_bit i num AND 1) = 0"
    by (rule bit_eqI, simp only: bit_and_iff bit_push_bit_iff bit_1_iff) auto
  then show ?thesis using assms p d by (simp add: unat_or_disjoint)
qed

lemma set_quot_bit:
  fixes q :: "u64"
  assumes "unat q = 2 ^ Suc i * Q" and "i < 64" and "2 ^ i * (2 * Q + 1) < 2 ^ 64"
  shows "unat (q OR push_bit i 1) = 2 ^ i * (2 * Q + 1)"
proof -
  have p: "unat (push_bit i (1::u64)) = 2 ^ i"
    using assms(2) power_strict_increasing [of i 64 "2::nat"] by (simp only: unat_push_bit) simp
  have "\<not> bit q i"
    using assms(1,2) bit_unsigned_iff [where 'a = nat and w = q and n = i] by (auto simp: bit_iff_odd)
  then have "q AND push_bit i 1 = 0"
    by (intro bit_eqI, simp only: bit_and_iff bit_push_bit_iff bit_1_iff) (auto dest: le_antisym)
  moreover have sum: "unat q + unat (push_bit i (1::u64)) = 2 ^ i * (2 * Q + 1)"
    unfolding p assms(1) by simp
  ultimately show ?thesis using unat_or_disjoint [of q "push_bit i 1"] assms(3) unfolding sum by simp
qed

lemma div_loop_correct:
  assumes "i \<le> 64" and "unat q = 2 ^ i * Q" and "unat num div 2 ^ i = Q * unat den + unat r"
    and "unat r < unat den" and "div_loop num den i (q, r) = (q', r')"
  shows "unat q' = unat num div unat den \<and> unat r' = unat num mod unat den"
  using assms
proof (induction i arbitrary: q r Q)
  case 0
  then have "unat num = Q * unat den + unat r" by simp
  with 0 show ?case by simp
next
  case (Suc i)
  let ?d = "unat den" and ?R = "2 * unat r + (unat num div 2 ^ i) mod 2"
  define s where "s = push_bit 1 r OR (drop_bit i num AND 1)"
  have half: "unat num div 2 ^ Suc i = (unat num div 2 ^ i) div 2"
    by (simp add: div_mult2_eq [symmetric] mult.commute)
  have "unat r \<le> unat num div 2 ^ Suc i" using Suc.prems(3) by simp
  also have "\<dots> \<le> unat num div 2" by (rule div_le_mono2) auto
  also have "\<dots> < 2 ^ 63" using unat_lt_64 [of num] by simp
  finally have s: "unat s = ?R" unfolding s_def by (rule shift_in_bit)
  have Ni: "unat num div 2 ^ i = 2 * Q * ?d + ?R"
  proof -
    have "unat num div 2 ^ i div 2 = Q * ?d + unat r" using Suc.prems(3) half by simp
    then have "unat num div 2 ^ i = 2 * (Q * ?d + unat r) + unat num div 2 ^ i mod 2"
      by (metis mult_div_mod_eq)
    then show ?thesis by (simp only: distrib_left mult.assoc add.assoc)
  qed
  show ?case
  proof (cases "den \<le> s")
    case True
    then have le: "?d \<le> ?R" using s by (simp add: word_le_nat_alt)
    have r': "unat (s - den) = ?R - ?d" using True s by (simp add: unat_sub)
    have N: "unat num div 2 ^ i = (2 * Q + 1) * ?d + unat (s - den)"
      unfolding r' by (subst Ni) (use le in simp)
    have "2 * Q + 1 \<le> unat num div 2 ^ i" using N Suc.prems(4) by (cases ?d) auto
    then have "2 ^ i * (2 * Q + 1) \<le> 2 ^ i * (unat num div 2 ^ i)" by (rule mult_le_mono2)
    also have "\<dots> \<le> unat num" by simp
    finally have "2 ^ i * (2 * Q + 1) \<le> unat num" .
    then have q': "unat (q OR push_bit i 1) = 2 ^ i * (2 * Q + 1)"
      using Suc.prems(1,2) unat_lt_64 [of num] by (intro set_quot_bit) auto
    have "unat (s - den) < ?d" using r' le Suc.prems(4) by simp
    moreover have "div_loop num den i (q OR push_bit i 1, s - den) = (q', r')"
      using Suc.prems(5) True by (simp add: s_def Let_def)
    moreover have "i \<le> 64" using Suc.prems(1) by simp
    ultimately show ?thesis using Suc.IH [OF _ q' N] by blast
  next
    case False
    then have lt: "unat s < ?d" by (simp add: word_le_nat_alt)
    moreover have "i \<le> 64" using Suc.prems(1) by simp
    moreover have "div_loop num den i (q, s) = (q', r')"
      using Suc.prems(5) False by (simp add: s_def Let_def)
    moreover have "unat q = 2 ^ i * (2 * Q)" using Suc.prems(2) by simp
    moreover have "unat num div 2 ^ i = 2 * Q * ?d + unat s" unfolding s by (rule Ni)
    ultimately show ?thesis using Suc.IH [of q "2 * Q" s] Suc.prems(1) by blast
  qed
qed

lemma ucast32_div_mod:
  fixes num den :: "u64"
  assumes "unat num < 2 ^ 32" and "unat den < 2 ^ 32"
  shows "ucast ((ucast num :: u32) div ucast den) = num div den"
    and "ucast ((ucast num :: u32) mod ucast den) = num mod den"
proof -
  have t: "take_bit 32 (unat num) = unat num" "take_bit 32 (unat den) = unat den"
    using assms by (simp_all add: take_bit_nat_eq_self)
  have b: "unat num div unat den < 2 ^ 64" "unat num mod unat den < 2 ^ 64"
    by (rule le_less_trans [OF div_le_dividend unat_lt_64],
        rule le_less_trans [OF mod_less_eq_dividend unat_lt_64])
  show "ucast ((ucast num :: u32) div ucast den) = num div den"
    by (rule word_unat_eq_iff [THEN iffD2])
      (use t b in \<open>simp add: unsigned_ucast_eq unat_div take_bit_nat_eq_self\<close>)
  show "ucast ((ucast num :: u32) mod ucast den) = num mod den"
    by (rule word_unat_eq_iff [THEN iffD2])
      (use t b in \<open>simp add: unsigned_ucast_eq unat_mod take_bit_nat_eq_self\<close>)
qed

lemma udivmod64_eq:
  assumes "den \<noteq> 0"
  shows "udivmod64 num den = Inr (num div den, num mod den)"
proof (cases "num \<le> 0xFFFFFFFF \<and> den \<le> 0xFFFFFFFF")
  case True
  then have n: "unat num < 2 ^ 32" "unat den < 2 ^ 32" by (simp_all add: word_le_nat_alt)
  have "unat (ucast den :: u32) = unat den"
    using n(2) by (simp add: unsigned_ucast_eq take_bit_nat_eq_self)
  then have "(ucast den :: u32) \<noteq> 0" using assms by (metis unat_0 unat_eq_zero)
  with True show ?thesis by (simp add: udivmod64_def ucast32_div_mod [OF n])
next
  case False
  obtain q r where qr: "div_loop num den 64 (0, 0) = (q, r)" by fastforce
  have "0 < unat den" using assms by (simp add: unat_gt_0)
  then have "unat q = unat num div unat den \<and> unat r = unat num mod unat den"
    by (intro div_loop_correct [OF _ _ _ _ qr, where Q = 0]) (use unat_lt_64 [of num] in simp_all)
  then have "q = num div den \<and> r = num mod den"
    by (simp add: word_unat_eq_iff unat_div unat_mod)
  then show ?thesis by (simp only: udivmod64_def False if_False qr)
qed


section \<open>Unsigned helpers\<close>

text \<open>C21: for a non-zero divisor the unsigned helpers \<open>__udivdi3\<close> and \<open>__umoddi3\<close> return the quotient
  and the remainder, whichever of the fast 32-bit path and the bit loop they take.\<close>

theorem udivdi3_umoddi3_correct:
  assumes "b \<noteq> 0"
  shows "udivdi3 a b = Inr (a div b) \<and> umoddi3 a b = Inr (a mod b)"
  by (simp add: udivdi3_def umoddi3_def udivmod64_eq [OF assms])

theorem udivdi3_umoddi3_correct_witness:
  "udivdi3 0x100000007 3 = Inr 0x55555557 \<and> umoddi3 0x100000007 3 = Inr 2"
  using udivdi3_umoddi3_correct [of 3 "0x100000007"] by simp

text \<open>A zero divisor traps on the fast path only: the bit loop returns all ones and the dividend.\<close>

lemma udivmod64_zero_small: "num \<le> 0xFFFFFFFF \<Longrightarrow> udivmod64 num 0 = Inl Divide_Error"
  by (simp add: udivmod64_def)

section \<open>Signed helpers\<close>

lemma uint_abs64:
  fixes a :: "u64"
  shows "uint (if a <s 0 then - a else a) = \<bar>sint a\<bar>"
proof (cases "a <s 0")
  case True
  then have neg: "sint a < 0" by (simp add: word_sless_alt)
  have "- (2 ^ 63) \<le> sint a" using sint_ge [of a] by simp
  moreover have "uint (- a) = take_bit 64 (- sint a)"
  proof -
    have "- a = word_of_int (- sint a)" by simp
    then have "uint (- a) = uint (word_of_int (- sint a) :: u64)" by (rule arg_cong)
    then show ?thesis by (simp only: uint_word_of_int_eq) simp
  qed
  ultimately show ?thesis using True neg by (simp add: take_bit_int_eq_self)
next
  case False
  then have "0 \<le> sint a" by (simp add: word_sless_alt)
  moreover have "sint a < 2 ^ 63" using sint_lt [of a] by simp
  ultimately show ?thesis using False uint_sint [of a] by (simp add: take_bit_int_eq_self)
qed


text \<open>C22: for a non-zero divisor the signed helpers \<open>__divdi3\<close> and \<open>__moddi3\<close> truncate towards zero, the
  remainder takes the sign of the dividend, and the one quotient that does not fit
  (\<open>INT64_MIN / -1\<close>) wraps around.\<close>

theorem divdi3_moddi3_correct:
  assumes "b \<noteq> 0"
  shows "divdi3 a b = Inr (word_of_int (sint a sdiv sint b)) \<and>
    moddi3 a b = Inr (word_of_int (sint a smod sint b))"
proof -
  let ?ua = "if a <s 0 then - a else a" and ?ub = "if b <s 0 then - b else b"
  have ub: "?ub \<noteq> 0" using assms by simp
  have q: "?ua div ?ub = word_of_int (\<bar>sint a\<bar> div \<bar>sint b\<bar>)"
    by (metis uint_abs64 uint_div word_of_int_uint)
  have r: "?ua mod ?ub = word_of_int (\<bar>sint a\<bar> mod \<bar>sint b\<bar>)"
    by (metis uint_abs64 uint_mod word_of_int_uint)
  have "divdi3 a b = Inr (word_of_int (sint a sdiv sint b))"
    unfolding divdi3_def Let_def udivmod64_eq [OF ub] q
    by (cases "sint a = 0"; cases "sint b = 0") (auto simp: signed_divide_int_def sgn_if word_sless_alt)
  moreover have "moddi3 a b = Inr (word_of_int (sint a smod sint b))"
    unfolding moddi3_def Let_def udivmod64_eq [OF ub] r
    by (auto simp: signed_modulo_int_def sgn_if word_sless_alt)
  ultimately show ?thesis by simp
qed

theorem divdi3_moddi3_correct_witness:
  "divdi3 (- 7) 2 = Inr (- 3) \<and> moddi3 (- 7) 2 = Inr (- 1)"
  using divdi3_moddi3_correct [of 2 "- 7"] by simp

end
