(* ===== verification/Heap.thy ===== *)
theory Heap
  imports Kernel_Prelude
begin

text \<open>
  \<open>src/src/core/heap.c\<close>: the kernel heap, a next-fit free-list allocator with two arenas. The model
  keeps the block headers in an explicit store (address to header), so that the doubly linked
  list, its pointers and every pointer update of the code are visible; address 0 is NULL. The
  allocator is taken as built by default, without \<open>KDEBUG\<close>: no red zones, no poison.
  The functions run under the lock \<open>hl\<close>, so each is one atomic step.
\<close>

section \<open>Headers, arenas, state\<close>

record block =
  b_size :: nat
  b_next :: nat
  b_prev :: nat
  b_free :: bool
  b_mg :: nat

type_synonym store = "nat \<Rightarrow> block"

record arena =
  a_base :: nat
  a_size :: nat
  a_head :: nat
  a_rover :: nat
  a_used :: nat

text \<open>\<open>reports\<close> is the buffer \<open>rep\<close> with one entry per line that \<open>say_blk\<close> or \<open>say\<close> writes;
  \<open>nerr\<close> and \<open>nchk\<close> are the counters of the code.\<close>

datatype report = Double_Free nat | Bad_Free nat | Bad_Link nat | Bad_Magic nat | Bad_Size nat
  | Unmerged nat | Used_Differs nat nat | Selftest_Caught nat nat | Check_Ok

record heap =
  hmem :: store
  low :: arena
  big :: arena
  reports :: "report list"
  nerr :: nat
  nchk :: nat

definition MG_USED :: nat where "MG_USED = 0x5a11c0de"
definition MG_FREE :: nat where "MG_FREE = 0xf4eeb10c"

text \<open>\<open>sizeof(block_t)\<close>\<close>

abbreviation hdr :: nat where "hdr \<equiv> 32"

text \<open>\<open>ALIGN8(x)\<close> is \<open>((x) + 15ul) & ~15ul\<close>: it rounds up to 16 and wraps.\<close>

definition align8 :: "nat \<Rightarrow> nat" where
  "align8 x = add64 x 15 div 16 * 16"

section \<open>Arena operations\<close>

definition arena_init :: "store \<Rightarrow> nat \<Rightarrow> nat \<Rightarrow> store \<times> arena" where
  "arena_init m base sz =
     (m(base := \<lparr>b_size = sub64 sz hdr, b_next = 0, b_prev = 0, b_free = True, b_mg = MG_FREE\<rparr>),
      \<lparr>a_base = base, a_size = sz, a_head = base, a_rover = base, a_used = 0\<rparr>)"

definition split_at :: "store \<Rightarrow> nat \<Rightarrow> nat \<Rightarrow> store" where
  "split_at m b n =
     (let split = add64 (add64 b hdr) n;
          nx = b_next (m b);
          m1 = m(split := \<lparr>b_size = sub64 (sub64 (b_size (m b)) n) hdr, b_next = nx, b_prev = b,
                           b_free = True, b_mg = MG_FREE\<rparr>);
          m2 = (if nx \<noteq> 0 then m1(nx := (m1 nx)\<lparr>b_prev := split\<rparr>) else m1)
      in m2(b := (m2 b)\<lparr>b_size := n, b_next := split\<rparr>))"

definition merge_next :: "arena \<Rightarrow> store \<Rightarrow> nat \<Rightarrow> arena \<times> store" where
  "merge_next a m b =
     (let nx = b_next (m b);
          m1 = m(b := (m b)\<lparr>b_size := add64 (b_size (m b)) (add64 hdr (b_size (m nx)))\<rparr>);
          m2 = m1(b := (m1 b)\<lparr>b_next := b_next (m1 nx)\<rparr>);
          nn = b_next (m2 b);
          m3 = (if nn \<noteq> 0 then m2(nn := (m2 nn)\<lparr>b_prev := b\<rparr>) else m2)
      in (if a_rover a = nx then a\<lparr>a_rover := b\<rparr> else a, m3))"

text \<open>The \<open>do ... while (b != start)\<close> search of \<open>arena_alloc\<close>. \<open>None\<close> is a search that does not end,
  \<open>Some None\<close> one that came round to where it started.\<close>

partial_function (option) search ::
  "store \<Rightarrow> nat \<Rightarrow> nat \<Rightarrow> nat \<Rightarrow> nat \<Rightarrow> nat option option" where
  "search m head start n b =
     (if b_free (m b) \<and> n \<le> b_size (m b) then Some (Some b)
      else (let b' = (if b_next (m b) \<noteq> 0 then b_next (m b) else head)
            in if b' = start then Some None else search m head start n b'))"

definition take_block :: "arena \<Rightarrow> store \<Rightarrow> nat \<Rightarrow> nat \<Rightarrow> nat \<times> arena \<times> store" where
  "take_block a m b n =
     (let m1 = (if add64 (add64 n hdr) 16 \<le> b_size (m b) then split_at m b n else m);
          m2 = m1(b := (m1 b)\<lparr>b_free := False, b_mg := MG_USED\<rparr>);
          nx = b_next (m2 b)
      in (add64 b hdr,
          a\<lparr>a_used := add64 (a_used a) (add64 (b_size (m2 b)) hdr),
            a_rover := (if nx \<noteq> 0 then nx else a_head a)\<rparr>,
          m2))"

definition arena_alloc :: "arena \<Rightarrow> store \<Rightarrow> nat \<Rightarrow> (nat \<times> arena \<times> store) option" where
  "arena_alloc a m n0 =
     (if n0 = 0 \<or> a_head a = 0 then Some (0, a, m)
      else (let n = align8 n0;
                start = (if a_rover a \<noteq> 0 then a_rover a else a_head a)
            in case search m (a_head a) start n start of
                 None \<Rightarrow> None
               | Some None \<Rightarrow> Some (0, a, m)
               | Some (Some b) \<Rightarrow> Some (take_block a m b n)))"

section \<open>The interface of the heap\<close>

definition heap_init :: "nat \<Rightarrow> nat \<Rightarrow> heap \<Rightarrow> heap" where
  "heap_init base sz h = (let (m, a) = arena_init (hmem h) base sz in h\<lparr>hmem := m, low := a\<rparr>)"

definition heap_add_big :: "nat \<Rightarrow> nat \<Rightarrow> heap \<Rightarrow> heap" where
  "heap_add_big base sz h = (let (m, a) = arena_init (hmem h) base sz in h\<lparr>hmem := m, big := a\<rparr>)"

definition alloc_low :: "nat \<Rightarrow> heap \<Rightarrow> (nat \<times> heap) option" where
  "alloc_low n h =
     map_option (\<lambda>(p, a, m). (p, h\<lparr>hmem := m, low := a\<rparr>)) (arena_alloc (low h) (hmem h) n)"

definition alloc_big :: "nat \<Rightarrow> heap \<Rightarrow> (nat \<times> heap) option" where
  "alloc_big n h =
     map_option (\<lambda>(p, a, m). (p, h\<lparr>hmem := m, big := a\<rparr>)) (arena_alloc (big h) (hmem h) n)"

definition kmalloc :: "nat \<Rightarrow> heap \<Rightarrow> (nat \<times> heap) option" where
  "kmalloc n h = alloc_low n h"

text \<open>\<open>reclaim\<close> is the hook \<open>heap_reclaim\<close>, a function pointer that is NULL until ext2 sets it. The
  comparison with \<open>24u << 20\<close> is the one that keeps file data out of the last 24 MB of the kernel
  heap.\<close>

definition kmalloc_big :: "(nat \<Rightarrow> heap \<Rightarrow> heap) option \<Rightarrow> nat \<Rightarrow> heap \<Rightarrow> (nat \<times> heap) option" where
  "kmalloc_big reclaim n h =
     Option.bind (alloc_big n h) (\<lambda>(p, h).
     Option.bind
       (case reclaim of
          Some f \<Rightarrow> if p = 0 \<and> a_head (big h) \<noteq> 0 then alloc_big n (f n h) else Some (p, h)
        | None \<Rightarrow> Some (p, h)) (\<lambda>(p, h).
     if p = 0 \<and> (a_head (big h) = 0 \<or>
                 add64 n 0x1800000 < sub64 (a_size (low h)) (a_used (low h)))
     then alloc_low n h else Some (p, h)))"

text \<open>\<open>arena_of\<close> answers which of the two arenas; \<open>True\<close> is \<open>&big\<close>.\<close>

definition arena_of :: "heap \<Rightarrow> nat \<Rightarrow> bool" where
  "arena_of h q \<longleftrightarrow> a_head (big h) \<noteq> 0 \<and> a_base (big h) \<le> q
     \<and> q < add64 (a_base (big h)) (a_size (big h))"

definition get_arena :: "bool \<Rightarrow> heap \<Rightarrow> arena" where
  "get_arena w h = (if w then big h else low h)"

definition set_arena :: "bool \<Rightarrow> arena \<Rightarrow> heap \<Rightarrow> heap" where
  "set_arena w a h = (if w then h\<lparr>big := a\<rparr> else h\<lparr>low := a\<rparr>)"

definition say_blk :: "report \<Rightarrow> heap \<Rightarrow> heap" where
  "say_blk r h = h\<lparr>nerr := nerr h + 1, reports := reports h @ [r]\<rparr>"

definition arena_free :: "arena \<Rightarrow> store \<Rightarrow> nat \<Rightarrow> arena \<times> store" where
  "arena_free a m b =
     (let m1 = m(b := (m b)\<lparr>b_free := True, b_mg := MG_FREE\<rparr>);
          a1 = a\<lparr>a_used := sub64 (a_used a) (add64 (b_size (m1 b)) hdr)\<rparr>;
          (a2, m2) = (if b_next (m1 b) \<noteq> 0 \<and> b_free (m1 (b_next (m1 b))) then merge_next a1 m1 b
                      else (a1, m1))
      in if b_prev (m2 b) \<noteq> 0 \<and> b_free (m2 (b_prev (m2 b))) then merge_next a2 m2 (b_prev (m2 b))
         else (a2, m2))"

definition free_locked :: "nat \<Rightarrow> heap \<Rightarrow> heap" where
  "free_locked p h =
     (let w = arena_of h p; b = sub64 p hdr; mg = b_mg (hmem h b)
      in if mg \<noteq> MG_USED then say_blk (if mg = MG_FREE then Double_Free b else Bad_Free b) h
         else (let (a, m) = arena_free (get_arena w h) (hmem h) b
               in set_arena w a (h\<lparr>hmem := m\<rparr>)))"

definition kfree :: "nat \<Rightarrow> heap \<Rightarrow> heap" where
  "kfree p h = (if p = 0 then h else free_locked p h)"

definition arena_grow :: "arena \<Rightarrow> store \<Rightarrow> nat \<Rightarrow> nat \<Rightarrow> bool \<times> arena \<times> store" where
  "arena_grow a m b n =
     (let ok = n \<le> b_size (m b); nx = b_next (m b)
      in if \<not> ok \<and> nx \<noteq> 0 \<and> b_free (m nx) \<and> n \<le> add64 (add64 (b_size (m b)) hdr) (b_size (m nx))
         then (let a1 = a\<lparr>a_used := sub64 (a_used a) (add64 (b_size (m b)) hdr)\<rparr>;
                   (a2, m2) = merge_next a1 m b;
                   m3 = (if add64 (add64 n hdr) 16 \<le> b_size (m2 b) then split_at m2 b n else m2)
               in (True, a2\<lparr>a_used := add64 (a_used a2) (add64 (b_size (m3 b)) hdr)\<rparr>, m3))
         else (ok, a, m))"

definition kgrow :: "nat \<Rightarrow> nat \<Rightarrow> heap \<Rightarrow> bool \<times> heap" where
  "kgrow p n h =
     (if p = 0 then (False, h)
      else (let w = arena_of h p;
                (ok, a, m) = arena_grow (get_arena w h) (hmem h) (sub64 p hdr) (align8 n)
            in (ok, set_arena w a (h\<lparr>hmem := m\<rparr>))))"

definition heap_used :: "heap \<Rightarrow> nat" where "heap_used h = a_used (low h)"
definition heap_total :: "heap \<Rightarrow> nat" where "heap_total h = a_size (low h)"
definition heap_big_used :: "heap \<Rightarrow> nat" where "heap_big_used h = a_used (big h)"
definition heap_big_total :: "heap \<Rightarrow> nat" where "heap_big_total h = a_size (big h)"

section \<open>The consistency check\<close>

text \<open>The walk of \<open>heap_check_locked\<close> over the blocks of one arena; the bytes it counted as used
  and the heap with the reports are the result, \<open>None\<close> a walk that does not end.\<close>

partial_function (option) check_loop ::
  "arena \<Rightarrow> nat \<Rightarrow> nat \<Rightarrow> nat \<Rightarrow> heap \<Rightarrow> (nat \<times> heap) option" where
  "check_loop a b pv used h =
     (let blk = hmem h b in
      if b = 0 then Some (used, h)
      else if b < a_base a \<or> add64 (a_base a) (a_size a) \<le> b \<or> b_prev blk \<noteq> pv
        then Some (used, say_blk (Bad_Link b) h)
      else if b_mg blk \<noteq> (if b_free blk then MG_FREE else MG_USED)
        then Some (used, say_blk (Bad_Magic b) h)
      else if b_next blk \<noteq> 0 \<and> add64 (add64 b hdr) (b_size blk) \<noteq> b_next blk
        then Some (used, say_blk (Bad_Size b) h)
      else (let h1 = (if pv \<noteq> 0 \<and> b_free (hmem h pv) \<and> b_free blk then say_blk (Unmerged b) h else h);
                used1 = (if b_free blk then used else add64 used (add64 (b_size blk) hdr))
            in if 20 < nerr h1 then Some (used1, h1)
               else check_loop a (b_next blk) b used1 h1))"

definition check_arena :: "arena \<Rightarrow> heap \<Rightarrow> heap option" where
  "check_arena a h =
     (if a_head a = 0 then Some h
      else map_option (\<lambda>(used, h1). if used \<noteq> a_used a
             then h1\<lparr>reports := reports h1 @ [Used_Differs (a_used a) used]\<rparr> else h1)
           (check_loop a (a_head a) 0 0 h))"

definition heap_check_locked :: "heap \<Rightarrow> heap option" where
  "heap_check_locked h =
     Option.bind (check_arena (low h) (h\<lparr>nchk := nchk h + 1\<rparr>)) (\<lambda>h1. check_arena (big h1) h1)"

section \<open>The commands of the debug file\<close>

text \<open>\<open>heap_selftest\<close> frees a block of its own twice and counts whether that was noticed; then it forgets
  the reports. The answer 0 of \<open>arena_alloc\<close> is not tested for, as in the code.\<close>

definition heap_selftest :: "heap \<Rightarrow> heap option" where
  "heap_selftest h =
     map_option (\<lambda>(p, a, m).
         let h1 = free_locked p (free_locked p (h\<lparr>hmem := m, low := a\<rparr>));
             hit = (if nerr h < nerr h1 then 1 else 0)
         in h1\<lparr>nerr := nerr h, reports := reports h @ [Selftest_Caught hit 1]\<rparr>)
       (arena_alloc (low h) (hmem h) 40)"

definition heap_cmd :: "string \<Rightarrow> heap \<Rightarrow> heap option" where
  "heap_cmd s h =
     (if 8 \<le> length s \<and> take 8 s = ''selftest'' then heap_selftest h
      else if 5 \<le> length s \<and> take 5 s = ''check'' then
        map_option (\<lambda>h1. if nerr h1 = 0 then h1\<lparr>reports := reports h1 @ [Check_Ok]\<rparr> else h1)
          (heap_check_locked (h\<lparr>reports := [], nerr := 0\<rparr>))
      else Some h)"

end
