(* ===== verification/Heap_Correct.thy ===== *)
theory Heap_Correct
  imports Heap
begin

text \<open>
  The invariant of the heap: from the first block of an arena the forward pointers run through all of its blocks, the
  backward pointers run back, neighbours touch, no two free blocks are adjacent and the counters are right. Splitting and
  merging blocks and the search keep it.
\<close>

section \<open>List segments in the store\<close>

text \<open>\<open>seg m p x xs q y\<close>: starting at address \<open>x\<close> with predecessor \<open>p\<close>, the \<open>next\<close> pointers run
  through the blocks \<open>xs\<close>, their \<open>prev\<close> pointers run back, and the walk ends with the last block \<open>q\<close>
  and the pointer \<open>y\<close>.\<close>

fun seg :: "store \<Rightarrow> nat \<Rightarrow> nat \<Rightarrow> nat list \<Rightarrow> nat \<Rightarrow> nat \<Rightarrow> bool" where
  "seg m p x [] q y \<longleftrightarrow> q = p \<and> y = x"
| "seg m p x (b # bs) q y \<longleftrightarrow> x = b \<and> b \<noteq> 0 \<and> b_prev (m b) = p \<and> seg m b (b_next (m b)) bs q y"

text \<open>One block of an arena that ends at \<open>e\<close>: it is followed by the block \<open>next\<close> points to, or by the end
  of the arena, and its canary agrees with its state.\<close>

definition okblk :: "nat \<Rightarrow> block \<Rightarrow> nat \<Rightarrow> bool" where
  "okblk e k b \<longleftrightarrow> b + hdr + b_size k = (if b_next k = 0 then e else b_next k) \<and>
     b_mg k = (if b_free k then MG_FREE else MG_USED) \<and> 16 dvd b"

text \<open>What the clients of an arena can tell of its blocks: address, payload size, state.\<close>

type_synonym tag = "nat \<times> nat \<times> bool"

definition tags :: "store \<Rightarrow> nat list \<Rightarrow> tag list" where
  "tags m bs = map (\<lambda>b. (b, b_size (m b), b_free (m b))) bs"

text \<open>What the blocks count in \<open>used\<close>.\<close>

fun charge :: "tag \<Rightarrow> nat" where
  "charge (b, s, f) = (if f then 0 else s + hdr)"

definition charges :: "tag list \<Rightarrow> nat" where
  "charges ts = sum_list (map charge ts)"

text \<open>Two neighbours are never both free: every free block is as large as it can be.\<close>

fun apart :: "tag \<Rightarrow> tag \<Rightarrow> bool" where
  "apart (b, s, f) (c, t, g) \<longleftrightarrow> \<not> (f \<and> g)"

definition merged :: "tag list \<Rightarrow> bool" where
  "merged ts \<longleftrightarrow> successively apart ts"

text \<open>The live blocks as the clients see them: payload address and payload size.\<close>

definition live_of :: "tag list \<Rightarrow> (nat \<times> nat) set" where
  "live_of ts = {(b + hdr, s) | b s. (b, s, False) \<in> set ts}"

text \<open>The blocks \<open>bs\<close> are linked in both directions and tile the addresses from \<open>x\<close> to \<open>e\<close>.\<close>

definition chain_ok :: "store \<Rightarrow> nat \<Rightarrow> nat \<Rightarrow> nat list \<Rightarrow> bool" where
  "chain_ok m x e bs \<longleftrightarrow> bs \<noteq> [] \<and> e < 2 ^ 64 \<and> seg m 0 x bs (last bs) 0 \<and> (\<forall>b\<in>set bs. okblk e (m b) b)"

definition arena_ok :: "store \<Rightarrow> arena \<Rightarrow> nat list \<Rightarrow> bool" where
  "arena_ok m a bs \<longleftrightarrow>
     a_head a = a_base a \<and> chain_ok m (a_base a) (a_base a + a_size a) bs \<and>
     merged (tags m bs) \<and> a_used a = charges (tags m bs) \<and> a_rover a \<in> set bs"

text \<open>The blocks of an arena, by walking the \<open>next\<close> pointers from its head.\<close>

fun blocks_from :: "nat \<Rightarrow> store \<Rightarrow> nat \<Rightarrow> nat list" where
  "blocks_from 0 m b = []"
| "blocks_from (Suc k) m b = (if b = 0 then [] else b # blocks_from k m (b_next (m b)))"

definition arena_blocks :: "store \<Rightarrow> arena \<Rightarrow> nat list" where
  "arena_blocks m a = blocks_from (a_size a) m (a_head a)"

definition arena_inv :: "store \<Rightarrow> arena \<Rightarrow> bool" where
  "arena_inv m a \<longleftrightarrow> arena_ok m a (arena_blocks m a)"

definition live :: "store \<Rightarrow> arena \<Rightarrow> (nat \<times> nat) set" where
  "live m a = live_of (tags m (arena_blocks m a))"

lemma tags_simps [simp]:
  "tags m [] = []" "tags m (b # bs) = (b, b_size (m b), b_free (m b)) # tags m bs"
  "tags m (bs @ cs) = tags m bs @ tags m cs"
  by (simp_all add: tags_def)

lemma charges_simps [simp]:
  "charges [] = 0" "charges (t # ts) = charge t + charges ts"
  "charges (ts @ us) = charges ts + charges us"
  by (simp_all add: charges_def)

lemma live_of_simps [simp]:
  "live_of [] = {}" "live_of ((b, s, f) # ts) = (if f then live_of ts else insert (b + hdr, s) (live_of ts))"
  "live_of (ts @ us) = live_of ts \<union> live_of us"
  by (auto simp: live_of_def)

lemma merged_mid:
  "merged (ts @ t # us) \<longleftrightarrow> merged ts \<and> merged us \<and> (ts = [] \<or> apart (last ts) t) \<and>
     (us = [] \<or> apart t (hd us))"
  by (cases us) (auto simp: merged_def successively_append_iff successively_Cons)

lemma merged_Cons [simp]: "merged (t # us) \<longleftrightarrow> merged us \<and> (us = [] \<or> apart t (hd us))"
  by (cases us) (auto simp: merged_def successively_Cons)

lemma apart_free:
  "apart t (b, s, True) \<Longrightarrow> apart t (c, s', f)" "apart (b, s, True) t \<Longrightarrow> apart (c, s', f) t"
  "apart t (c, s', False)" "apart (c, s', False) t"
  by (cases t; simp)+

lemma seg_append:
  "seg m p x (bs @ cs) q y \<longleftrightarrow> (\<exists>r z. seg m p x bs r z \<and> seg m r z cs q y)"
  by (induction bs arbitrary: p x) auto

lemma seg_cong: "(\<And>b. b \<in> set bs \<Longrightarrow> m' b = m b) \<Longrightarrow> seg m' p x bs q y = seg m p x bs q y"
  by (induction bs arbitrary: p x) auto

lemma seg_blocks_from: "seg m p x bs q 0 \<Longrightarrow> length bs \<le> k \<Longrightarrow> blocks_from k m x = bs"
proof (induction bs arbitrary: p x k)
  case Nil
  then show ?case by (cases k) auto
next
  case (Cons b bs)
  then show ?case by (cases k) auto
qed

lemma seg_last: "seg m p x bs q y \<Longrightarrow> q = (if bs = [] then p else last bs)"
  by (induction bs arbitrary: p x) auto

lemma seg_hd: "seg m p x (b # bs) q y \<Longrightarrow> x = b"
  by simp

text \<open>Blocks of a well-formed list lie in address order, without overlap, up to the end.\<close>

lemma seg_bounds:
  assumes "seg m p x bs q 0" and "\<forall>b\<in>set bs. okblk e (m b) b" and "bs \<noteq> []"
  shows "sorted_wrt (\<lambda>b c. b + hdr + b_size (m b) \<le> c) bs \<and>
    (\<forall>b\<in>set bs. x \<le> b \<and> b + hdr + b_size (m b) \<le> e) \<and> 32 * length bs + x \<le> e"
  using assms
proof (induction bs arbitrary: p x)
  case (Cons b bs)
  show ?case
  proof (cases "bs = []")
    case True
    with Cons.prems show ?thesis by (auto simp: okblk_def)
  next
    case False
    then have nx: "b_next (m b) \<noteq> 0" using Cons.prems(1) by (cases bs) auto
    have x: "x = b" and s: "seg m b (b_next (m b)) bs q 0" using Cons.prems(1) by auto
    have e: "b + hdr + b_size (m b) = b_next (m b)" using Cons.prems(2) nx by (simp add: okblk_def)
    have IH: "sorted_wrt (\<lambda>b c. b + hdr + b_size (m b) \<le> c) bs \<and>
        (\<forall>c\<in>set bs. b_next (m b) \<le> c \<and> c + hdr + b_size (m c) \<le> e) \<and>
        32 * length bs + b_next (m b) \<le> e"
      by (rule Cons.IH [OF s]) (use Cons.prems(2) False in auto)
    then show ?thesis using x e False by (cases bs) auto
  qed
qed simp


lemma chain_sorted:
  assumes "chain_ok m x e bs"
  shows "sorted_wrt (\<lambda>b c. b + hdr + b_size (m b) \<le> c) bs"
  using assms seg_bounds [of m 0 x bs "last bs" e] by (auto simp: chain_ok_def)

lemma chain_distinct:
  assumes "chain_ok m x e bs"
  shows "distinct bs"
proof -
  have "sorted_wrt (<) bs"
    using chain_sorted [OF assms] by (rule sorted_wrt_mono_rel [rotated]) auto
  then show ?thesis by (simp add: strict_sorted_iff)
qed

lemma chain_block:
  assumes "chain_ok m x e bs" and "b \<in> set bs"
  shows "b \<noteq> 0 \<and> x \<le> b \<and> b + hdr + b_size (m b) \<le> e \<and> e < 2 ^ 64 \<and> 16 dvd b"
proof -
  have "seg m p y cs q z \<Longrightarrow> b \<in> set cs \<Longrightarrow> b \<noteq> 0" for p y cs q z
    by (induction cs arbitrary: p y) auto
  then show ?thesis
    using assms seg_bounds [of m 0 x bs "last bs" e] by (auto simp: chain_ok_def okblk_def)
qed

lemma chain_length: "chain_ok m x e bs \<Longrightarrow> 32 * length bs + x \<le> e"
  using seg_bounds [of m 0 x bs "last bs" e] by (auto simp: chain_ok_def)

lemma seg_total:
  "seg m p x bs q 0 \<Longrightarrow> \<forall>b\<in>set bs. okblk e (m b) b \<Longrightarrow> bs \<noteq> [] \<Longrightarrow>
     x + (\<Sum>b\<leftarrow>bs. b_size (m b) + hdr) = e"
proof (induction bs arbitrary: p x)
  case (Cons b bs)
  then show ?case by (cases bs) (auto simp: okblk_def add.assoc)
qed simp

lemma chain_charge: "chain_ok m x e bs \<Longrightarrow> x + charges (tags m bs) \<le> e"
proof -
  assume ok: "chain_ok m x e bs"
  have "charges (tags m bs) \<le> (\<Sum>b\<leftarrow>bs. b_size (m b) + hdr)" by (induction bs) auto
  then show ?thesis using ok seg_total [of m 0 x bs "last bs" e] by (auto simp: chain_ok_def)
qed

text \<open>The links around one block of the list.\<close>

lemma chain_split:
  "chain_ok m x e (us @ b # vs) \<longleftrightarrow>
     e < 2 ^ 64 \<and> b \<noteq> 0 \<and> seg m 0 x us (b_prev (m b)) b \<and>
     seg m b (b_next (m b)) vs (last (b # vs)) 0 \<and>
     okblk e (m b) b \<and> (\<forall>c\<in>set us. okblk e (m c) c) \<and> (\<forall>c\<in>set vs. okblk e (m c) c)"
  by (auto simp: chain_ok_def seg_append)

lemma chain_cong:
  assumes "chain_ok m x e bs" and "\<And>b. b \<in> set bs \<Longrightarrow> m' b = m b"
  shows "chain_ok m' x e bs"
  using assms seg_cong [of bs m' m] by (auto simp: chain_ok_def)

lemma chain_next:
  "chain_ok m x e (us @ b # vs) \<Longrightarrow> b_next (m b) = (if vs = [] then 0 else hd vs)"
  by (cases vs) (auto simp: chain_split)

lemma chain_prev:
  "chain_ok m x e (us @ b # vs) \<Longrightarrow> b_prev (m b) = (if us = [] then 0 else last us)"
  using seg_last [of m 0 x us "b_prev (m b)" b] by (auto simp: chain_split)

text \<open>What the writes of a list operation may do to the other blocks: \<open>same m m' b\<close> keeps everything but
  the \<open>prev\<close> pointer.\<close>

definition same :: "store \<Rightarrow> store \<Rightarrow> nat \<Rightarrow> bool" where
  "same m m' b \<longleftrightarrow> b_size (m' b) = b_size (m b) \<and> b_free (m' b) = b_free (m b) \<and>
     b_next (m' b) = b_next (m b) \<and> b_mg (m' b) = b_mg (m b)"

lemma same_refl [simp]: "m' b = m b \<Longrightarrow> same m m' b"
  by (simp add: same_def)

lemma same_okblk: "same m m' b \<Longrightarrow> okblk e (m b) b \<Longrightarrow> okblk e (m' b) b"
  by (simp add: same_def okblk_def)

lemma same_tags: "\<forall>b\<in>set bs. same m m' b \<Longrightarrow> tags m' bs = tags m bs"
  by (induction bs) (auto simp: same_def)

text \<open>Relinking the tail \<open>vs\<close> of the list to a new predecessor.\<close>

lemma seg_relink:
  assumes "seg m p z vs q y" and "distinct vs"
    and "vs = [] \<or> m' (hd vs) = (m (hd vs))\<lparr>b_prev := p'\<rparr>" and "\<forall>c\<in>set (tl vs). m' c = m c"
  shows "seg m' p' z vs (if vs = [] then p' else q) y"
proof (cases vs)
  case (Cons v ws)
  then have "seg m' v (b_next (m v)) ws q y = seg m v (b_next (m v)) ws q y"
    using assms(4) by (intro seg_cong) auto
  with Cons assms show ?thesis by auto
qed (use assms in auto)

section \<open>Splitting and merging\<close>

text \<open>The addresses of the blocks before and after \<open>b\<close>.\<close>

lemma chain_around:
  assumes "chain_ok m x e (us @ b # vs)"
  shows "\<forall>u\<in>set us. u + hdr + b_size (m u) \<le> b" and "\<forall>v\<in>set vs. b + hdr + b_size (m b) \<le> v"
    and "distinct (us @ b # vs)"
  using chain_sorted [OF assms] chain_distinct [OF assms] by (auto simp: sorted_wrt_append)

lemma chain_split_at:
  assumes ok: "chain_ok m x e (us @ b # vs)" and n: "16 dvd n" "n + 48 \<le> b_size (m b)"
  defines "s \<equiv> b + hdr + n" and "m' \<equiv> split_at m b n"
  shows "chain_ok m' x e (us @ b # s # vs)"
    and "tags m' us = tags m us" "tags m' vs = tags m vs" "b_size (m' b) = n" "b_free (m' b) = b_free (m b)"
      "b_size (m' s) = b_size (m b) - n - hdr" "b_free (m' s)"
    and "\<forall>c. c \<notin> set (us @ b # s # vs) \<longrightarrow> m' c = m c"
proof -
  have bk: "b + hdr + b_size (m b) \<le> e" "e < 2 ^ 64" "16 dvd b"
    using chain_block [OF ok, of b] by auto
  have s: "add64 (add64 b hdr) n = s" using bk n by (simp add: s_def)
  have sz: "sub64 (sub64 (b_size (m b)) n) hdr = b_size (m b) - n - hdr" using bk n by simp
  note near = chain_around [OF ok]
  have "s \<noteq> 0" by (simp add: s_def)
  have new: "s \<notin> set us" "s \<notin> set vs" "s \<noteq> b" using near(1,2) n by (fastforce simp: s_def)+
  have nx: "b_next (m b) = (if vs = [] then 0 else hd vs)" by (rule chain_next [OF ok])
  have hdvs: "vs \<noteq> [] \<Longrightarrow> hd vs \<notin> set us \<and> hd vs \<noteq> b \<and> hd vs \<noteq> s \<and> hd vs \<noteq> 0"
    using near(3) new chain_block [OF ok, of "hd vs"] by (cases vs) auto
  let ?new = "\<lparr>b_size = b_size (m b) - n - hdr, b_next = b_next (m b), b_prev = b,
               b_free = True, b_mg = MG_FREE\<rparr>"
  have mb: "m' b = (m b)\<lparr>b_size := n, b_next := s\<rparr>"
    using new hdvs nx by (auto simp: m'_def split_at_def Let_def s sz)
  have ms: "m' s = ?new"
    using new hdvs nx by (auto simp: m'_def split_at_def Let_def s sz)
  have mu: "m' u = m u" if "u \<in> set us" for u
    using that new hdvs near(3) nx by (auto simp: m'_def split_at_def Let_def s sz)
  have mh: "vs = [] \<or> m' (hd vs) = (m (hd vs))\<lparr>b_prev := s\<rparr>"
    using hdvs nx by (auto simp: m'_def split_at_def Let_def s sz)
  have mt: "\<forall>v\<in>set (tl vs). m' v = m v"
    using new near(3) nx by (cases vs) (auto simp: m'_def split_at_def Let_def s sz)
  show "\<forall>c. c \<notin> set (us @ b # s # vs) \<longrightarrow> m' c = m c"
    using nx by (cases vs) (auto simp: m'_def split_at_def Let_def s sz)
  have sm: "\<forall>c\<in>set us \<union> set vs. same m m' c"
    using mu mh mt by (cases vs) (auto simp: same_def)
  show "tags m' us = tags m us" "tags m' vs = tags m vs" using sm by (auto intro: same_tags)
  show "b_size (m' b) = n" "b_free (m' b) = b_free (m b)"
    "b_size (m' s) = b_size (m b) - n - hdr" "b_free (m' s)" by (simp_all add: mb ms)
  have "seg m' s (b_next (m b)) vs (if vs = [] then s else last (b # vs)) 0"
    by (rule seg_relink [OF _ _ mh mt]) (use ok near(3) in \<open>auto simp: chain_split\<close>)
  moreover have "seg m' 0 x us (b_prev (m b)) b"
    using ok seg_cong [of us m' m] mu by (auto simp: chain_split)
  moreover have "okblk e (m' b) b" "okblk e ?new s"
    using ok bk n by (auto simp: chain_split okblk_def mb s_def)
  moreover have "\<forall>d\<in>set us \<union> set vs. okblk e (m d) d" using ok by (auto simp: chain_split)
  then have "\<forall>d\<in>set us \<union> set vs. okblk e (m' d) d" using sm same_okblk by blast
  ultimately show "chain_ok m' x e (us @ b # s # vs)"
    using ok \<open>s \<noteq> 0\<close> by (auto simp: chain_split mb ms)
qed

lemma chain_merge_next:
  fixes a :: arena
  assumes ok: "chain_ok m x e (us @ b # c # vs)"
  defines "m' \<equiv> snd (merge_next a m b)"
  shows "chain_ok m' x e (us @ b # vs)"
    and "tags m' us = tags m us" "tags m' vs = tags m vs"
      "b_size (m' b) = b_size (m b) + hdr + b_size (m c)" "b_free (m' b) = b_free (m b)"
    and "b_mg (m' c) = b_mg (m c)"
    and "fst (merge_next a m b) = (if a_rover a = c then a\<lparr>a_rover := b\<rparr> else a)"
    and "\<forall>d. d \<notin> set (us @ b # c # vs) \<longrightarrow> m' d = m d"
proof -
  have bk: "b + hdr + b_size (m b) \<le> e" "c + hdr + b_size (m c) \<le> e" "e < 2 ^ 64"
    using chain_block [OF ok, of b] chain_block [OF ok, of c] by auto
  note near = chain_around [OF ok]
  have bc: "b_next (m b) = c" using chain_next [OF ok] by simp
  have cv: "b_next (m c) = (if vs = [] then 0 else hd vs)" using chain_next [of m x e "us @ [b]" c vs] ok by simp
  have c: "c = b + hdr + b_size (m b)" "c \<noteq> 0"
    using ok bc by (auto simp: chain_split okblk_def)
  have sz: "add64 (b_size (m b)) (add64 hdr (b_size (m c))) = b_size (m b) + hdr + b_size (m c)"
    using bk c by simp
  have hdvs: "vs \<noteq> [] \<Longrightarrow> hd vs \<notin> set us \<and> hd vs \<noteq> b \<and> hd vs \<noteq> c \<and> hd vs \<noteq> 0"
    using near(3) chain_block [OF ok, of "hd vs"] by (cases vs) auto
  have cb: "c \<noteq> b" using near(3) by auto
  have mb: "m' b = (m b)\<lparr>b_size := b_size (m b) + hdr + b_size (m c), b_next := b_next (m c)\<rparr>"
    using hdvs cv cb by (auto simp: m'_def merge_next_def Let_def bc sz)
  show "b_mg (m' c) = b_mg (m c)"
    using hdvs cv cb by (auto simp: m'_def merge_next_def Let_def bc sz)
  have mu: "m' u = m u" if "u \<in> set us" for u
    using that hdvs near(3) cv cb by (auto simp: m'_def merge_next_def Let_def bc sz)
  have mh: "vs = [] \<or> m' (hd vs) = (m (hd vs))\<lparr>b_prev := b\<rparr>"
    using hdvs cv cb by (auto simp: m'_def merge_next_def Let_def bc sz)
  have mt: "\<forall>v\<in>set (tl vs). m' v = m v"
    using near(3) cv cb by (cases vs) (auto simp: m'_def merge_next_def Let_def bc sz)
  show "\<forall>d. d \<notin> set (us @ b # c # vs) \<longrightarrow> m' d = m d"
    using cv by (cases vs) (auto simp: m'_def merge_next_def Let_def bc sz)
  have sm: "\<forall>d\<in>set us \<union> set vs. same m m' d"
    using mu mh mt by (cases vs) (auto simp: same_def)
  show "tags m' us = tags m us" "tags m' vs = tags m vs" using sm by (auto intro: same_tags)
  show "b_size (m' b) = b_size (m b) + hdr + b_size (m c)" "b_free (m' b) = b_free (m b)"
    by (simp_all add: mb)
  have ob: "okblk e (m b) b" "okblk e (m c) c" using ok by (auto simp: chain_split)
  have "b + hdr + (b_size (m b) + hdr + b_size (m c)) = c + hdr + b_size (m c)"
    using c(1) by linarith
  also have "\<dots> = (if b_next (m c) = 0 then e else b_next (m c))"
    using ob(2) unfolding okblk_def by blast
  finally have okb: "okblk e (m' b) b" using ob(1) unfolding okblk_def mb by simp
  have "seg m' b (b_next (m c)) vs (if vs = [] then b else last (c # vs)) 0"
    by (rule seg_relink [OF _ _ mh mt, of c]) (use ok near(3) in \<open>auto simp: chain_split\<close>)
  moreover have "seg m' 0 x us (b_prev (m b)) b"
    using ok seg_cong [of us m' m] mu by (auto simp: chain_split)
  moreover note okb
  moreover have "\<forall>d\<in>set us \<union> set vs. okblk e (m d) d" using ok by (auto simp: chain_split)
  then have "\<forall>d\<in>set us \<union> set vs. okblk e (m' d) d" using sm same_okblk by blast
  ultimately show "chain_ok m' x e (us @ b # vs)"
    using ok by (auto simp: chain_split mb)
  show "fst (merge_next a m b) = (if a_rover a = c then a\<lparr>a_rover := b\<rparr> else a)"
    by (simp add: merge_next_def Let_def bc)
qed

lemma chain_mark:
  fixes f :: bool
  assumes ok: "chain_ok m x e (us @ b # vs)"
  defines "m' \<equiv> m(b := (m b)\<lparr>b_free := f, b_mg := (if f then MG_FREE else MG_USED)\<rparr>)"
  shows "chain_ok m' x e (us @ b # vs)"
    and "tags m' us = tags m us" "tags m' vs = tags m vs"
proof -
  have "seg m' p y cs q z = seg m p y cs q z" for p y cs q z
    by (induction cs arbitrary: p y) (auto simp: m'_def)
  then show "chain_ok m' x e (us @ b # vs)" using ok by (auto simp: chain_ok_def okblk_def m'_def)
  have "b \<notin> set us" "b \<notin> set vs" using chain_distinct [OF ok] by auto
  then show "tags m' us = tags m us" "tags m' vs = tags m vs"
    by (auto intro!: same_tags simp: m'_def same_def)
qed

section \<open>The invariant of an arena\<close>

lemma arena_ok_blocks: "arena_ok m a bs \<Longrightarrow> arena_blocks m a = bs"
proof -
  assume ok: "arena_ok m a bs"
  then have c: "chain_ok m (a_base a) (a_base a + a_size a) bs" by (simp add: arena_ok_def)
  then have "length bs \<le> a_size a" using chain_length [OF c] by simp
  then show ?thesis
    using ok seg_blocks_from by (auto simp: arena_ok_def chain_ok_def arena_blocks_def)
qed

lemma arena_invI: "arena_ok m a bs \<Longrightarrow> arena_inv m a"
  by (simp add: arena_inv_def arena_ok_blocks)

lemma arena_invD: "arena_inv m a \<Longrightarrow> arena_ok m a (arena_blocks m a)"
  by (simp add: arena_inv_def)

lemma arena_ok_chain: "arena_ok m a bs \<Longrightarrow> chain_ok m (a_base a) (a_base a + a_size a) bs"
  by (simp add: arena_ok_def)

lemma live_eq: "arena_ok m a bs \<Longrightarrow> live m a = live_of (tags m bs)"
  by (simp add: live_def arena_ok_blocks)

lemma live_iff: "(p, s) \<in> live m a \<longleftrightarrow>
    (\<exists>b\<in>set (arena_blocks m a). p = b + hdr \<and> s = b_size (m b) \<and> \<not> b_free (m b))"
  by (auto simp: live_def live_of_def tags_def)

text \<open>Live blocks never overlap: the end of one, header of the next included, is not past the other.\<close>

lemma live_disjoint:
  assumes "arena_inv m a" and "(p, s) \<in> live m a" and "(q, t) \<in> live m a" and "p \<noteq> q"
  shows "p + s + hdr \<le> q \<or> q + t + hdr \<le> p"
proof -
  note ok = arena_invD [OF assms(1)]
  obtain b c where b: "b \<in> set (arena_blocks m a)" "p = b + hdr" "s = b_size (m b)"
    and c: "c \<in> set (arena_blocks m a)" "q = c + hdr" "t = b_size (m c)"
    using assms(2,3) by (auto simp: live_iff)
  have "b \<noteq> c" using assms(4) b c by auto
  with b(1) c(1) obtain us vs ws where "arena_blocks m a = us @ b # vs @ c # ws \<or>
      arena_blocks m a = us @ c # vs @ b # ws"
    by (metis split_list_first append_Cons append_assoc in_set_conv_decomp set_ConsD Un_iff set_append)
  then show ?thesis
    using chain_sorted [OF arena_ok_chain [OF ok]] b c by (auto simp: sorted_wrt_append)
qed

lemma live_bounds:
  assumes "arena_inv m a" and "(p, s) \<in> live m a"
  shows "a_base a + hdr \<le> p \<and> p + s \<le> a_base a + a_size a \<and> 16 dvd p"
  using assms chain_block [OF arena_ok_chain [OF arena_invD [OF assms(1)]]]
  by (auto simp: live_iff)

text \<open>What an operation on an arena leaves alone: its place and every header outside it.\<close>

definition framed :: "store \<Rightarrow> arena \<Rightarrow> store \<Rightarrow> arena \<Rightarrow> bool" where
  "framed m a m' a' \<longleftrightarrow> a_base a' = a_base a \<and> a_size a' = a_size a \<and>
     (\<forall>c. c < a_base a \<or> a_base a + a_size a \<le> c \<longrightarrow> m' c = m c)"

lemma framed_refl [simp]: "framed m a m a"
  by (simp add: framed_def)

lemma framed_trans: "framed m a m1 a1 \<Longrightarrow> framed m1 a1 m2 a2 \<Longrightarrow> framed m a m2 a2"
  by (simp add: framed_def)

lemma framedI:
  assumes "chain_ok m0 x (x + a_size a) bs" and "x = a_base a" and "a_base a' = a_base a" and "a_size a' = a_size a"
    and "\<forall>c. c \<notin> set bs \<longrightarrow> m' c = m c"
  shows "framed m a m' a'"
proof -
  have "c \<notin> set bs" if "c < a_base a \<or> a_base a + a_size a \<le> c" for c
    using chain_block [OF assms(1), of c] assms(2) that by auto
  then show ?thesis using assms(3-5) by (simp add: framed_def)
qed

section \<open>Allocation\<close>

text \<open>The next-fit search tries the blocks in order, beginning at the rover and wrapping at the end of the
  list; it always returns.\<close>

definition fits :: "store \<Rightarrow> nat \<Rightarrow> nat \<Rightarrow> bool" where
  "fits m n b \<longleftrightarrow> b_free (m b) \<and> n \<le> b_size (m b)"

abbreviation succ :: "store \<Rightarrow> nat \<Rightarrow> nat \<Rightarrow> nat" where
  "succ m head b \<equiv> (if b_next (m b) \<noteq> 0 then b_next (m b) else head)"

lemma search_path:
  assumes "successively (\<lambda>b c. succ m head b = c) (b # bs)" and "succ m head (last (b # bs)) = start"
    and "start \<notin> set bs"
  shows "search m head start n b = Some (find (fits m n) (b # bs))"
  using assms
proof (induction bs arbitrary: b)
  case Nil
  then show ?case by (subst search.simps) (auto simp: fits_def)
next
  case (Cons c bs)
  then have "search m head start n c = Some (find (fits m n) (c # bs))" by auto
  with Cons.prems show ?case by (subst search.simps) (auto simp: fits_def Let_def)
qed

lemma chain_links:
  assumes "chain_ok m x e bs"
  shows "successively (\<lambda>b c. b_next (m b) = c \<and> c \<noteq> 0) bs" and "b_next (m (last bs)) = 0" and "hd bs = x"
proof -
  have "seg m p y cs q 0 \<Longrightarrow> cs \<noteq> [] \<Longrightarrow>
      successively (\<lambda>b c. b_next (m b) = c \<and> c \<noteq> 0) cs \<and> b_next (m (last cs)) = 0 \<and> hd cs = y" for p y cs q
    by (induction cs arbitrary: p y) (auto simp: successively_Cons neq_Nil_conv)
  then show "successively (\<lambda>b c. b_next (m b) = c \<and> c \<noteq> 0) bs" "b_next (m (last bs)) = 0" "hd bs = x"
    using assms by (auto simp: chain_ok_def)
qed

lemma chain_succ: "chain_ok m x e (us @ b # vs) \<Longrightarrow> succ m x b \<in> set (us @ b # vs)"
  using chain_next [of m x e us b vs] chain_links(3) [of m x e "us @ b # vs"]
  by (cases us; cases vs) auto

lemma search_chain:
  assumes ok: "chain_ok m x e (us @ b # vs)"
  shows "search m x b n b = Some (find (fits m n) (b # vs @ us))"
proof (rule search_path)
  note l = chain_links [OF ok]
  let ?nx = "\<lambda>c d. b_next (m c) = d \<and> d \<noteq> 0" and ?s = "\<lambda>c d. succ m x c = d"
  have nx: "successively ?nx us" "successively ?nx (b # vs)" "us \<noteq> [] \<Longrightarrow> ?nx (last us) b"
    using l(1) by (auto simp: successively_append_iff)
  have mono: "successively ?nx cs \<Longrightarrow> successively ?s cs" for cs
    by (induction cs) (auto simp: successively_Cons)
  have x: "us \<noteq> [] \<Longrightarrow> hd us = x" "us = [] \<Longrightarrow> b = x" using l(3) by auto
  have "successively ?s ((b # vs) @ us)"
    unfolding successively_append_iff using mono [OF nx(1)] mono [OF nx(2)] l(2) x by auto
  then show "successively ?s (b # vs @ us)" by simp
  show "succ m x (last (b # vs @ us)) = b"
    using l(2) x nx(3) by (auto simp: last_append)
  show "b \<notin> set (vs @ us)" using chain_distinct [OF ok] by auto
qed

lemma align8_ge: "n \<le> 2 ^ 64 - 16 \<Longrightarrow> n \<le> align8 n"
  by (simp add: align8_def)

lemma align8_dvd [simp]: "16 dvd align8 n"
  by (simp add: align8_def)

lemma take_block_ok:
  assumes ok: "arena_ok m a (us @ b # vs)" and fit: "fits m n b" and n: "16 dvd n"
    and res: "take_block a m b n = (p, a', m')"
  shows "p = b + hdr \<and> (\<exists>bs. arena_ok m' a' bs) \<and>
    (\<exists>s\<ge>n. live m' a' = insert (p, s) (live m a)) \<and> b_mg (m' b) = MG_USED \<and> framed m a m' a'"
proof -
  note ch = arena_ok_chain [OF ok]
  let ?e = "a_base a + a_size a" and ?x = "a_base a"
  have bk: "b + hdr + b_size (m b) \<le> ?e" "?e < 2 ^ 64" and free: "b_free (m b)" "n \<le> b_size (m b)"
    using chain_block [OF ch, of b] fit by (auto simp: fits_def)
  have "16 \<le> b" using chain_block [OF ch, of b] by (auto elim!: dvdE)
  then have wrap: "add64 (add64 n hdr) 16 = n + 48" using bk free(2) by simp
  define sp where "sp \<longleftrightarrow> n + 48 \<le> b_size (m b)"
  define m1 where "m1 = (if sp then split_at m b n else m)"
  define rs where "rs = (if sp then [b + hdr + n] else [])"
  define rt :: "tag list" where "rt = (if sp then [(b + hdr + n, b_size (m b) - n - hdr, True)] else [])"
  have m': "m' = m1(b := (m1 b)\<lparr>b_free := False, b_mg := MG_USED\<rparr>)"
    and a': "a' = a\<lparr>a_used := add64 (a_used a) (add64 (b_size (m1 b)) hdr),
               a_rover := (if b_next (m1 b) \<noteq> 0 then b_next (m1 b) else a_head a)\<rparr>"
    and p: "p = b + hdr"
    using res bk by (auto simp: take_block_def Let_def m1_def sp_def wrap)
  note sp1 = chain_split_at [OF ch n, folded sp_def]
  have ch1: "chain_ok m1 ?x ?e (us @ b # rs @ vs)" using sp1(1) ch by (auto simp: m1_def rs_def)
  have t1: "tags m1 us = tags m us" "tags m1 (rs @ vs) = rt @ tags m vs" and sz: "n \<le> b_size (m1 b)"
    using sp1(2-7) free by (auto simp: m1_def rs_def rt_def)
  have out: "\<forall>c. c \<notin> set (us @ b # rs @ vs) \<longrightarrow> m1 c = m c"
    using sp1(8) by (auto simp: m1_def rs_def)
  note mark = chain_mark [OF ch1, of False, simplified, folded m']
  have t': "tags m' (us @ b # rs @ vs) = tags m us @ (b, b_size (m1 b), False) # rt @ tags m vs"
    using mark(2,3) t1 by (simp add: m')
  have c': "charges (tags m' (us @ b # rs @ vs)) = a_used a + (b_size (m1 b) + hdr)"
    using ok free unfolding t' by (simp add: arena_ok_def rt_def)
  then have au: "a_used a' = charges (tags m' (us @ b # rs @ vs))"
    using chain_charge [OF mark(1)] bk(2) unfolding a' by simp
  have mg: "merged (tags m' (us @ b # rs @ vs))"
    using ok free unfolding t' by (auto simp: arena_ok_def merged_mid rt_def apart_free)
  have rv: "a_rover a' \<in> set (us @ b # rs @ vs)"
  proof -
    have "a_rover a' = succ m1 ?x b" using ok by (simp add: a' arena_ok_def)
    then show ?thesis by (simp only: chain_succ [OF ch1])
  qed
  have ok': "arena_ok m' a' (us @ b # rs @ vs)"
    using mark(1) mg au rv ok by (simp add: arena_ok_def a')
  have "live m' a' = insert (p, b_size (m1 b)) (live m a)"
    unfolding live_eq [OF ok] live_eq [OF ok'] t' using p free by (simp add: rt_def)
  moreover have "framed m a m' a'"
    by (rule framedI [OF mark(1)]) (use out in \<open>auto simp: m' a'\<close>)
  ultimately show ?thesis using ok' p sz by (auto simp: a' m')
qed

lemma arena_alloc_cases:
  assumes inv: "arena_inv m a" and n: "0 < n"
  obtains (full) "arena_alloc a m n = Some (0, a, m)" "\<forall>b\<in>set (arena_blocks m a). \<not> fits m (align8 n) b"
  | (got) us b vs where "arena_blocks m a = us @ b # vs" "fits m (align8 n) b"
      "arena_alloc a m n = Some (take_block a m b (align8 n))"
proof -
  note ok = arena_invD [OF inv]
  let ?f = "fits m (align8 n)"
  obtain us vs where bs: "arena_blocks m a = us @ a_rover a # vs"
    using ok by (metis arena_ok_def split_list)
  have ch: "chain_ok m (a_base a) (a_base a + a_size a) (us @ a_rover a # vs)"
    using arena_ok_chain [OF ok] bs by simp
  have nz: "a_rover a \<noteq> 0" "a_head a = a_base a" "a_base a \<noteq> 0"
    using chain_block [OF ch, of "a_rover a"] chain_links(3) [OF ch] chain_block [OF ch, of "a_base a"] ok
    by (auto simp: arena_ok_def) (cases us; auto)+
  have s: "search m (a_head a) (a_rover a) (align8 n) (a_rover a) = Some (find ?f (a_rover a # vs @ us))"
    unfolding nz(2) by (rule search_chain [OF ch])
  show ?thesis
  proof (cases "find ?f (a_rover a # vs @ us)")
    case None
    then have "arena_alloc a m n = Some (0, a, m)" using s n nz by (simp add: arena_alloc_def)
    moreover have "\<forall>b\<in>set (arena_blocks m a). \<not> ?f b" using None bs by (auto simp: find_None_iff split: if_splits)
    ultimately show ?thesis by (rule full)
  next
    case (Some b)
    then have b: "?f b" "b \<in> set (arena_blocks m a)" 
      using find_SomeD [OF Some] bs by auto
    obtain us vs where "arena_blocks m a = us @ b # vs" using b(2) by (metis split_list)
    moreover have "arena_alloc a m n = Some (take_block a m b (align8 n))"
      using s n nz Some by (simp add: arena_alloc_def)
    ultimately show ?thesis using b(1) by (intro got)
  qed
qed

section \<open>Freeing and growing\<close>

text \<open>The invariant without the claim that free neighbours are merged: what holds in the middle of
  \<open>free_locked\<close>.\<close>

definition arena_lax :: "store \<Rightarrow> arena \<Rightarrow> nat list \<Rightarrow> bool" where
  "arena_lax m a bs \<longleftrightarrow>
     a_head a = a_base a \<and> chain_ok m (a_base a) (a_base a + a_size a) bs \<and>
     a_used a = charges (tags m bs) \<and> a_rover a \<in> set bs"

lemma arena_lax_chain: "arena_lax m a bs \<Longrightarrow> chain_ok m (a_base a) (a_base a + a_size a) bs"
  by (simp add: arena_lax_def)

lemma arena_ok_lax: "arena_ok m a bs \<longleftrightarrow> arena_lax m a bs \<and> merged (tags m bs)"
  by (auto simp: arena_ok_def arena_lax_def)

lemma lax_merge:
  assumes lax: "arena_lax m a (us @ b # c # vs)" and free: "b_free (m b)" "b_free (m c)"
    and res: "merge_next a m b = (a', m')"
  shows "arena_lax m' a' (us @ b # vs)"
    and "tags m' (us @ b # vs) = tags m us @ (b, b_size (m b) + hdr + b_size (m c), True) # tags m vs"
    and "framed m a m' a'" and "b_mg (m' c) = b_mg (m c)"
proof -
  have ch: "chain_ok m (a_base a) (a_base a + a_size a) (us @ b # c # vs)"
    using lax by (simp add: arena_lax_def)
  note mn = chain_merge_next [OF ch, of a, unfolded res fst_conv snd_conv]
  show t: "tags m' (us @ b # vs) = tags m us @ (b, b_size (m b) + hdr + b_size (m c), True) # tags m vs"
    using mn(2-5) free by simp
  show "arena_lax m' a' (us @ b # vs)"
    using lax mn(1,7) t free by (auto simp: arena_lax_def)
  show "framed m a m' a'"
    by (rule framedI [OF ch]) (use mn(7,8) in auto)
  show "b_mg (m' c) = b_mg (m c)" by (rule mn(6))
qed

text \<open>The merge with the next block, done only if that block is free.\<close>

lemma lax_merge_if:
  assumes lax: "arena_lax m a (us @ b # vs)" and free: "b_free (m b)" and mg: "merged (tags m vs)"
    and res: "(if b_next (m b) \<noteq> 0 \<and> b_free (m (b_next (m b))) then merge_next a m b else (a, m)) = (a', m')"
  obtains ws s where "arena_lax m' a' (us @ b # ws)"
    "tags m' us = tags m us" "tags m' (b # ws) = (b, s, True) # tags m ws" "merged ((b, s, True) # tags m ws)"
    "framed m a m' a'" "live_of (tags m ws) = live_of (tags m vs)"
proof (cases vs)
  case Nil
  then have "b_next (m b) = 0" using lax chain_next [of m _ _ us b vs] by (auto simp: arena_lax_def)
  then show thesis using that [of vs "b_size (m b)"] res lax free mg Nil by simp
next
  case (Cons c ws)
  then have nx: "b_next (m b) = c" "c \<noteq> 0"
    using lax chain_next [of m _ _ us b vs] chain_block [of m _ _ "us @ b # vs" c] by (auto simp: arena_lax_def)
  show thesis
  proof (cases "b_free (m c)")
    case True
    then have r: "merge_next a m b = (a', m')" using res nx by simp
    have lax': "arena_lax m a (us @ b # c # ws)" using lax Cons by simp
    note mn = lax_merge [OF lax' free True r]
    have "length (tags m' us) = length (tags m us)" by (simp add: tags_def)
    then have "tags m' us = tags m us" "tags m' (b # ws) = (b, b_size (m b) + hdr + b_size (m c), True) # tags m ws"
      using mn(2) by simp_all
    moreover have "merged ((b, b_size (m b) + hdr + b_size (m c), True) # tags m ws)"
      using mg Cons True by (auto intro: apart_free)
    ultimately show thesis
      using that [of ws "b_size (m b) + hdr + b_size (m c)"] mn(1,3) Cons True by simp
  next
    case False
    then show thesis using that [of vs "b_size (m b)"] res lax free mg Cons nx by simp
  qed
qed

lemma live_of_tags [simp]: "b \<notin> set bs \<Longrightarrow> (b + hdr, t) \<notin> live_of (tags m bs)"
  by (auto simp: live_of_def tags_def)

lemma arena_free_ok:
  assumes ok: "arena_ok m a (us @ b # vs)" and used: "\<not> b_free (m b)"
    and res: "arena_free a m b = (a', m')"
  shows "(\<exists>bs. arena_ok m' a' bs) \<and> live m' a' = {(q, t). (q, t) \<in> live m a \<and> q \<noteq> b + hdr} \<and>
    framed m a m' a' \<and> b_mg (m' b) = MG_FREE"
proof -
  note ch = arena_ok_chain [OF ok]
  define m1 where "m1 = m(b := (m b)\<lparr>b_free := True, b_mg := MG_FREE\<rparr>)"
  define a1 where "a1 = a\<lparr>a_used := sub64 (a_used a) (add64 (b_size (m1 b)) hdr)\<rparr>"
  note mark = chain_mark [OF ch, of True, simplified, folded m1_def]
  have t1: "tags m1 (us @ b # vs) = tags m us @ (b, b_size (m b), True) # tags m vs"
    using mark(2,3) by (simp add: m1_def)
  have "a_used a < 2 ^ 64" using chain_charge [OF ch] ok chain_block [OF ch, of b] by (simp add: arena_ok_def)
  then have au: "a_used a1 = charges (tags m1 (us @ b # vs))"
    using ok used chain_block [OF ch, of b] unfolding t1 by (simp add: arena_ok_def a1_def m1_def)
  have l1: "arena_lax m1 a1 (us @ b # vs)"
    using mark(1) au ok by (simp add: arena_lax_def arena_ok_def a1_def)
  have f1: "framed m a m1 a1" by (rule framedI [OF ch]) (auto simp: a1_def m1_def)
  have mgd: "merged (tags m us)" "merged (tags m1 vs)"
    using ok mark(3) by (auto simp: arena_ok_def merged_mid)
  obtain a2 m2 where r2: "(if b_next (m1 b) \<noteq> 0 \<and> b_free (m1 (b_next (m1 b))) then merge_next a1 m1 b
      else (a1, m1)) = (a2, m2)" by fastforce
  have "b_free (m1 b)" by (simp add: m1_def)
  from lax_merge_if [OF l1 this mgd(2) r2] obtain ws s where w: "arena_lax m2 a2 (us @ b # ws)"
    "tags m2 us = tags m us" "tags m2 (b # ws) = (b, s, True) # tags m1 ws" "merged ((b, s, True) # tags m1 ws)"
    "framed m1 a1 m2 a2" "live_of (tags m1 ws) = live_of (tags m vs)"
    using mark(2,3) by metis
  have bf: "b_free (m2 b)" and tw: "tags m2 ws = tags m1 ws" using w(3) by auto
  then have mb: "b_mg (m2 b) = MG_FREE" using w(1) by (auto simp: arena_lax_def chain_split okblk_def)
  have pv: "b_prev (m2 b) = (if us = [] then 0 else last us)"
    by (rule chain_prev [OF arena_lax_chain [OF w(1)]])
  have r: "(if b_prev (m2 b) \<noteq> 0 \<and> b_free (m2 (b_prev (m2 b))) then merge_next a2 m2 (b_prev (m2 b))
      else (a2, m2)) = (a', m')"
    using res unfolding arena_free_def Let_def m1_def [symmetric] a1_def [symmetric] r2 by simp
  have lv: "live_of (tags m us) \<union> live_of (tags m vs) = {(q, t). (q, t) \<in> live m a \<and> q \<noteq> b + hdr}"
    unfolding live_eq [OF ok] using chain_distinct [OF ch] used by auto
  have "\<exists>bs. arena_lax m' a' bs \<and> merged (tags m' bs) \<and> framed m2 a2 m' a' \<and> b_mg (m' b) = MG_FREE \<and>
      live_of (tags m' bs) = live_of (tags m us) \<union> live_of (tags m vs)"
  proof (cases "us \<noteq> [] \<and> b_free (m2 (last us))")
    case True
    then obtain us' u where us: "us = us' @ [u]" by (metis append_butlast_last_id)
    have "u \<noteq> 0" using w(1) us chain_block [of m2 _ _ "us @ b # ws" u] by (auto simp: arena_lax_def)
    then have mn: "merge_next a2 m2 u = (a', m')" using r pv True us by simp
    have lu: "arena_lax m2 a2 (us' @ u # b # ws)" using w(1) us by simp
    have uf: "b_free (m2 u)" using True us by simp
    note mm = lax_merge [OF lu uf bf mn]
    have "merged (tags m2 us)" using mgd(1) w(2) by simp
    then have "merged (tags m' (us' @ u # ws))"
      unfolding mm(2) using w(4) uf us tw by (auto simp: merged_mid intro: apart_free)
    moreover have "live_of (tags m us) = live_of (tags m2 us')" using w(2) us uf by (metis live_of_simps sup_bot.right_neutral tags_simps)
    then have "live_of (tags m' (us' @ u # ws)) = live_of (tags m us) \<union> live_of (tags m vs)"
      unfolding mm(2) using w(6) tw by simp
    ultimately show ?thesis using mm(1,3,4) mb by auto
  next
    case False
    then have e: "a' = a2" "m' = m2" using r pv by (auto split: if_splits)
    have "merged (tags m2 (us @ b # ws))"
      using mgd(1) w(2-4) tw False by (cases us rule: rev_cases) (auto simp: merged_mid)
    then show ?thesis using e w tw mb bf by auto
  qed
  then show ?thesis using lv live_eq f1 w(5) framed_trans arena_ok_lax by metis
qed

lemma arena_grow_ok:
  assumes ok: "arena_ok m a (us @ b # vs)" and used: "\<not> b_free (m b)" and n: "16 dvd n" "n < 2 ^ 64"
    and res: "arena_grow a m b n = (g, a', m')"
  shows "(\<exists>bs. arena_ok m' a' bs) \<and> framed m a m' a' \<and>
    (if g then \<exists>s\<ge>max n (b_size (m b)). live m' a' = {(q, t). if q = b + hdr then t = s else (q, t) \<in> live m a}
     else a' = a \<and> m' = m \<and> b_size (m b) < n)"
proof (cases "b_size (m b) < n \<and> b_next (m b) \<noteq> 0 \<and> b_free (m (b_next (m b))) \<and>
    n \<le> add64 (add64 (b_size (m b)) hdr) (b_size (m (b_next (m b))))")
  case False
  then have r: "a' = a" "m' = m" and g: "g \<longleftrightarrow> n \<le> b_size (m b)"
    using res by (auto simp: arena_grow_def Let_def split: if_splits)
  have "live m a = {(q, t). if q = b + hdr then t = b_size (m b) else (q, t) \<in> live m a}"
    unfolding live_eq [OF ok] using chain_distinct [OF arena_ok_chain [OF ok]] used by auto
  then have "n \<le> b_size (m b) \<Longrightarrow> \<exists>s\<ge>max n (b_size (m b)).
      live m a = {(q, t). if q = b + hdr then t = s else (q, t) \<in> live m a}" by (intro exI [of _ "b_size (m b)"]) linarith
  then show ?thesis using ok r g not_le_imp_less framed_refl by (metis (no_types, lifting))
next
  case True
  note ch = arena_ok_chain [OF ok]
  obtain c ws where vs: "vs = c # ws" and c: "b_next (m b) = c"
    using True chain_next [OF ch] by (cases vs) auto
  note ch2 = ch [unfolded vs]
  let ?e = "a_base a + a_size a" and ?x = "a_base a"
  have bk: "b + hdr + b_size (m b) \<le> c" "c + hdr + b_size (m c) \<le> ?e" "?e < 2 ^ 64"
    using chain_around(2) [OF ch2] chain_block [OF ch2, of c] by auto
  have fits: "n \<le> b_size (m b) + hdr + b_size (m c)" and free: "b_free (m c)"
    using True c bk by auto
  define a1 where "a1 = a\<lparr>a_used := sub64 (a_used a) (add64 (b_size (m b)) hdr)\<rparr>"
  obtain a2 m2 where mn: "merge_next a1 m b = (a2, m2)" by fastforce
  note mg = chain_merge_next [OF ch2, of a1, unfolded mn fst_conv snd_conv]
  have "16 \<le> b" using chain_block [OF ch2, of b] by (auto elim!: dvdE)
  then have wrap: "add64 (add64 n hdr) 16 = n + 48" using bk fits by simp
  define sp where "sp \<longleftrightarrow> n + 48 \<le> b_size (m2 b)"
  define m3 where "m3 = (if sp then split_at m2 b n else m2)"
  define rs where "rs = (if sp then [b + hdr + n] else [])"
  define rt :: "tag list" where "rt = (if sp then [(b + hdr + n, b_size (m2 b) - n - hdr, True)] else [])"
  have r: "g" "m' = m3" "a' = a2\<lparr>a_used := add64 (a_used a2) (add64 (b_size (m3 b)) hdr)\<rparr>"
    using res True unfolding arena_grow_def Let_def c a1_def [symmetric] mn
    by (auto simp: m3_def sp_def wrap)
  note sp1 = chain_split_at [OF mg(1) n(1), folded sp_def]
  have ch3: "chain_ok m3 ?x ?e (us @ b # rs @ ws)" using sp1(1) mg(1) by (auto simp: m3_def rs_def)
  have t3: "tags m3 (us @ b # rs @ ws) = tags m us @ (b, b_size (m3 b), False) # rt @ tags m ws"
    and sz: "max n (b_size (m b)) \<le> b_size (m3 b)"
    using sp1(2-7) mg(2-5) used fits True by (auto simp: m3_def rs_def rt_def)
  have out: "\<forall>d. d \<notin> set (us @ b # rs @ ws) \<longrightarrow> m3 d = m2 d"
    using sp1(8) by (auto simp: m3_def rs_def)
  have a2: "a_base a2 = a_base a" "a_size a2 = a_size a" "a_head a2 = a_head a" "a_used a2 = a_used a1"
    "a_rover a2 = (if a_rover a = c then b else a_rover a)"
    using mg(7) by (auto simp: a1_def)
  have fr: "framed m a m2 a2" "framed m2 a2 m' a'"
    by (rule framedI [OF ch2], use mg(8) a2 in auto)
      (rule framedI [OF ch3 [folded a2]], use out r in auto)
  have u: "charges (tags m (us @ b # vs)) = charges (tags m us) + (b_size (m b) + hdr) + charges (tags m ws)"
    using vs used free by simp
  have "a_used a < 2 ^ 64" using chain_charge [OF ch] ok bk by (simp add: arena_ok_def)
  then have "a_used a1 = charges (tags m us) + charges (tags m ws)"
    using ok u bk by (simp add: arena_ok_def a1_def)
  moreover have "charges (tags m3 (us @ b # rs @ ws)) =
      charges (tags m us) + charges (tags m ws) + (b_size (m3 b) + hdr)" unfolding t3 by (simp add: rt_def)
  ultimately have au: "a_used a' = charges (tags m3 (us @ b # rs @ ws))"
    using chain_charge [OF ch3] bk(3) by (simp add: r a2)
  have "merged (tags m us)" "merged (tags m ws)" "tags m ws = [] \<or> apart (c, b_size (m c), True) (hd (tags m ws))"
    using ok vs free by (auto simp: arena_ok_def merged_mid)
  then have "merged (tags m3 (us @ b # rs @ ws))"
    unfolding t3 by (auto simp: merged_mid rt_def apart_free)
  then have ok': "arena_ok m' a' (us @ b # rs @ ws)"
    using ch3 au ok vs by (auto simp: arena_ok_def r a2)
  have "live m' a' = {(q, t). if q = b + hdr then t = b_size (m3 b) else (q, t) \<in> live m a}"
    unfolding live_eq [OF ok] live_eq [OF ok'] unfolding r t3 using vs free used chain_distinct [OF ch2]
    by (auto simp: rt_def)
  then show ?thesis using ok' framed_trans [OF fr] sz r(1) by auto
qed


section \<open>The heap\<close>

text \<open>Two arenas that do not share an address. \<open>in_use\<close> says which of the two exist: the second one does
  from \<open>heap_add_big\<close> on.\<close>

definition in_use :: "heap \<Rightarrow> bool \<Rightarrow> bool" where
  "in_use h w \<longleftrightarrow> (w \<longrightarrow> a_head (big h) \<noteq> 0)"

definition no_overlap :: "arena \<Rightarrow> arena \<Rightarrow> bool" where
  "no_overlap a b \<longleftrightarrow> a_base a + a_size a \<le> a_base b \<or> a_base b + a_size b \<le> a_base a"

definition heap_inv :: "heap \<Rightarrow> bool" where
  "heap_inv h \<longleftrightarrow> arena_inv (hmem h) (low h) \<and>
     (a_head (big h) \<noteq> 0 \<longrightarrow> arena_inv (hmem h) (big h) \<and> no_overlap (low h) (big h))"

text \<open>The allocated blocks of the heap: payload address and payload size.\<close>

definition hlive :: "heap \<Rightarrow> (nat \<times> nat) set" where
  "hlive h = live (hmem h) (low h) \<union> (if a_head (big h) = 0 then {} else live (hmem h) (big h))"

lemma arena_frame:
  assumes "arena_inv m b" and "\<And>c. a_base b \<le> c \<Longrightarrow> c < a_base b + a_size b \<Longrightarrow> m' c = m c"
  shows "arena_inv m' b" and "live m' b = live m b"
proof -
  note ok = arena_invD [OF assms(1)]
  let ?bs = "arena_blocks m b"
  have e: "m' c = m c" if "c \<in> set ?bs" for c
    using chain_block [OF arena_ok_chain [OF ok] that] by (intro assms(2)) auto
  then have t: "tags m' ?bs = tags m ?bs" by (auto simp: tags_def)
  then have ok': "arena_ok m' b ?bs"
    using ok chain_cong [OF arena_ok_chain [OF ok], of m'] e by (auto simp: arena_ok_def)
  show "arena_inv m' b" by (rule arena_invI [OF ok'])
  show "live m' b = live m b" using live_eq [OF ok'] live_eq [OF ok] t by simp
qed

lemma arena_head: "arena_inv m a \<Longrightarrow> a_head a \<noteq> 0 \<and> a_head a = a_base a \<and> a_base a + a_size a < 2 ^ 64"
proof -
  assume "arena_inv m a"
  note ok = arena_invD [OF this]
  have "hd (arena_blocks m a) = a_base a" "arena_blocks m a \<noteq> []"
    using chain_links(3) [OF arena_ok_chain [OF ok]] ok by (auto simp: arena_ok_def chain_ok_def)
  then have "a_base a \<in> set (arena_blocks m a)" by (metis hd_in_set)
  then show ?thesis using chain_block [OF arena_ok_chain [OF ok]] ok by (auto simp: arena_ok_def)
qed

lemma get_set_arena [simp]: "get_arena w (set_arena v a h) = (if v = w then a else get_arena w h)"
  by (auto simp: get_arena_def set_arena_def)

lemma heap_inv_get: "heap_inv h \<longleftrightarrow>
    (\<forall>w. in_use h w \<longrightarrow> arena_inv (hmem h) (get_arena w h)) \<and>
    (in_use h True \<longrightarrow> no_overlap (get_arena False h) (get_arena True h))"
  unfolding all_bool_eq by (auto simp: heap_inv_def in_use_def get_arena_def)

lemma hlive_get: "hlive h = {b. \<exists>w. in_use h w \<and> b \<in> live (hmem h) (get_arena w h)}"
  unfolding ex_bool_eq by (auto simp: hlive_def in_use_def get_arena_def)

text \<open>An operation on one arena that stays inside it is an operation on the heap.\<close>

lemma heap_step:
  assumes inv: "heap_inv h" and w: "in_use h w" and ok: "arena_inv m' a'"
    and fr: "framed (hmem h) (get_arena w h) m' a'"
  defines "h' \<equiv> set_arena w a' (h\<lparr>hmem := m'\<rparr>)"
  shows "heap_inv h'" and "\<And>v. in_use h' v = in_use h v"
    and "\<And>v. in_use h v \<Longrightarrow> live (hmem h') (get_arena v h') =
      (if v = w then live m' a' else live (hmem h) (get_arena v h))"
proof -
  have hm: "hmem h' = m'" by (auto simp: h'_def set_arena_def)
  have ga: "get_arena v h' = (if v = w then a' else get_arena v h)" for v
    by (auto simp: h'_def) (auto simp: get_arena_def)
  show iu: "in_use h' v = in_use h v" for v
    using w arena_head [OF ok] by (auto simp: h'_def in_use_def set_arena_def)
  have no: "in_use h (\<not> w) \<Longrightarrow> no_overlap (get_arena (\<not> w) h) (get_arena w h)"
    using inv w by (cases w) (simp_all add: heap_inv_get no_overlap_def disj_commute)
  have disj: "m' c = hmem h c" if "in_use h (\<not> w)" "a_base (get_arena (\<not> w) h) \<le> c"
      "c < a_base (get_arena (\<not> w) h) + a_size (get_arena (\<not> w) h)" for c
    using no [OF that(1)] that(2,3) fr by (auto simp: framed_def no_overlap_def)
  have other: "arena_inv m' (get_arena (\<not> w) h)" "live m' (get_arena (\<not> w) h) = live (hmem h) (get_arena (\<not> w) h)"
    if "in_use h (\<not> w)"
    using arena_frame [of "hmem h" "get_arena (\<not> w) h" m'] inv that disj [OF that] by (simp_all add: heap_inv_get)
  have "arena_inv m' (get_arena v h')" if "in_use h v" for v
    using other(1) that ok by (cases "v = w") (simp_all add: ga)
  moreover have "in_use h True \<Longrightarrow> no_overlap (get_arena False h') (get_arena True h')"
    using inv fr by (cases w) (simp_all add: ga heap_inv_get no_overlap_def framed_def)
  ultimately show "heap_inv h'" unfolding heap_inv_get iu hm by blast
  show "in_use h v \<Longrightarrow> live (hmem h') (get_arena v h') =
      (if v = w then live m' a' else live (hmem h) (get_arena v h))" for v
    using other(2) by (cases "v = w") (simp_all add: hm ga)
qed

end
