(* ===== verification/Heap_Safety.thy ===== *)
theory Heap_Safety
  imports Heap_Correct
begin

text \<open>
  What the clients of \<open>src/src/core/heap.c\<close> may rely on: the invariant of the heap
  (\<open>heap_inv\<close> of \<open>Heap_Correct\<close>) is established by \<open>heap_init\<close> and \<open>heap_add_big\<close> and kept by every
  operation; allocated blocks are disjoint, large enough and 16-byte aligned; freeing gives back
  exactly the block; a second free of it is reported and changes nothing else; the consistency
  check of the code never complains about a heap that only these operations have changed.
\<close>

section \<open>The two arenas together\<close>

lemma arena_alloc_ok:
  assumes inv: "arena_inv m a"
  obtains (null) "arena_alloc a m n = Some (0, a, m)"
      "n = 0 \<or> (\<forall>b\<in>set (arena_blocks m a). \<not> fits m (align8 n) b)"
  | (block) p a' m' s where "arena_alloc a m n = Some (p, a', m')" "p \<noteq> 0" "n \<noteq> 0" "arena_inv m' a'"
      "framed m a m' a'" "align8 n \<le> s" "live m' a' = insert (p, s) (live m a)" "p \<notin> fst ` live m a"
proof (cases "n = 0")
  case True
  then show thesis by (intro null) (auto simp: arena_alloc_def)
next
  case False
  then have "0 < n" by simp
  note ok = arena_invD [OF inv]
  show thesis
  proof (cases rule: arena_alloc_cases [OF inv \<open>0 < n\<close>])
    case 1
    then show thesis by (intro null) auto
  next
    case (2 us b vs)
    obtain p a' m' where t: "take_block a m b (align8 n) = (p, a', m')" by (metis prod_cases3)
    note tb = take_block_ok [OF ok [unfolded 2(1)] 2(2) align8_dvd t]
    then obtain s where "align8 n \<le> s" "live m' a' = insert (p, s) (live m a)" by blast
    moreover have "p \<notin> fst ` live m a"
    proof
      assume "p \<in> fst ` live m a"
      then have "\<exists>c\<in>set (arena_blocks m a). p = c + hdr \<and> \<not> b_free (m c)" by (auto simp: live_iff)
      then show False using tb 2(2) by (auto simp: fits_def)
    qed
    ultimately show thesis using block [of p a' m' s] t 2(3) tb \<open>0 < n\<close> arena_invI by auto
  qed
qed

lemma hlive_arena:
  assumes "heap_inv h" and "(p, s) \<in> hlive h" and "0 < s"
  shows "in_use h (arena_of h p)" and "(p, s) \<in> live (hmem h) (get_arena (arena_of h p) h)"
proof -
  obtain w where w: "in_use h w" "(p, s) \<in> live (hmem h) (get_arena w h)"
    using assms(2) by (auto simp: hlive_get)
  have inv: "arena_inv (hmem h) (get_arena v h)" if "in_use h v" for v
    using assms(1) that by (simp add: heap_inv_get)
  have p: "a_base (get_arena w h) \<le> p \<and> p < a_base (get_arena w h) + a_size (get_arena w h)"
    using live_bounds [OF inv [OF w(1)] w(2)] assms(3) by simp
  have big: "add64 (a_base (big h)) (a_size (big h)) = a_base (big h) + a_size (big h)" if "in_use h True"
    using arena_head [OF inv [OF that]] by (simp add: get_arena_def)
  have "arena_of h p = w"
  proof (cases w)
    case True
    then show ?thesis using p w(1) big by (simp add: arena_of_def in_use_def get_arena_def)
  next
    case False
    have "\<not> arena_of h p"
    proof
      assume a: "arena_of h p"
      then have u: "in_use h True" by (simp add: in_use_def arena_of_def)
      then have "no_overlap (low h) (big h)" using assms(1) by (simp add: heap_inv_get get_arena_def)
      then show False using a p False big [OF u] by (auto simp: arena_of_def no_overlap_def get_arena_def)
    qed
    then show ?thesis using False by simp
  qed
  then show "in_use h (arena_of h p)" "(p, s) \<in> live (hmem h) (get_arena (arena_of h p) h)"
    using w by auto
qed

text \<open>Allocated blocks of the heap do not overlap, whichever arena they are in.\<close>

lemma hlive_disjoint:
  assumes "heap_inv h" and "(p, s) \<in> hlive h" and "(q, t) \<in> hlive h" and "p \<noteq> q"
  shows "p + s \<le> q \<or> q + t \<le> p"
proof -
  obtain v w where v: "in_use h v" "(p, s) \<in> live (hmem h) (get_arena v h)"
    and w: "in_use h w" "(q, t) \<in> live (hmem h) (get_arena w h)"
    using assms(2,3) by (auto simp: hlive_get)
  have inv: "arena_inv (hmem h) (get_arena v h)" "arena_inv (hmem h) (get_arena w h)"
    using assms(1) v w by (simp_all add: heap_inv_get)
  show ?thesis
  proof (cases "v = w")
    case True
    then show ?thesis using live_disjoint [OF inv(1) v(2)] w(2) assms(4) by fastforce
  next
    case False
    then have "no_overlap (get_arena v h) (get_arena w h)"
      using assms(1) v(1) w(1) by (cases v; cases w) (auto simp: heap_inv_get no_overlap_def)
    then show ?thesis
      using live_bounds [OF inv(1) v(2)] live_bounds [OF inv(2) w(2)] by (auto simp: no_overlap_def)
  qed
qed

lemma live_one_arena:
  assumes "heap_inv h" and "in_use h v" "(p, s) \<in> live (hmem h) (get_arena v h)"
    and "in_use h w" "(p, t) \<in> live (hmem h) (get_arena w h)"
  shows "v = w"
proof (rule ccontr)
  assume "v \<noteq> w"
  then have "no_overlap (get_arena v h) (get_arena w h)"
    using assms(1,2,4) by (cases v; cases w) (auto simp: heap_inv_get no_overlap_def)
  moreover have i: "arena_inv (hmem h) (get_arena v h)" "arena_inv (hmem h) (get_arena w h)"
    using assms by (simp_all add: heap_inv_get)
  ultimately show False
    using live_bounds [OF i(1) assms(3)] live_bounds [OF i(2) assms(5)] by (auto simp: no_overlap_def)
qed

lemma hlive_16: "heap_inv h \<Longrightarrow> (p, s) \<in> hlive h \<Longrightarrow> 16 dvd p \<and> p \<noteq> 0"
  using live_bounds by (fastforce simp: heap_inv_get hlive_get)

text \<open>The view of the heap's blocks after a step on one of its arenas.\<close>

lemma hlive_split:
  "in_use h w \<Longrightarrow> hlive h = live (hmem h) (get_arena w h) \<union>
     (if in_use h (\<not> w) then live (hmem h) (get_arena (\<not> w) h) else {})"
  by (cases w) (auto simp: hlive_def in_use_def get_arena_def)

lemma hlive_step:
  assumes "heap_inv h" and "in_use h w" and "arena_inv m' a'"
    and "framed (hmem h) (get_arena w h) m' a'"
  shows "hlive (set_arena w a' (h\<lparr>hmem := m'\<rparr>)) =
    live m' a' \<union> (if in_use h (\<not> w) then live (hmem h) (get_arena (\<not> w) h) else {})"
  using hlive_split [of "set_arena w a' (h\<lparr>hmem := m'\<rparr>)" w] heap_step(2) [OF assms]
    heap_step(3) [OF assms, of w] heap_step(3) [OF assms, of "\<not> w"] assms(2) by simp

section \<open>Initialisation\<close>

definition arena_args :: "nat \<Rightarrow> nat \<Rightarrow> bool" where
  "arena_args base sz \<longleftrightarrow> base \<noteq> 0 \<and> 16 dvd base \<and> hdr \<le> sz \<and> base + sz < 2 ^ 64"

lemma arena_init_ok:
  assumes "arena_args base sz" and "arena_init m base sz = (m', a)"
  shows "arena_inv m' a" and "live m' a = {}" and "a_base a = base" and "a_size a = sz"
    and "\<forall>c. c \<noteq> base \<longrightarrow> m' c = m c" and "b_free (m' base)" and "arena_blocks m' a = [base]"
proof -
  have ok: "arena_ok m' a [base]"
    using assms by (auto simp: arena_args_def arena_init_def arena_ok_def chain_ok_def okblk_def merged_def)
  show "arena_inv m' a" by (rule arena_invI [OF ok])
  show "arena_blocks m' a = [base]" by (rule arena_ok_blocks [OF ok])
  show "live m' a = {}" unfolding live_eq [OF ok] using assms by (auto simp: arena_init_def)
  show "a_base a = base" "a_size a = sz" "\<forall>c. c \<noteq> base \<longrightarrow> m' c = m c" "b_free (m' base)"
    using assms(2) by (auto simp: arena_init_def)
qed

lemma heap_init_ok:
  assumes "arena_args base sz" and "a_head (big h) = 0"
  shows "heap_inv (heap_init base sz h) \<and> hlive (heap_init base sz h) = {} \<and>
    a_base (low (heap_init base sz h)) = base \<and> a_size (low (heap_init base sz h)) = sz \<and>
    a_head (big (heap_init base sz h)) = 0"
proof -
  obtain m' a where i: "arena_init (hmem h) base sz = (m', a)" by fastforce
  then have "heap_init base sz h = h\<lparr>hmem := m', low := a\<rparr>" by (simp add: heap_init_def)
  then show ?thesis
    using arena_init_ok [OF assms(1) i] assms(2) by (simp add: heap_inv_def hlive_def)
qed

lemma heap_add_big_ok:
  assumes inv: "heap_inv h" and args: "arena_args base sz" and new: "a_head (big h) = 0"
    and apart: "a_base (low h) + a_size (low h) \<le> base \<or> base + sz \<le> a_base (low h)"
  shows "heap_inv (heap_add_big base sz h) \<and> hlive (heap_add_big base sz h) = hlive h"
proof -
  obtain m' a where i: "arena_init (hmem h) base sz = (m', a)" by fastforce
  then have h': "heap_add_big base sz h = h\<lparr>hmem := m', big := a\<rparr>" by (simp add: heap_add_big_def)
  note a = arena_init_ok [OF args i]
  have ainv: "arena_inv (hmem h) (low h)" using inv by (simp add: heap_inv_def)
  have "m' c = hmem h c" if "a_base (low h) \<le> c" "c < a_base (low h) + a_size (low h)" for c
    using a(5) that apart args by (auto simp: arena_args_def)
  note fr = arena_frame [OF ainv this]
  show ?thesis
    using fr a(1-4) new apart arena_head [OF a(1)]
    by (auto simp: h' heap_inv_def hlive_def no_overlap_def)
qed

section \<open>Allocation and release\<close>

text \<open>Allocation from the arena \<open>w\<close>.\<close>

definition alloc_in :: "bool \<Rightarrow> nat \<Rightarrow> heap \<Rightarrow> (nat \<times> heap) option" where
  "alloc_in w n h = (if w then alloc_big n h else alloc_low n h)"

lemma alloc_in_eq: "alloc_in w n h =
    map_option (\<lambda>(p, a, m). (p, set_arena w a (h\<lparr>hmem := m\<rparr>))) (arena_alloc (get_arena w h) (hmem h) n)"
  by (simp add: alloc_in_def alloc_big_def alloc_low_def get_arena_def set_arena_def)

lemma set_get_arena [simp]: "set_arena w (get_arena w h) h = h"
  by (simp add: set_arena_def get_arena_def)

lemma alloc_in_ok:
  assumes inv: "heap_inv h" and w: "in_use h w"
  obtains (null) "alloc_in w n h = Some (0, h)"
      "n = 0 \<or> (\<forall>b\<in>set (arena_blocks (hmem h) (get_arena w h)). \<not> fits (hmem h) (align8 n) b)"
  | (block) p h' s where "alloc_in w n h = Some (p, h')" "p \<noteq> 0" "n \<noteq> 0" "heap_inv h'" "align8 n \<le> s"
      "hlive h' = insert (p, s) (hlive h)" "(\<forall>(q, t)\<in>hlive h. p + s \<le> q \<or> q + t \<le> p)" "16 dvd p"
      "p \<notin> fst ` hlive h"
proof -
  let ?a = "get_arena w h"
  have "arena_inv (hmem h) ?a" using inv w by (simp add: heap_inv_get)
  then show thesis
  proof (cases rule: arena_alloc_ok [of "hmem h" ?a n])
    case null
    then show thesis using that(1) by (simp add: alloc_in_eq)
  next
    case (block p a' m' s)
    define h' where "h' = set_arena w a' (h\<lparr>hmem := m'\<rparr>)"
    have r: "alloc_in w n h = Some (p, h')" using block(1) by (simp add: alloc_in_eq h'_def)
    have inv': "heap_inv h'" unfolding h'_def by (rule heap_step(1) [OF inv w block(4,5)])
    have lv: "hlive h' = insert (p, s) (hlive h)"
      unfolding h'_def hlive_step [OF inv w block(4,5)] hlive_split [OF w] block(7) by simp
    have new: "p \<notin> fst ` hlive h"
    proof
      assume "p \<in> fst ` hlive h"
      then obtain t where t: "(p, t) \<in> hlive h" by auto
      have "(p, t) \<notin> live (hmem h) ?a" using block(8) by force
      then have o: "in_use h (\<not> w)" "(p, t) \<in> live (hmem h) (get_arena (\<not> w) h)"
        using t hlive_split [OF w] by (auto split: if_splits)
      note st = heap_step(2,3) [OF inv w block(4,5), folded h'_def]
      have "(p, s) \<in> live (hmem h') (get_arena w h')" "(p, t) \<in> live (hmem h') (get_arena (\<not> w) h')"
        using st(2) w o block(7) by simp_all
      then show False using live_one_arena [OF inv', of w p s "\<not> w" t] st(1) w o(1) by simp
    qed
    have "\<forall>(q, t)\<in>hlive h. p + s \<le> q \<or> q + t \<le> p"
      using hlive_disjoint [OF inv', of p s] lv new by (fastforce simp: image_iff)
    then show thesis using that(2) [OF r block(2,3) inv' block(6) lv] hlive_16 [OF inv', of p s] lv new by simp
  qed
qed

lemma kmalloc_ok:
  assumes "heap_inv h"
  shows "\<exists>p h'. kmalloc n h = Some (p, h') \<and> heap_inv h' \<and>
    (if p = 0 then h' = h \<and> (n = 0 \<or>
        (\<forall>b\<in>set (arena_blocks (hmem h) (low h)). b_free (hmem h b) \<longrightarrow> b_size (hmem h b) < align8 n))
     else \<exists>s\<ge>align8 n. (n \<le> 2 ^ 64 - 16 \<longrightarrow> n \<le> s) \<and> 16 dvd p \<and> hlive h' = insert (p, s) (hlive h) \<and>
        (\<forall>(q, t)\<in>hlive h. p + s \<le> q \<or> q + t \<le> p))"
proof -
  have w: "in_use h False" by (simp add: in_use_def)
  have k: "kmalloc n h = alloc_in False n h" by (simp add: kmalloc_def alloc_in_def)
  show ?thesis
  proof (cases rule: alloc_in_ok [OF assms w, of n])
    case 1
    then show ?thesis using assms by (auto simp: k fits_def get_arena_def)
  next
    case (2 p h' s)
    then show ?thesis using align8_ge [of n] by (intro exI [of _ p] exI [of _ h']) (auto simp: k)
  qed
qed

text \<open>C2: \<open>kmalloc\<close> on a well-formed heap always returns. It answers NULL only for the request 0 or when
  no free block of the kernel arena is as large as the rounded request, and then the heap is unchanged.
  Otherwise the block it returns is 16-byte aligned, at least as large as the request (as long as rounding
  the request up does not wrap), overlaps no block that was allocated before, is the only change to the
  set of allocated blocks, and the heap is well-formed again.\<close>

theorem kmalloc_correct:
  assumes "heap_inv h"
  shows "\<exists>p h'. kmalloc n h = Some (p, h') \<and> heap_inv h' \<and>
    (if p = 0 then h' = h \<and> (n = 0 \<or>
        (\<forall>b\<in>set (arena_blocks (hmem h) (low h)). b_free (hmem h b) \<longrightarrow> b_size (hmem h b) < align8 n))
     else \<exists>s\<ge>align8 n. (n \<le> 2 ^ 64 - 16 \<longrightarrow> n \<le> s) \<and> 16 dvd p \<and> hlive h' = insert (p, s) (hlive h) \<and>
        (\<forall>(q, t)\<in>hlive h. p + s \<le> q \<or> q + t \<le> p))"
  using assms by (rule kmalloc_ok)

text \<open>The block that a live payload address stands for, as \<open>free_locked\<close> and \<open>kgrow\<close> find it.\<close>

lemma hlive_block:
  assumes inv: "heap_inv h" and p: "(p, s) \<in> hlive h" "0 < s"
  obtains us b vs where "arena_ok (hmem h) (get_arena (arena_of h p) h) (us @ b # vs)" "p = b + hdr"
    "sub64 p hdr = b" "b_size (hmem h b) = s" "\<not> b_free (hmem h b)" "b_mg (hmem h b) = MG_USED"
proof -
  let ?a = "get_arena (arena_of h p) h"
  have l: "in_use h (arena_of h p)" "(p, s) \<in> live (hmem h) ?a" using hlive_arena [OF inv p] by auto
  then have ainv: "arena_inv (hmem h) ?a" using inv by (simp add: heap_inv_get)
  obtain b where b: "b \<in> set (arena_blocks (hmem h) ?a)" "p = b + hdr" "s = b_size (hmem h b)" "\<not> b_free (hmem h b)"
    using l(2) by (auto simp: live_iff)
  obtain us vs where bs: "arena_blocks (hmem h) ?a = us @ b # vs" using b(1) by (metis split_list)
  note ok = arena_invD [OF ainv, unfolded bs]
  have "b_mg (hmem h b) = MG_USED"
    using arena_ok_chain [OF ok] b(4) by (auto simp: chain_split okblk_def)
  moreover have "sub64 p hdr = b" using chain_block [OF arena_ok_chain [OF ok], of b] b(2) by simp
  ultimately show thesis using that ok b by blast
qed

text \<open>What a free of a live block does to the heap.\<close>

lemma free_locked_ok:
  assumes inv: "heap_inv h" and p: "(p, s) \<in> hlive h" "0 < s"
  shows "heap_inv (free_locked p h) \<and> hlive (free_locked p h) = {(q, t). (q, t) \<in> hlive h \<and> q \<noteq> p} \<and>
    reports (free_locked p h) = reports h \<and> nerr (free_locked p h) = nerr h \<and>
    b_mg (hmem (free_locked p h) (sub64 p hdr)) = MG_FREE"
proof -
  let ?w = "arena_of h p"
  have w: "in_use h ?w" using hlive_arena [OF inv p] by simp
  obtain us b vs where b: "arena_ok (hmem h) (get_arena ?w h) (us @ b # vs)" "p = b + hdr" "sub64 p hdr = b"
    "\<not> b_free (hmem h b)" "b_mg (hmem h b) = MG_USED" using hlive_block [OF inv p] by metis
  obtain a' m' where r: "arena_free (get_arena ?w h) (hmem h) b = (a', m')" by fastforce
  note fr = arena_free_ok [OF b(1,4) r]
  then have ok: "arena_inv m' a'" and f: "framed (hmem h) (get_arena ?w h) m' a'" using arena_invI by blast+
  define h' where "h' = set_arena ?w a' (h\<lparr>hmem := m'\<rparr>)"
  have e: "free_locked p h = h'"
    unfolding free_locked_def Let_def b(3) b(5) r by (simp add: h'_def)
  have "hlive h' = {(q, t). (q, t) \<in> hlive h \<and> q \<noteq> p}"
  proof -
    have "(p, t) \<notin> live (hmem h) (get_arena (\<not> ?w) h)" if "in_use h (\<not> ?w)" for t
      using live_one_arena [OF inv w _ that, of p s t] hlive_arena(2) [OF inv p] by blast
    then show ?thesis
      unfolding h'_def hlive_step [OF inv w ok f] hlive_split [OF w] using fr b(2) by auto
  qed
  moreover have "reports h' = reports h" "nerr h' = nerr h" "hmem h' = m'"
    by (simp_all add: h'_def set_arena_def)
  ultimately show ?thesis
    using heap_step(1) [OF inv w ok f] fr unfolding e h'_def [symmetric] b(3) by simp
qed

lemma free_locked_again:
  "b_mg (hmem h (sub64 p hdr)) = MG_FREE \<Longrightarrow> free_locked p h = say_blk (Double_Free (sub64 p hdr)) h"
  by (simp add: free_locked_def Let_def MG_FREE_def MG_USED_def)

text \<open>C3: \<open>kfree\<close> of an allocated block keeps the heap well-formed, removes exactly that block from the
  allocated ones and reports nothing; freeing the same pointer once more reports a double free and
  changes nothing but the report.\<close>

theorem kfree_correct:
  assumes "heap_inv h" and "(p, s) \<in> hlive h" and "0 < s"
  shows "heap_inv (kfree p h) \<and> hlive (kfree p h) = {(q, t). (q, t) \<in> hlive h \<and> q \<noteq> p} \<and>
    reports (kfree p h) = reports h \<and>
    kfree p (kfree p h) = say_blk (Double_Free (p - hdr)) (kfree p h)"
proof -
  have p0: "p \<noteq> 0" using hlive_16 assms by blast
  obtain b where b: "p = b + hdr" "sub64 p hdr = b" using hlive_block [OF assms] by metis
  have "kfree p (kfree p h) = say_blk (Double_Free (p - hdr)) (kfree p h)"
    using free_locked_ok [OF assms] free_locked_again [of "free_locked p h" p] p0 b by (simp add: kfree_def)
  then show ?thesis using free_locked_ok [OF assms] p0 by (simp add: kfree_def)
qed

lemma kgrow_ok:
  assumes inv: "heap_inv h" and p: "(p, s) \<in> hlive h" "0 < s" and res: "kgrow p n h = (g, h')"
  shows "heap_inv h' \<and> (if g then \<exists>s'\<ge>max (align8 n) s. hlive h' = insert (p, s') {(q, t). (q, t) \<in> hlive h \<and> q \<noteq> p}
    else h' = h \<and> s < align8 n)"
proof -
  let ?w = "arena_of h p"
  have w: "in_use h ?w" using hlive_arena [OF inv p] by simp
  have p0: "p \<noteq> 0" using hlive_16 inv p by blast
  obtain us b vs where b: "arena_ok (hmem h) (get_arena ?w h) (us @ b # vs)" "p = b + hdr" "sub64 p hdr = b"
    "\<not> b_free (hmem h b)" "b_size (hmem h b) = s" using hlive_block [OF inv p] by metis
  obtain a' m' where r: "arena_grow (get_arena ?w h) (hmem h) b (align8 n) = (g, a', m')"
    and h': "h' = set_arena ?w a' (h\<lparr>hmem := m'\<rparr>)"
    using res p0 by (auto simp: kgrow_def Let_def b(3) split: prod.splits)
  have "align8 n < 2 ^ 64" using add64_lt [of n 15] unfolding align8_def by linarith
  note gr = arena_grow_ok [OF b(1,4) align8_dvd this r]
  then have ok: "arena_inv m' a'" and f: "framed (hmem h) (get_arena ?w h) m' a'" using arena_invI by blast+
  have other: "(p, t) \<notin> live (hmem h) (get_arena (\<not> ?w) h)" if "in_use h (\<not> ?w)" for t
    using live_one_arena [OF inv w _ that, of p s t] hlive_arena(2) [OF inv p] by blast
  show ?thesis
  proof (cases g)
    case True
    then obtain s' where s': "s' \<ge> max (align8 n) s"
      "live m' a' = {(q, t). if q = p then t = s' else (q, t) \<in> live (hmem h) (get_arena ?w h)}"
      using gr b by auto
    have "hlive h' = insert (p, s') {(q, t). (q, t) \<in> hlive h \<and> q \<noteq> p}"
      unfolding h' hlive_step [OF inv w ok f] hlive_split [OF w] s' using other by auto
    then show ?thesis using True s'(1) heap_step(1) [OF inv w ok f] unfolding h' by auto
  next
    case False
    then show ?thesis using gr b inv unfolding h' by simp
  qed
qed

text \<open>C23: \<open>kgrow\<close> of an allocated block either leaves the heap as it is and answers 0, because the block is
  smaller than the rounded request, or makes the block at least as large as the rounded request without
  moving it, keeps every other block and the heap well-formed.\<close>

theorem kgrow_correct:
  assumes "heap_inv h" and "(p, s) \<in> hlive h" and "0 < s"
  shows "\<exists>g h'. kgrow p n h = (g, h') \<and> heap_inv h' \<and>
    (if g then \<exists>s'\<ge>max (align8 n) s. hlive h' = insert (p, s') {(q, t). (q, t) \<in> hlive h \<and> q \<noteq> p}
     else h' = h \<and> s < align8 n)"
proof -
  obtain g h' where r: "kgrow p n h = (g, h')" by fastforce
  show ?thesis using kgrow_ok [OF assms r] r by blast
qed

lemma kmalloc_big_ok:
  assumes inv: "heap_inv h"
    and hook: "\<And>f k. reclaim = Some f \<Longrightarrow> heap_inv k \<Longrightarrow> heap_inv (f n k) \<and> hlive (f n k) \<subseteq> hlive k"
  shows "\<exists>p h'. kmalloc_big reclaim n h = Some (p, h') \<and> heap_inv h' \<and>
    (if p = 0 then hlive h' \<subseteq> hlive h
     else \<exists>s\<ge>align8 n. (p, s) \<in> hlive h' \<and> hlive h' \<subseteq> insert (p, s) (hlive h) \<and>
       (\<forall>(q, t)\<in>hlive h'. q = p \<or> p + s \<le> q \<or> q + t \<le> p))"
proof -
  define good where "good p h' \<longleftrightarrow> heap_inv h' \<and> (if p = 0 then hlive h' \<subseteq> hlive h
     else \<exists>s\<ge>align8 n. (p, s) \<in> hlive h' \<and> hlive h' \<subseteq> insert (p, s) (hlive h))" for p h'
  have alloc: "\<exists>p k'. alloc_in w n k = Some (p, k') \<and> good p k'"
    if "heap_inv k" "hlive k \<subseteq> hlive h" "in_use k w" for k w
  proof (cases rule: alloc_in_ok [OF that(1,3), of n])
    case 1
    then show ?thesis using that by (auto simp: good_def)
  next
    case (2 p k' s)
    then show ?thesis using that by (auto simp: good_def)
  qed
  have big: "\<exists>p k'. alloc_big n k = Some (p, k') \<and> good p k'" if "heap_inv k" "hlive k \<subseteq> hlive h" for k
  proof (cases "a_head (big k) = 0")
    case True
    then show ?thesis using that by (simp add: alloc_big_def arena_alloc_def good_def)
  next
    case False
    then show ?thesis using alloc [OF that, of True] by (simp add: in_use_def alloc_in_def)
  qed
  have low: "\<exists>p k'. alloc_low n k = Some (p, k') \<and> good p k'" if "good 0 k" for k
    using alloc [of k False] that by (simp add: in_use_def alloc_in_def good_def)
  obtain p1 h1 where s1: "alloc_big n h = Some (p1, h1)" "good p1 h1" using big [OF inv] by auto
  obtain p2 h2 where s2: "(case reclaim of
      Some f \<Rightarrow> if p1 = 0 \<and> a_head (big h1) \<noteq> 0 then alloc_big n (f n h1) else Some (p1, h1)
    | None \<Rightarrow> Some (p1, h1)) = Some (p2, h2)" "good p2 h2"
  proof (cases "\<exists>f. reclaim = Some f \<and> p1 = 0 \<and> a_head (big h1) \<noteq> 0")
    case True
    then obtain f where f: "reclaim = Some f" "p1 = 0" "a_head (big h1) \<noteq> 0" by blast
    then have "heap_inv (f n h1)" "hlive (f n h1) \<subseteq> hlive h"
      using hook [OF f(1), of h1] s1(2) by (auto simp: good_def)
    then show thesis using big that f by auto
  next
    case False
    then show thesis using that s1 by (cases reclaim) auto
  qed
  have "\<exists>p h'. kmalloc_big reclaim n h = Some (p, h') \<and> good p h'"
    using low s1(1) s2 by (auto simp: kmalloc_big_def)
  then obtain p h' where r: "kmalloc_big reclaim n h = Some (p, h')" "good p h'" by blast
  have dj: "\<forall>(q, t)\<in>hlive h'. q = p \<or> p + s \<le> q \<or> q + t \<le> p" if "(p, s) \<in> hlive h'" for s
    using hlive_disjoint [OF _ that] r(2) by (auto simp: good_def)
  have "p \<noteq> 0 \<Longrightarrow> \<exists>s\<ge>align8 n. (p, s) \<in> hlive h' \<and> hlive h' \<subseteq> insert (p, s) (hlive h) \<and>
      (\<forall>(q, t)\<in>hlive h'. q = p \<or> p + s \<le> q \<or> q + t \<le> p)"
    using r(2) dj unfolding good_def by (simp only: if_False) blast
  then show ?thesis using r unfolding good_def by (cases "p = 0") auto
qed

text \<open>C24: \<open>kmalloc_big\<close> returns whatever the reclaim hook does, as long as the hook keeps the heap
  well-formed and only gives blocks back. The heap stays well-formed, and a pointer other than NULL is a
  block of at least the rounded size, apart from every other allocated block.\<close>

theorem kmalloc_big_correct:
  assumes inv: "heap_inv h"
    and hook: "\<And>f k. reclaim = Some f \<Longrightarrow> heap_inv k \<Longrightarrow> heap_inv (f n k) \<and> hlive (f n k) \<subseteq> hlive k"
  shows "\<exists>p h'. kmalloc_big reclaim n h = Some (p, h') \<and> heap_inv h' \<and>
    (if p = 0 then hlive h' \<subseteq> hlive h
     else \<exists>s\<ge>align8 n. (p, s) \<in> hlive h' \<and> hlive h' \<subseteq> insert (p, s) (hlive h) \<and>
       (\<forall>(q, t)\<in>hlive h'. q = p \<or> p + s \<le> q \<or> q + t \<le> p))"
  using assms by (rule kmalloc_big_ok)

section \<open>The consistency check\<close>

lemma check_loop_step:
  assumes "b \<noteq> 0" "a_base a \<le> b" "b < add64 (a_base a) (a_size a)" "b_prev (hmem h b) = pv"
    and "b_mg (hmem h b) = (if b_free (hmem h b) then MG_FREE else MG_USED)"
    and "b_next (hmem h b) \<noteq> 0 \<longrightarrow> add64 (add64 b hdr) (b_size (hmem h b)) = b_next (hmem h b)"
    and "pv \<noteq> 0 \<longrightarrow> \<not> (b_free (hmem h pv) \<and> b_free (hmem h b))" and "nerr h \<le> 20"
  shows "check_loop a b pv used h = check_loop a (b_next (hmem h b)) b
    (if b_free (hmem h b) then used else add64 used (add64 (b_size (hmem h b)) hdr)) h"
  by (subst check_loop.simps, use assms in \<open>simp only: Let_def\<close>) (use assms in auto)

lemma check_loop_ok:
  assumes "chain_ok (hmem h) (a_base a) (a_base a + a_size a) (us @ vs)" and "merged (tags (hmem h) (us @ vs))"
    and "nerr h \<le> 20"
  shows "check_loop a (if vs = [] then 0 else hd vs) (if us = [] then 0 else last us) (charges (tags (hmem h) us)) h =
    Some (charges (tags (hmem h) (us @ vs)), h)"
  using assms(1,2)
proof (induction vs arbitrary: us)
  case Nil
  then show ?case by (subst check_loop.simps) simp
next
  case (Cons b vs)
  let ?m = "hmem h" and ?e = "a_base a + a_size a"
  note ch = Cons.prems(1)
  have bk: "b \<noteq> 0" "a_base a \<le> b" "b + hdr + b_size (?m b) \<le> ?e" "?e < 2 ^ 64" "okblk ?e (?m b) b"
    using chain_block [OF ch, of b] ch by (auto simp: chain_split)
  have links: "b_next (?m b) = (if vs = [] then 0 else hd vs)" "b_prev (?m b) = (if us = [] then 0 else last us)"
    by (rule chain_next [OF ch], rule chain_prev [OF ch])
  have sep: "us \<noteq> [] \<Longrightarrow> \<not> (b_free (?m (last us)) \<and> b_free (?m b))"
    using Cons.prems(2) by (cases us rule: rev_cases) (auto simp: merged_mid)
  have "charges (tags ?m (us @ [b])) \<le> charges (tags ?m (us @ b # vs))" by simp
  then have "charges (tags ?m (us @ [b])) < 2 ^ 64" using chain_charge [OF ch] bk(4) by linarith
  then have used: "(if b_free (?m b) then charges (tags ?m us) else
      add64 (charges (tags ?m us)) (add64 (b_size (?m b)) hdr)) = charges (tags ?m (us @ [b]))"
    by (auto split: if_splits)
  have IH: "check_loop a (if vs = [] then 0 else hd vs) b (charges (tags ?m (us @ [b]))) h =
      Some (charges (tags ?m (us @ b # vs)), h)"
    using Cons.IH [of "us @ [b]"] Cons.prems by simp
  have "check_loop a b (if us = [] then 0 else last us) (charges (tags ?m us)) h =
      check_loop a (b_next (?m b)) b (if b_free (?m b) then charges (tags ?m us) else
        add64 (charges (tags ?m us)) (add64 (b_size (?m b)) hdr)) h"
    by (rule check_loop_step) (use bk sep assms(3) links in \<open>auto simp: okblk_def split: if_splits\<close>)
  then show ?case unfolding used links IH by simp
qed

lemma check_arena_ok:
  assumes "arena_inv (hmem h) a" and "nerr h \<le> 20"
  shows "check_arena a h = Some h"
proof -
  note ok = arena_invD [OF assms(1)]
  let ?bs = "arena_blocks (hmem h) a"
  have "?bs \<noteq> []" "hd ?bs = a_head a"
    using chain_links(3) [OF arena_ok_chain [OF ok]] ok by (auto simp: arena_ok_def chain_ok_def)
  then have "check_loop a (a_head a) 0 0 h = Some (a_used a, h)"
    using check_loop_ok [of h a "[]" ?bs] ok assms(2) by (simp add: arena_ok_def)
  then show ?thesis by (simp add: check_arena_def)
qed

lemma heap_check_ok:
  assumes "heap_inv h" and "nerr h \<le> 20"
  shows "heap_check_locked h = Some (h\<lparr>nchk := nchk h + 1\<rparr>)"
proof -
  let ?h = "h\<lparr>nchk := nchk h + 1\<rparr>"
  have "check_arena (low h) ?h = Some ?h"
    using assms by (intro check_arena_ok) (simp_all add: heap_inv_def)
  moreover have "check_arena (big h) ?h = Some ?h"
  proof (cases "a_head (big h) = 0")
    case True
    then show ?thesis by (simp add: check_arena_def)
  next
    case False
    then show ?thesis using assms by (intro check_arena_ok) (simp_all add: heap_inv_def)
  qed
  ultimately show ?thesis by (simp add: heap_check_locked_def)
qed

lemma heap_view_cong:
  "hmem h' = hmem h \<Longrightarrow> low h' = low h \<Longrightarrow> big h' = big h \<Longrightarrow> hlive h' = hlive h \<and> heap_inv h' = heap_inv h"
  by (simp add: hlive_def heap_inv_def)

text \<open>C25: The self test of the heap, run while the kernel arena has a free block of 48 bytes, catches the
  double free it plants and leaves the same allocated blocks, the same error count and one line of report.\<close>

theorem heap_selftest_catches:
  assumes inv: "heap_inv h" and room: "\<exists>b\<in>set (arena_blocks (hmem h) (low h)). b_free (hmem h b) \<and> 48 \<le> b_size (hmem h b)"
  shows "\<exists>h'. heap_cmd ''selftest'' h = Some h' \<and> heap_inv h' \<and> hlive h' = hlive h \<and> nerr h' = nerr h \<and>
    reports h' = reports h @ [Selftest_Caught 1 1]"
proof -
  have a8: "align8 40 = 48" by (simp add: align8_def add64_def)
  have w: "in_use h False" by (simp add: in_use_def)
  obtain p k s where r: "alloc_in False 40 h = Some (p, k)" "p \<noteq> 0" "heap_inv k" "48 \<le> s"
    "hlive k = insert (p, s) (hlive h)" "p \<notin> fst ` hlive h"
    using room by (cases rule: alloc_in_ok [OF inv w, of 40]) (auto simp: a8 fits_def get_arena_def)
  then obtain a m where am: "arena_alloc (low h) (hmem h) 40 = Some (p, a, m)" "k = h\<lparr>hmem := m, low := a\<rparr>"
    by (auto simp: alloc_in_def alloc_low_def)
  have p: "(p, s) \<in> hlive k" "0 < s" using r by auto
  note f = free_locked_ok [OF r(3) p]
  let ?k = "free_locked p k"
  have kk: "free_locked p ?k = say_blk (Double_Free (sub64 p hdr)) ?k"
    using f free_locked_again [of ?k p] by simp
  have "nerr ?k = nerr h" using f am(2) by simp
  then have "heap_cmd ''selftest'' h = Some (?k\<lparr>nerr := nerr h, reports := reports h @ [Selftest_Caught 1 1]\<rparr>)"
    unfolding heap_cmd_def heap_selftest_def am(1) using kk am(2) by (simp add: say_blk_def)
  moreover have "hlive ?k = hlive h" using f r(5,6) by (auto simp: image_iff)
  ultimately show ?thesis
    using f heap_view_cong [of "?k\<lparr>nerr := nerr h, reports := reports h @ [Selftest_Caught 1 1]\<rparr>" ?k] by simp
qed

text \<open>The command \<open>check\<close> on a well-formed heap ends and answers that the check is ok.\<close>

lemma heap_cmd_check_ok:
  assumes "heap_inv h"
  shows "heap_cmd ''check'' h = Some (h\<lparr>reports := [Check_Ok], nerr := 0, nchk := nchk h + 1\<rparr>)"
proof -
  have "heap_inv (h\<lparr>reports := [], nerr := 0\<rparr>)" using assms by (simp add: heap_inv_def)
  then have "heap_check_locked (h\<lparr>reports := [], nerr := 0\<rparr>) = Some (h\<lparr>reports := [], nerr := 0, nchk := nchk h + 1\<rparr>)"
    using heap_check_ok [of "h\<lparr>reports := [], nerr := 0\<rparr>"] by simp
  then show ?thesis by (simp add: heap_cmd_def)
qed

section \<open>Any sequence of operations\<close>

text \<open>The operations a client has. A client frees and grows only what it holds, and asks for a size that
  rounding up does not wrap; anything else is skipped here.\<close>

datatype heap_op = Op_Malloc nat | Op_Malloc_Big nat | Op_Free nat | Op_Grow nat nat | Op_Check

definition held :: "heap \<Rightarrow> nat \<Rightarrow> bool" where
  "held h p \<longleftrightarrow> p \<in> fst ` hlive h"

fun heap_do :: "heap_op \<Rightarrow> heap \<Rightarrow> heap" where
  "heap_do (Op_Malloc n) h = (if n \<le> 2 ^ 64 - 16 then (case kmalloc n h of Some (_, h') \<Rightarrow> h' | None \<Rightarrow> h) else h)"
| "heap_do (Op_Malloc_Big n) h =
     (if n \<le> 2 ^ 64 - 16 then (case kmalloc_big None n h of Some (_, h') \<Rightarrow> h' | None \<Rightarrow> h) else h)"
| "heap_do (Op_Free p) h = (if held h p then kfree p h else h)"
| "heap_do (Op_Grow p n) h = (if held h p then snd (kgrow p n h) else h)"
| "heap_do Op_Check h = (case heap_check_locked h of Some h' \<Rightarrow> h' | None \<Rightarrow> h)"

text \<open>The invariant of such a history: no block of size 0 and nothing reported.\<close>

definition heap_good :: "heap \<Rightarrow> bool" where
  "heap_good h \<longleftrightarrow> heap_inv h \<and> (\<forall>(p, s)\<in>hlive h. 0 < s) \<and> nerr h = 0 \<and> reports h = []"

definition heap_booted :: "heap \<Rightarrow> bool" where
  "heap_booted h \<longleftrightarrow> (\<exists>h0 base sz. arena_args base sz \<and> a_head (big h0) = 0 \<and> nerr h0 = 0 \<and> reports h0 = [] \<and>
     (h = heap_init base sz h0 \<or> (\<exists>base' sz'. arena_args base' sz' \<and> (base + sz \<le> base' \<or> base' + sz' \<le> base) \<and>
        h = heap_add_big base' sz' (heap_init base sz h0))))"

lemma hlive_nchk [simp]: "hlive (h\<lparr>nchk := k\<rparr>) = hlive h" "heap_inv (h\<lparr>nchk := k\<rparr>) = heap_inv h"
  by (simp_all add: hlive_def heap_inv_def)

lemma heap_booted_good: "heap_booted h \<Longrightarrow> heap_good h"
proof -
  have r: "reports (heap_init b s h) = reports h" "nerr (heap_init b s h) = nerr h"
    "reports (heap_add_big b s h) = reports h" "nerr (heap_add_big b s h) = nerr h" for b s h
    by (simp_all add: heap_init_def heap_add_big_def arena_init_def)
  assume "heap_booted h"
  then obtain h0 base sz where i: "arena_args base sz" "a_head (big h0) = 0" "nerr h0 = 0" "reports h0 = []"
    and h: "h = heap_init base sz h0 \<or> (\<exists>base' sz'. arena_args base' sz' \<and> (base + sz \<le> base' \<or> base' + sz' \<le> base) \<and>
        h = heap_add_big base' sz' (heap_init base sz h0))"
    unfolding heap_booted_def by blast
  note init = heap_init_ok [OF i(1,2)]
  show ?thesis
  proof (cases "h = heap_init base sz h0")
    case True
    then show ?thesis using init i by (simp add: heap_good_def r)
  next
    case False
    then obtain base' sz' where "arena_args base' sz'" "base + sz \<le> base' \<or> base' + sz' \<le> base"
      and "h = heap_add_big base' sz' (heap_init base sz h0)" using h by blast
    then show ?thesis using init i heap_add_big_ok [of "heap_init base sz h0" base' sz']
      by (auto simp: heap_good_def r)
  qed
qed

lemma alloc_reports:
  "alloc_low n h = Some (p, h') \<Longrightarrow> reports h' = reports h \<and> nerr h' = nerr h"
  "alloc_big n h = Some (p, h') \<Longrightarrow> reports h' = reports h \<and> nerr h' = nerr h"
  by (auto simp: alloc_low_def alloc_big_def)

lemma kmalloc_big_reports:
  "kmalloc_big None n h = Some (p, h') \<Longrightarrow> reports h' = reports h \<and> nerr h' = nerr h"
  by (auto simp: kmalloc_big_def bind_eq_Some_conv split: if_splits dest!: alloc_reports)

lemma align8_pos: "0 < n \<Longrightarrow> n \<le> 2 ^ 64 - 16 \<Longrightarrow> 0 < align8 n"
  using align8_ge [of n] by linarith

lemma malloc_0: "kmalloc 0 h = Some (0, h)" "kmalloc_big None 0 h = Some (0, h)"
  by (simp_all add: kmalloc_def kmalloc_big_def alloc_low_def alloc_big_def arena_alloc_def)

lemma malloc_good:
  assumes "heap_good h" and "n \<le> 2 ^ 64 - 16" and "kmalloc n h = Some (p, h')"
  shows "heap_good h'"
proof -
  have inv: "heap_inv h" using assms(1) by (simp add: heap_good_def)
  have r: "reports h' = reports h \<and> nerr h' = nerr h" using assms(3) alloc_reports by (simp add: kmalloc_def)
  show ?thesis
  proof (cases "p = 0")
    case True
    then show ?thesis using kmalloc_ok [OF inv, of n] assms(1,3) by simp
  next
    case False
    then obtain s where "n \<le> s" "hlive h' = insert (p, s) (hlive h)" "heap_inv h'"
      using kmalloc_ok [OF inv, of n] assms(2,3) by auto
    moreover have "n \<noteq> 0" using assms(3) False by (intro notI) (simp add: malloc_0)
    ultimately show ?thesis using assms(1) r by (auto simp: heap_good_def)
  qed
qed

lemma malloc_big_good:
  assumes "heap_good h" and "n \<le> 2 ^ 64 - 16" and "kmalloc_big None n h = Some (p, h')"
  shows "heap_good h'"
proof -
  have inv: "heap_inv h" using assms(1) by (simp add: heap_good_def)
  note r = kmalloc_big_reports [OF assms(3)]
  have "\<exists>p' k. kmalloc_big None n h = Some (p', k) \<and> heap_inv k \<and> (if p' = 0 then hlive k \<subseteq> hlive h
     else \<exists>s\<ge>align8 n. (p', s) \<in> hlive k \<and> hlive k \<subseteq> insert (p', s) (hlive h) \<and>
       (\<forall>(q, t)\<in>hlive k. q = p' \<or> p' + s \<le> q \<or> q + t \<le> p'))"
    by (rule kmalloc_big_ok [OF inv]) simp
  then have k: "heap_inv h'" "if p = 0 then hlive h' \<subseteq> hlive h else \<exists>s\<ge>align8 n. hlive h' \<subseteq> insert (p, s) (hlive h)"
    using assms(3) by (auto split: if_splits)
  show ?thesis
  proof (cases "p = 0")
    case True
    then show ?thesis using k r assms(1) by (auto simp: heap_good_def)
  next
    case False
    moreover have "n \<noteq> 0" using assms(3) False by (intro notI) (simp add: malloc_0)
    then have "0 < align8 n" using align8_pos assms(2) by simp
    ultimately show ?thesis using k r assms(1) by (fastforce simp: heap_good_def)
  qed
qed

lemma heap_do_good: "heap_good h \<Longrightarrow> heap_good (heap_do x h)"
proof (cases x)
  case (Op_Free p)
  assume g: "heap_good h"
  show ?thesis
  proof (cases "held h p")
    case True
    then obtain s where s: "(p, s) \<in> hlive h" "0 < s" "heap_inv h" using g by (auto simp: held_def heap_good_def)
    then have "p \<noteq> 0" using hlive_16 by blast
    then show ?thesis using Op_Free True free_locked_ok [OF s(3,1,2)] g by (auto simp: kfree_def heap_good_def)
  qed (use g Op_Free in simp)
next
  case (Op_Grow p n)
  assume g: "heap_good h"
  show ?thesis
  proof (cases "held h p")
    case True
    then obtain s where s: "(p, s) \<in> hlive h" "0 < s" "heap_inv h" using g by (auto simp: held_def heap_good_def)
    obtain w k where r: "kgrow p n h = (w, k)" by fastforce
    then have "reports k = reports h" "nerr k = nerr h"
      by (auto simp: kgrow_def Let_def set_arena_def split: if_splits prod.splits)
    then show ?thesis using Op_Grow True kgrow_ok [OF s(3,1,2) r] g r s(2) by (auto simp: heap_good_def split: if_splits)
  qed (use g Op_Grow in simp)
next
  case Op_Check
  assume g: "heap_good h"
  then show ?thesis using Op_Check heap_check_ok [of h] by (simp add: heap_good_def)
next
  case (Op_Malloc n)
  assume g: "heap_good h"
  obtain p h' where "kmalloc n h = Some (p, h')" using kmalloc_ok g by (metis heap_good_def)
  then show ?thesis using malloc_good [OF g] g Op_Malloc by simp
next
  case (Op_Malloc_Big n)
  assume g: "heap_good h"
  then show ?thesis using malloc_big_good [OF g, of n] Op_Malloc_Big by (auto split: option.splits)
qed

interpretation heap_run: kernel_component heap_booted heap_do heap_good
  by unfold_locales (auto intro: heap_booted_good heap_do_good)

text \<open>C17: Whatever sequence of allocations, frees of held blocks, growths of held blocks and checks follows
  the initialisation, the kernel's own consistency check ends, finds nothing to report, and nothing was
  reported before; allocated blocks never overlap.\<close>

theorem heap_history_clean:
  assumes "heap_booted h"
  shows "let h' = fold heap_do ops h in
    heap_check_locked h' = Some (h'\<lparr>nchk := nchk h' + 1\<rparr>) \<and> reports h' = [] \<and>
    (\<forall>(p, s)\<in>hlive h'. \<forall>(q, t)\<in>hlive h'. p = q \<or> p + s \<le> q \<or> q + t \<le> p)"
proof -
  have g: "heap_good (fold heap_do ops h)" by (rule heap_run.run_inv [OF assms])
  then show ?thesis
    using heap_check_ok hlive_disjoint by (auto simp: Let_def heap_good_def) blast+
qed

text \<open>C26: Rounding the request up to 16 wraps for the fifteen largest requests: \<open>kmalloc\<close> then returns a
  block that is smaller than what was asked for, instead of NULL, as soon as any block is free.\<close>

theorem kmalloc_wraps:
  assumes inv: "heap_inv h" and n: "2 ^ 64 - 16 < n" "n < 2 ^ 64"
    and free: "\<exists>b\<in>set (arena_blocks (hmem h) (low h)). b_free (hmem h b)"
  shows "\<exists>p h' s. kmalloc n h = Some (p, h') \<and> p \<noteq> 0 \<and> (p, s) \<in> hlive h' \<and> s < n"
proof -
  have "(n + 15) mod 2 ^ 64 = n + 15 - 2 ^ 64" using n by (subst le_mod_geq) auto
  then have a: "align8 n = 0" using n by (simp add: align8_def add64_def)
  obtain p h' where r: "kmalloc n h = Some (p, h')" "heap_inv h'" and
    c: "if p = 0 then h' = h \<and> (n = 0 \<or> (\<forall>b\<in>set (arena_blocks (hmem h) (low h)).
          b_free (hmem h b) \<longrightarrow> b_size (hmem h b) < align8 n))
     else \<exists>s\<ge>align8 n. (n \<le> 2 ^ 64 - 16 \<longrightarrow> n \<le> s) \<and> 16 dvd p \<and> hlive h' = insert (p, s) (hlive h) \<and>
        (\<forall>(q, t)\<in>hlive h. p + s \<le> q \<or> q + t \<le> p)"
    using kmalloc_ok [OF inv, of n] by blast
  have p: "p \<noteq> 0" using c n free unfolding a by (intro notI) simp
  then obtain s where s: "(p, s) \<in> hlive h'" using c by auto
  then obtain w where w: "in_use h' w" "(p, s) \<in> live (hmem h') (get_arena w h')" by (auto simp: hlive_get)
  then have i: "arena_inv (hmem h') (get_arena w h')" using r(2) by (simp add: heap_inv_get)
  have "s < n" using live_bounds [OF i w(2)] arena_head [OF i] n by simp
  then show ?thesis using r p s by blast
qed

section \<open>Examples\<close>

text \<open>A heap of 64 kB at 4096, as booted and with one block of 100 bytes.\<close>

definition blank :: heap where
  "blank = \<lparr>hmem = (\<lambda>_. \<lparr>b_size = 0, b_next = 0, b_prev = 0, b_free = False, b_mg = 0\<rparr>),
     low = \<lparr>a_base = 0, a_size = 0, a_head = 0, a_rover = 0, a_used = 0\<rparr>,
     big = \<lparr>a_base = 0, a_size = 0, a_head = 0, a_rover = 0, a_used = 0\<rparr>,
     reports = [], nerr = 0, nchk = 0\<rparr>"

definition demo0 :: heap where
  "demo0 = heap_init 4096 65536 blank"

definition demo1 :: heap where
  "demo1 = snd (the (kmalloc 100 demo0))"

lemma demo0_ok: "heap_inv demo0" "hlive demo0 = {}" "heap_booted demo0"
  "arena_blocks (hmem demo0) (low demo0) = [4096]" "b_free (hmem demo0 4096)"
proof -
  have a: "arena_args 4096 65536" and b: "a_head (big blank) = 0" by (auto simp: arena_args_def blank_def)
  show "heap_inv demo0" "hlive demo0 = {}" using heap_init_ok [OF a b] by (simp_all add: demo0_def)
  show "heap_booted demo0" unfolding heap_booted_def
    by (intro exI [of _ blank] exI [of _ 4096] exI [of _ 65536]) (use a in \<open>auto simp: demo0_def blank_def\<close>)
  obtain m a' where i: "arena_init (hmem blank) 4096 65536 = (m, a')" by fastforce
  show "arena_blocks (hmem demo0) (low demo0) = [4096]" "b_free (hmem demo0 4096)"
    using arena_init_ok(6,7) [OF a i] i by (simp_all add: demo0_def heap_init_def)
qed

lemma demo1_ok: "kmalloc 100 demo0 = Some (4128, demo1)" "heap_inv demo1"
  "\<exists>s\<ge>112. hlive demo1 = {(4128, s)}"
proof -
  have a8: "align8 100 = 112" by (simp add: align8_def add64_def)
  have "\<exists>k. kmalloc 100 demo0 = Some (4128, k)"
    by (simp add: kmalloc_def alloc_low_def demo0_def heap_init_def arena_init_def arena_alloc_def a8
        search.simps [of _ 4096 4096 112 4096] Let_def take_block_def add64_def sub64_def)
  then show k: "kmalloc 100 demo0 = Some (4128, demo1)" by (auto simp: demo1_def)
  show "heap_inv demo1" "\<exists>s\<ge>112. hlive demo1 = {(4128, s)}"
    using kmalloc_ok [OF demo0_ok(1), of 100] k demo0_ok(2) by (auto simp: a8)
qed

lemma kmalloc_correct_witness:
  "heap_inv demo0 \<and> (\<exists>p h'. kmalloc 100 demo0 = Some (p, h') \<and> heap_inv h' \<and> p = 4128 \<and> (\<exists>s\<ge>100. (p, s) \<in> hlive h'))"
  using kmalloc_correct [OF demo0_ok(1), of 100] demo0_ok(1) demo1_ok(1) by auto

lemma kfree_correct_witness:
  "heap_inv demo1 \<and> (\<exists>s>0. (4128, s) \<in> hlive demo1) \<and> hlive (kfree 4128 demo1) = {} \<and>
   reports (kfree 4128 (kfree 4128 demo1)) = [Double_Free 4096]"
proof -
  obtain s where s: "112 \<le> s" "hlive demo1 = {(4128, s)}" using demo1_ok(3) by blast
  then have k: "(4128, s) \<in> hlive demo1" "0 < s" by auto
  have "reports demo1 = []"
    using alloc_reports(1) demo1_ok(1) by (fastforce simp: kmalloc_def demo0_def blank_def heap_init_def arena_init_def)
  then show ?thesis
    using kfree_correct [OF demo1_ok(2) k] demo1_ok(2) k s(2) by (auto simp: say_blk_def)
qed

lemma kgrow_correct_witness:
  "heap_inv demo1 \<and> (\<exists>s>0. (4128, s) \<in> hlive demo1) \<and> heap_inv (snd (kgrow 4128 4000 demo1))"
proof -
  obtain s where s: "112 \<le> s" "hlive demo1 = {(4128, s)}" using demo1_ok(3) by blast
  then have k: "(4128, s) \<in> hlive demo1" "0 < s" by auto
  show ?thesis using kgrow_correct [OF demo1_ok(2) k, of 4000] demo1_ok(2) k by auto
qed

lemma kmalloc_big_correct_witness:
  "heap_inv demo0 \<and> (\<exists>p h'. kmalloc_big (Some (\<lambda>n h. h)) 100 demo0 = Some (p, h') \<and> heap_inv h')"
  using kmalloc_big_correct [OF demo0_ok(1), of "Some (\<lambda>n h. h)" 100] demo0_ok(1) by auto

lemma heap_history_clean_witness:
  "heap_booted demo0 \<and>
   (let h' = fold heap_do [Op_Malloc 100, Op_Malloc_Big 5000, Op_Free 4128] demo0 in
      heap_check_locked h' = Some (h'\<lparr>nchk := nchk h' + 1\<rparr>) \<and> reports h' = [])"
  using heap_history_clean [OF demo0_ok(3), of "[Op_Malloc 100, Op_Malloc_Big 5000, Op_Free 4128]"] demo0_ok(3)
  unfolding Let_def by blast

lemma kmalloc_wraps_witness:
  "heap_inv demo0 \<and> (\<exists>p h' s. kmalloc (2 ^ 64 - 1) demo0 = Some (p, h') \<and> p \<noteq> 0 \<and> (p, s) \<in> hlive h' \<and> s < 2 ^ 64 - 1)"
  using kmalloc_wraps [OF demo0_ok(1), of "2 ^ 64 - 1"] demo0_ok by simp

lemma heap_selftest_catches_witness:
  "heap_inv demo0 \<and> (\<exists>b\<in>set (arena_blocks (hmem demo0) (low demo0)). b_free (hmem demo0 b) \<and> 48 \<le> b_size (hmem demo0 b)) \<and>
   (\<exists>h'. heap_cmd ''selftest'' demo0 = Some h' \<and> hlive h' = {})"
proof -
  have room: "\<exists>b\<in>set (arena_blocks (hmem demo0) (low demo0)). b_free (hmem demo0 b) \<and> 48 \<le> b_size (hmem demo0 b)"
    using demo0_ok(4,5) by (simp add: demo0_def heap_init_def arena_init_def sub64_def)
  then show ?thesis using heap_selftest_catches [OF demo0_ok(1) room] demo0_ok(1,2) by auto
qed

end
