(* ===== verification/KString.thy ===== *)
theory KString
  imports Kernel_Prelude
begin

text \<open>
  \<open>src/src/core/string.c\<close>. The block operations work on a byte memory, address to byte, so that
  overlapping ranges are visible; \<open>rep movsq\<close>, \<open>rep movsb\<close> and \<open>rep stosq\<close> are the loops they are. The
  functions on C strings take the characters before the terminator as a list; reading a string at its
  end gives the terminator.
\<close>

section \<open>Blocks of memory\<close>

type_synonym bytes = "nat \<Rightarrow> u8"

text \<open>One \<open>movsq\<close> reads eight bytes before it writes them.\<close>

definition mov8 :: "bytes \<Rightarrow> nat \<Rightarrow> nat \<Rightarrow> bytes" where
  "mov8 m d s = (\<lambda>a. if d \<le> a \<and> a < d + 8 then m (s + (a - d)) else m a)"

fun movsq :: "nat \<Rightarrow> bytes \<Rightarrow> nat \<Rightarrow> nat \<Rightarrow> bytes" where
  "movsq 0 m d s = m"
| "movsq (Suc k) m d s = movsq k (mov8 m d s) (d + 8) (s + 8)"

fun movsb :: "nat \<Rightarrow> bytes \<Rightarrow> nat \<Rightarrow> nat \<Rightarrow> bytes" where
  "movsb 0 m d s = m"
| "movsb (Suc k) m d s = movsb k (m(d := m s)) (d + 1) (s + 1)"

text \<open>With the direction flag set the addresses go down.\<close>

fun movsb_down :: "nat \<Rightarrow> bytes \<Rightarrow> nat \<Rightarrow> nat \<Rightarrow> bytes" where
  "movsb_down 0 m d s = m"
| "movsb_down (Suc k) m d s = movsb_down k (m(d := m s)) (d - 1) (s - 1)"

definition sto8 :: "bytes \<Rightarrow> nat \<Rightarrow> u64 \<Rightarrow> bytes" where
  "sto8 m d w = (\<lambda>a. if d \<le> a \<and> a < d + 8 then ucast (drop_bit (8 * (a - d)) w) else m a)"

fun stosq :: "nat \<Rightarrow> bytes \<Rightarrow> nat \<Rightarrow> u64 \<Rightarrow> bytes" where
  "stosq 0 m d w = m"
| "stosq (Suc k) m d w = stosq k (sto8 m d w) (d + 8) w"

fun stosb :: "nat \<Rightarrow> bytes \<Rightarrow> nat \<Rightarrow> u64 \<Rightarrow> bytes" where
  "stosb 0 m d w = m"
| "stosb (Suc k) m d w = stosb k (m(d := ucast w)) (d + 1) w"

definition memset :: "bytes \<Rightarrow> nat \<Rightarrow> u32 \<Rightarrow> nat \<Rightarrow> bytes" where
  "memset m dst v n =
     (let b = ucast (ucast v :: u8) :: u64; pat = b * 0x0101010101010101;
          words = n div 8; tail = n mod 8
      in stosb tail (stosq words m dst pat) (dst + 8 * words) pat)"

definition memcpy :: "bytes \<Rightarrow> nat \<Rightarrow> nat \<Rightarrow> nat \<Rightarrow> bytes" where
  "memcpy m dst src n =
     (let words = n div 8; tail = n mod 8
      in movsb tail (movsq words m dst src) (dst + 8 * words) (src + 8 * words))"

definition memmove :: "bytes \<Rightarrow> nat \<Rightarrow> nat \<Rightarrow> nat \<Rightarrow> bytes" where
  "memmove m d s n =
     (if d = s \<or> n = 0 then m
      else if d < s \<or> s + n \<le> d then memcpy m d s n
      else movsb_down n m (d + n - 1) (s + n - 1))"

text \<open>\<open>memcmp\<close> reads two blocks; they are lists of \<open>n\<close> bytes each. The first loop skips equal words, the
  second compares bytes.\<close>

fun skip_words :: "u8 list \<Rightarrow> u8 list \<Rightarrow> u8 list \<times> u8 list" where
  "skip_words x y =
     (if 8 \<le> length x \<and> take 8 x = take 8 y then skip_words (drop 8 x) (drop 8 y) else (x, y))"

fun cmp_bytes :: "u8 list \<Rightarrow> u8 list \<Rightarrow> int" where
  "cmp_bytes (a # x) (b # y) = (if a \<noteq> b then uint a - uint b else cmp_bytes x y)"
| "cmp_bytes _ _ = 0"

definition memcmp :: "u8 list \<Rightarrow> u8 list \<Rightarrow> int" where
  "memcmp x y = (case skip_words x y of (x', y') \<Rightarrow> cmp_bytes x' y')"

text \<open>\<open>strcpy\<close> and \<open>strcat\<close> write to memory; \<open>None\<close> is a copy that never meets a terminator.\<close>

partial_function (option) strcpy :: "bytes \<Rightarrow> nat \<Rightarrow> nat \<Rightarrow> bytes option" where
  "strcpy m d s = (let m1 = m(d := m s) in if m s \<noteq> 0 then strcpy m1 (d + 1) (s + 1) else Some m1)"

partial_function (option) str_end :: "bytes \<Rightarrow> nat \<Rightarrow> nat option" where
  "str_end m p = (if m p \<noteq> 0 then str_end m (p + 1) else Some p)"

definition strcat :: "bytes \<Rightarrow> nat \<Rightarrow> nat \<Rightarrow> bytes option" where
  "strcat m dst src = Option.bind (str_end m dst) (\<lambda>d. strcpy m d src)"

section \<open>C strings\<close>

abbreviation NUL :: char where "NUL \<equiv> CHR 0x00"

definition at0 :: "string \<Rightarrow> char" where
  "at0 s = (case s of [] \<Rightarrow> NUL | c # _ \<Rightarrow> c)"

definition byte :: "char \<Rightarrow> int" where
  "byte c = int (of_char c)"

fun strlen :: "string \<Rightarrow> nat" where
  "strlen [] = 0"
| "strlen (c # s) = (if c \<noteq> NUL then Suc (strlen s) else 0)"

fun strcmp :: "string \<Rightarrow> string \<Rightarrow> int" where
  "strcmp (a # x) (b # y) = (if a \<noteq> NUL \<and> a = b then strcmp x y else byte a - byte b)"
| "strcmp x y = byte (at0 x) - byte (at0 y)"

fun strncmp :: "nat \<Rightarrow> string \<Rightarrow> string \<Rightarrow> int" where
  "strncmp 0 x y = 0"
| "strncmp (Suc n) (a # x) (b # y) = (if a \<noteq> NUL \<and> a = b then strncmp n x y else byte a - byte b)"
| "strncmp (Suc n) x y = byte (at0 x) - byte (at0 y)"

text \<open>The \<open>n\<close> characters that \<open>strncpy\<close> writes.\<close>

fun strncpy :: "nat \<Rightarrow> string \<Rightarrow> string" where
  "strncpy 0 s = []"
| "strncpy (Suc n) (c # s) = (if c \<noteq> NUL then c # strncpy n s else replicate (Suc n) NUL)"
| "strncpy (Suc n) [] = replicate (Suc n) NUL"

text \<open>\<open>strchr\<close> and \<open>strstr\<close> answer how far into the string the pointer goes. \<open>c\<close> is an \<open>int\<close> that the loop
  narrows to a character and the test after it does not.\<close>

fun strchr :: "string \<Rightarrow> nat \<Rightarrow> nat option" where
  "strchr [] c = (if c = 0 then Some 0 else None)"
| "strchr (x # s) c =
     (if x \<noteq> NUL then (if x = char_of c then Some 0 else map_option Suc (strchr s c))
      else if c = 0 then Some 0 else None)"

fun begins :: "string \<Rightarrow> string \<Rightarrow> bool" where
  "begins [] h = True"
| "begins (c # n) [] = (c = NUL)"
| "begins (c # n) (d # h) = (if c \<noteq> NUL \<and> d \<noteq> NUL \<and> c = d then begins n h else c = NUL)"

fun strstr_loop :: "string \<Rightarrow> string \<Rightarrow> nat option" where
  "strstr_loop [] n = None"
| "strstr_loop (c # h) n =
     (if c = NUL then None else if begins n (c # h) then Some 0 else map_option Suc (strstr_loop h n))"

definition strstr :: "string \<Rightarrow> string \<Rightarrow> nat option" where
  "strstr h n = (if at0 n = NUL then Some 0 else strstr_loop h n)"

section \<open>Numbers\<close>

text \<open>A value of the C type \<open>int\<close>, the arithmetic taken modulo \<open>2 ^ 32\<close>.\<close>

definition s32 :: "int \<Rightarrow> int" where
  "s32 x = (x + 2 ^ 31) mod 2 ^ 32 - 2 ^ 31"

definition is_digit :: "char \<Rightarrow> bool" where
  "is_digit c \<longleftrightarrow> byte (CHR ''0'') \<le> byte c \<and> byte c \<le> byte (CHR ''9'')"

fun atoi_loop :: "int \<Rightarrow> string \<Rightarrow> int" where
  "atoi_loop v [] = v"
| "atoi_loop v (c # s) = (if is_digit c then atoi_loop (s32 (v * 10 + (byte c - byte (CHR ''0'')))) s else v)"

definition atoi :: "string \<Rightarrow> int" where
  "atoi s0 =
     (let s = dropWhile (\<lambda>c. c = CHR '' '' \<or> c = CHR 0x09) s0;
          (sign, s') = (if at0 s = CHR ''-'' then (-1, tl s) else if at0 s = CHR ''+'' then (1, tl s) else (1, s))
      in s32 (sign * atoi_loop 0 s'))"

function reverse_loop :: "string \<Rightarrow> int \<Rightarrow> int \<Rightarrow> string" where
  "reverse_loop s i j =
     (if i < j then reverse_loop (s[nat i := s ! nat j, nat j := s ! nat i]) (i + 1) (j - 1) else s)"
  by pat_completeness auto
termination by (relation "measure (\<lambda>(s, i, j). nat (j - i))") auto

definition reverse :: "string \<Rightarrow> string" where
  "reverse s = reverse_loop s 0 (int (length s) - 1)"

text \<open>The digits come out lowest first. A base of 0 is a division by zero, a base of 1 a loop that does not
  end and a base above 16 reads past the table: \<open>None\<close>.\<close>

fun utoa_digits :: "nat \<Rightarrow> nat \<Rightarrow> string" where
  "utoa_digits base v =
     (if v = 0 \<or> base < 2 then [] else ''0123456789abcdef'' ! (v mod base) # utoa_digits base (v div base))"

definition utoa :: "nat \<Rightarrow> nat \<Rightarrow> string option" where
  "utoa v base =
     (if v = 0 then Some ''0''
      else if base < 2 \<or> 16 < base then None
      else Some (reverse (utoa_digits base v)))"

definition itoa :: "int \<Rightarrow> nat \<Rightarrow> string option" where
  "itoa v base =
     (if v < 0 \<and> base = 10
      then map_option (Cons (CHR ''-'')) (utoa (nat (s32 (- v) mod 2 ^ 32)) base)
      else utoa (nat (v mod 2 ^ 32)) base)"

declare skip_words.simps [simp del] utoa_digits.simps [simp del] reverse_loop.simps [simp del]

end
