(* ===== verification/KString_Correct.thy ===== *)
theory KString_Correct
  imports KString
begin

text \<open>
  The functions of \<open>src/src/core/string.c\<close> do what their names promise: overlapping moves, fills by words,
  comparisons by words, the string searches, and number conversion with its round trip.
\<close>

section \<open>Blocks of memory\<close>

text \<open>The memory after \<open>n\<close> bytes at \<open>s\<close> are placed at \<open>d\<close>.\<close>

definition moved :: "bytes \<Rightarrow> nat \<Rightarrow> nat \<Rightarrow> nat \<Rightarrow> bytes" where
  "moved m d s n = (\<lambda>a. if d \<le> a \<and> a < d + n then m (s + (a - d)) else m a)"

lemma moved_0 [simp]: "moved m d s 0 = m"
  by (rule ext) (auto simp: moved_def)

lemma movsb_moved: "d \<le> s \<or> s + k \<le> d \<Longrightarrow> movsb k m d s = moved m d s k"
proof (induction k arbitrary: m d s)
  case (Suc k)
  have "movsb k (m(d := m s)) (d + 1) (s + 1) = moved (m(d := m s)) (d + 1) (s + 1) k"
    by (rule Suc.IH) (use Suc.prems in linarith)
  also have "\<dots> = moved m d s (Suc k)"
    by (rule ext) (use Suc.prems in \<open>auto simp: moved_def Suc_diff_Suc\<close>)
  finally show ?case by (simp only: movsb.simps)
qed simp

lemma movsq_moved: "d \<le> s \<or> s + 8 * k \<le> d \<Longrightarrow> movsq k m d s = moved m d s (8 * k)"
proof (induction k arbitrary: m d s)
  case (Suc k)
  have "movsq k (mov8 m d s) (d + 8) (s + 8) = moved (mov8 m d s) (d + 8) (s + 8) (8 * k)"
    by (rule Suc.IH) (use Suc.prems in auto)
  also have "\<dots> = moved m d s (8 * Suc k)"
    by (rule ext) (use Suc.prems in \<open>auto simp: moved_def mov8_def\<close>)
  finally show ?case by (simp only: movsq.simps)
qed simp

lemma moved_moved:
  "d \<le> s \<or> s + (j + k) \<le> d \<Longrightarrow> moved (moved m d s j) (d + j) (s + j) k = moved m d s (j + k)"
  by (auto simp: moved_def fun_eq_iff)

lemma memcpy_moved: "d \<le> s \<or> s + n \<le> d \<Longrightarrow> memcpy m d s n = moved m d s n"
proof -
  assume a: "d \<le> s \<or> s + n \<le> d"
  have n: "8 * (n div 8) + n mod 8 = n" by simp
  have "memcpy m d s n = moved (moved m d s (8 * (n div 8))) (d + 8 * (n div 8)) (s + 8 * (n div 8)) (n mod 8)"
    using a unfolding memcpy_def Let_def by (subst movsb_moved, linarith, subst movsq_moved) (linarith, simp)
  also have "\<dots> = moved m d s n" using moved_moved [of d s "8 * (n div 8)" "n mod 8" m] a n by simp
  finally show ?thesis .
qed

lemma movsb_down_moved:
  "s \<le> d \<Longrightarrow> movsb_down n m (d + n - 1) (s + n - 1) = moved m d s n"
proof (induction n arbitrary: m)
  case (Suc n)
  have "movsb_down n (m(d + n := m (s + n))) (d + n - 1) (s + n - 1) = moved (m(d + n := m (s + n))) d s n"
    by (rule Suc.IH) (rule Suc.prems)
  also have "\<dots> = moved m d s (Suc n)"
    by (rule ext) (use Suc.prems in \<open>auto simp: moved_def\<close>)
  finally show ?case by simp
qed simp

text \<open>C31: \<open>memmove\<close> copies the \<open>n\<close> source bytes as they were before the call, and changes nothing else,
  however the two ranges overlap.\<close>

theorem memmove_correct:
  "memmove m d s n = (\<lambda>a. if d \<le> a \<and> a < d + n then m (s + (a - d)) else m a)"
proof -
  have "memmove m d s n = moved m d s n"
    using memcpy_moved [of d s n m] movsb_down_moved [of s d n m]
    by (auto simp: memmove_def moved_def fun_eq_iff)
  then show ?thesis by (simp add: moved_def)
qed

text \<open>The pattern of \<open>memset\<close> has the byte in each of its eight places.\<close>

lemma byte_of_pattern:
  fixes c :: nat
  assumes "c < 256" and "K = H * 256 * P + P + L" and "c * L < P"
  shows "(c * K div P) mod 256 = c"
proof -
  have "c * K = (c * H * 256 + c) * P + c * L" using assms(2) by (simp add: algebra_simps)
  then have "c * K div P = c * H * 256 + c" using assms(3) by (simp add: div_nat_eqI)
  then show ?thesis using assms(1) by simp
qed

lemma pattern_places:
  fixes c :: nat
  assumes "c < 256" and "i < 8"
  shows "(c * 0x0101010101010101 div 2 ^ (8 * i)) mod 256 = c"
proof -
  have "i \<in> {0, 1, 2, 3, 4, 5, 6, 7}" using assms(2) by auto
  then show ?thesis
  proof (elim insertE emptyE)
    assume "i = 0"
    then show ?thesis
      using byte_of_pattern [OF assms(1), where K = "0x101010101010101" and H = "0x1010101010101" and P = "2 ^ 0" and L = "0x0"] assms(1)
      by simp
  next
    assume "i = 1"
    then show ?thesis
      using byte_of_pattern [OF assms(1), where K = "0x101010101010101" and H = "0x10101010101" and P = "2 ^ 8" and L = "0x1"] assms(1)
      by simp
  next
    assume "i = 2"
    then show ?thesis
      using byte_of_pattern [OF assms(1), where K = "0x101010101010101" and H = "0x101010101" and P = "2 ^ 16" and L = "0x101"] assms(1)
      by simp
  next
    assume "i = 3"
    then show ?thesis
      using byte_of_pattern [OF assms(1), where K = "0x101010101010101" and H = "0x1010101" and P = "2 ^ 24" and L = "0x10101"] assms(1)
      by simp
  next
    assume "i = 4"
    then show ?thesis
      using byte_of_pattern [OF assms(1), where K = "0x101010101010101" and H = "0x10101" and P = "2 ^ 32" and L = "0x1010101"] assms(1)
      by simp
  next
    assume "i = 5"
    then show ?thesis
      using byte_of_pattern [OF assms(1), where K = "0x101010101010101" and H = "0x101" and P = "2 ^ 40" and L = "0x101010101"] assms(1)
      by simp
  next
    assume "i = 6"
    then show ?thesis
      using byte_of_pattern [OF assms(1), where K = "0x101010101010101" and H = "0x1" and P = "2 ^ 48" and L = "0x10101010101"] assms(1)
      by simp
  next
    assume "i = 7"
    then show ?thesis
      using byte_of_pattern [OF assms(1), where K = "0x101010101010101" and H = "0x0" and P = "2 ^ 56" and L = "0x1010101010101"] assms(1)
      by simp
  qed
qed

lemma pattern_byte:
  fixes b :: u8
  assumes "i < 8"
  shows "ucast (drop_bit (8 * i) (ucast b * 0x0101010101010101 :: u64)) = b"
proof -
  have b: "unat b < 256" by (rule unat_lt_8)
  have "unat (ucast b :: u64) = unat b" using b by (simp add: unsigned_ucast_eq take_bit_nat_eq_self)
  then have "unat (ucast b * 0x0101010101010101 :: u64) = unat b * 0x0101010101010101"
    using b by (simp add: unat_word_ariths)
  then have "unat (drop_bit (8 * i) (ucast b * 0x0101010101010101 :: u64)) = unat b * 0x0101010101010101 div 2 ^ (8 * i)"
    unfolding unat_drop_bit_eq by (simp only: drop_bit_eq_div)
  then show ?thesis
    using pattern_places [OF b assms] by (simp add: word_unat_eq_iff unsigned_ucast_eq take_bit_eq_mod)
qed

lemma stosq_fill: "stosq k m d (ucast b * 0x0101010101010101) = (\<lambda>a. if d \<le> a \<and> a < d + 8 * k then b else m a)"
proof (induction k arbitrary: m d)
  case (Suc k)
  have "sto8 m d (ucast b * 0x0101010101010101) = (\<lambda>a. if d \<le> a \<and> a < d + 8 then b else m a)"
    by (rule ext) (auto simp: sto8_def intro!: pattern_byte)
  then show ?case by (simp add: Suc.IH) (rule ext, auto)
qed (rule ext, auto)

lemma stosb_fill: "stosb k m d (ucast b * 0x0101010101010101) = (\<lambda>a. if d \<le> a \<and> a < d + k then b else m a)"
proof (induction k arbitrary: m d)
  case (Suc k)
  show ?case using pattern_byte [of 0 b] by (simp add: Suc.IH) (rule ext, auto)
qed (rule ext, auto)

text \<open>\<open>memset\<close>, which stores eight copies of the byte at a time, fills exactly the \<open>n\<close> bytes with the
  low byte of its argument.\<close>

lemma memset_correct:
  "memset m d v n = (\<lambda>a. if d \<le> a \<and> a < d + n then ucast v else m a)"
  unfolding memset_def Let_def stosq_fill stosb_fill
  by (rule ext) auto

lemma skip_words_cmp: "case skip_words x y of (x', y') \<Rightarrow> cmp_bytes x' y' = cmp_bytes x y"
proof (induction x y rule: skip_words.induct)
  case (1 x y)
  have cmp: "cmp_bytes (u @ x') (u @ y') = cmp_bytes x' y'" for u x' y' by (induction u) auto
  show ?case
  proof (cases "8 \<le> length x \<and> take 8 x = take 8 y")
    case True
    then have "cmp_bytes x y = cmp_bytes (drop 8 x) (drop 8 y)"
      using cmp [of "take 8 x" "drop 8 x" "drop 8 y"] by (metis append_take_drop_id)
    then show ?thesis using 1 True by (subst skip_words.simps) simp
  next
    case False
    then show ?thesis by (subst skip_words.simps) auto
  qed
qed

text \<open>C34: \<open>memcmp\<close>, which skips equal words, answers the difference of the first two bytes that differ,
  and 0 exactly for equal blocks.\<close>

theorem memcmp_correct:
  assumes "length x = length y"
  shows "(memcmp x y = 0 \<longleftrightarrow> x = y) \<and>
    (\<forall>i<length x. x ! i \<noteq> y ! i \<longrightarrow> take i x = take i y \<longrightarrow> memcmp x y = uint (x ! i) - uint (y ! i))"
proof -
  have m: "memcmp x y = cmp_bytes x y" using skip_words_cmp [of x y] by (auto simp: memcmp_def)
  have "(cmp_bytes x y = 0 \<longleftrightarrow> x = y) \<and>
    (\<forall>i<length x. x ! i \<noteq> y ! i \<longrightarrow> take i x = take i y \<longrightarrow> cmp_bytes x y = uint (x ! i) - uint (y ! i))"
    using assms
  proof (induction x y rule: list_induct2)
    case (Cons a x b y)
    then show ?case by (auto simp: nth_Cons take_Cons word_uint_eq_iff split: nat.splits)
  qed simp
  then show ?thesis by (simp add: m)
qed

lemma memcmp_correct_witness:
  "length [1, 2, 3, 4, 5, 6, 7, 8, 9 :: u8] = length [1, 2, 3, 4, 5, 6, 7, 8, 7 :: u8] \<and>
   memcmp [1, 2, 3, 4, 5, 6, 7, 8, 9] [1, 2, 3, 4, 5, 6, 7, 8, 7] = 2"
  using memcmp_correct [of "[1, 2, 3, 4, 5, 6, 7, 8, 9]" "[1, 2, 3, 4, 5, 6, 7, 8, 7]"]
  by (auto dest: spec [of _ 8])

text \<open>A string of \<open>n\<close> characters at \<open>s\<close>.\<close>

definition str_at :: "bytes \<Rightarrow> nat \<Rightarrow> nat \<Rightarrow> bool" where
  "str_at m s n \<longleftrightarrow> m (s + n) = 0 \<and> (\<forall>i<n. m (s + i) \<noteq> 0)"

lemma strcpy_moved:
  assumes "str_at m s n" and "d + n < s \<or> s + n < d"
  shows "strcpy m d s = Some (moved m d s (Suc n))"
  using assms
proof (induction n arbitrary: m d s)
  case 0
  then have "moved m d s (Suc 0) = m(d := m s)" by (intro ext) (auto simp: moved_def)
  with 0 show ?case by (subst strcpy.simps) (simp add: str_at_def)
next
  case (Suc n)
  have "strcpy (m(d := m s)) (d + 1) (s + 1) = Some (moved (m(d := m s)) (d + 1) (s + 1) (Suc n))"
    using Suc.prems by (intro Suc.IH) (auto simp: str_at_def)
  moreover have "moved (m(d := m s)) (d + 1) (s + 1) (Suc n) = moved m d s (Suc (Suc n))"
    using Suc.prems(2) by (intro ext) (auto simp: moved_def Suc_diff_Suc)
  moreover have "m s \<noteq> 0" using Suc.prems(1) unfolding str_at_def by (metis add_0_right zero_less_Suc)
  ultimately show ?case by (subst strcpy.simps) simp
qed

lemma str_end_at: "str_at m s n \<Longrightarrow> str_end m s = Some (s + n)"
proof (induction n arbitrary: s)
  case 0
  then show ?case by (subst str_end.simps) (simp add: str_at_def)
next
  case (Suc n)
  have "m s \<noteq> 0" using Suc.prems unfolding str_at_def by (metis add_0_right zero_less_Suc)
  moreover have "str_end m (s + 1) = Some (s + 1 + n)" using Suc.prems by (intro Suc.IH) (auto simp: str_at_def)
  ultimately show ?case by (subst str_end.simps) simp
qed

text \<open>\<open>strcat\<close> ends and appends the second string, terminator included, at the end of the first, if
  both are terminated and the copy does not run into its source; nothing else changes.\<close>

lemma strcat_correct:
  assumes "str_at m d k" and "str_at m s n" and "d + k + n < s \<or> s + n < d + k"
  shows "strcat m d s = Some (\<lambda>a. if d + k \<le> a \<and> a \<le> d + k + n then m (s + (a - (d + k))) else m a)"
  using strcpy_moved [OF assms(2), of "d + k"] str_end_at [OF assms(1)] assms(3)
  by (auto simp: strcat_def moved_def less_Suc_eq_le intro!: ext)

section \<open>C strings\<close>

definition cstr :: "string \<Rightarrow> bool" where
  "cstr s \<longleftrightarrow> NUL \<notin> set s"

lemma cstr_simps [simp]: "cstr []" "cstr (c # s) \<longleftrightarrow> c \<noteq> NUL \<and> cstr s"
  by (auto simp: cstr_def)

lemma byte_eq [simp]: "byte a = byte b \<longleftrightarrow> a = b"
  by (simp add: byte_def)

lemma byte_NUL [simp]: "byte NUL = 0"
  by (simp add: byte_def)

lemma byte_sign [simp]: "byte c = 0 \<longleftrightarrow> c = NUL" "0 < byte c \<longleftrightarrow> c \<noteq> NUL" "\<not> byte c < 0"
proof -
  show z: "byte c = 0 \<longleftrightarrow> c = NUL" using byte_eq [of c NUL] by (simp del: byte_eq)
  show "\<not> byte c < 0" by (simp add: byte_def)
  then show "0 < byte c \<longleftrightarrow> c \<noteq> NUL" using z by linarith
qed

lemma strlen_length: "cstr s \<Longrightarrow> strlen s = length s"
  by (induction s) auto

text \<open>\<open>strcmp\<close> compares like the dictionary order of the bytes: 0 for equal strings, negative exactly
  if the first comes before the second; \<open>strncmp\<close> does so for the first \<open>n\<close> characters.\<close>

lemma strcmp_correct:
  assumes "cstr x" and "cstr y"
  shows "(strcmp x y = 0 \<longleftrightarrow> x = y) \<and>
    (strcmp x y < 0 \<longleftrightarrow> (map byte x, map byte y) \<in> lexord {(a, b). a < b}) \<and>
    strncmp n x y = strcmp (take n x) (take n y)"
proof (intro conjI)
  show "strcmp x y = 0 \<longleftrightarrow> x = y"
    using assms
  proof (induction x y rule: strcmp.induct)
    case (1 a x b y)
    then show ?case by (auto simp: at0_def)
  qed (auto simp: at0_def split: list.splits)
  show "strcmp x y < 0 \<longleftrightarrow> (map byte x, map byte y) \<in> lexord {(a, b). a < b}"
    using assms
  proof (induction x y rule: strcmp.induct)
    case (1 a x b y)
    then show ?case by auto
  qed (auto simp: at0_def split: list.splits)
  show "strncmp n x y = strcmp (take n x) (take n y)"
    using assms
  proof (induction n x y rule: strncmp.induct)
    case (1 x y)
    then show ?case by (simp add: at0_def)
  qed (auto simp: at0_def split: list.splits)
qed

lemma begins_prefix: "cstr n \<Longrightarrow> cstr h \<Longrightarrow> begins n h \<longleftrightarrow> prefix n h"
  by (induction n h rule: begins.induct) auto

lemma strstr_loop_found: "cstr n \<Longrightarrow> cstr h \<Longrightarrow> n \<noteq> [] \<Longrightarrow>
    strstr_loop h n = Some i \<longleftrightarrow> prefix n (drop i h) \<and> (\<forall>j<i. \<not> prefix n (drop j h))"
proof (induction h arbitrary: i)
  case (Cons c h)
  have all: "(\<forall>j<Suc i'. P j) \<longleftrightarrow> P 0 \<and> (\<forall>j<i'. P (Suc j))" for P i' by (auto simp: less_Suc_eq_0_disj)
  show ?case
  proof (cases i)
    case 0
    then show ?thesis using Cons.prems begins_prefix [of n "c # h"] by auto
  next
    case (Suc i')
    then show ?thesis using Cons begins_prefix [of n "c # h"] by (auto simp: all)
  qed
qed auto

text \<open>C32: \<open>strstr\<close> finds the first place where the second string begins in the first one, and answers NULL
  only if there is none; \<open>strchr\<close> finds the first place of a character.\<close>

theorem strstr_correct:
  assumes "cstr h" and "cstr n"
  shows "(strstr h n = Some i \<longleftrightarrow> prefix n (drop i h) \<and> (\<forall>j<i. \<not> prefix n (drop j h))) \<and>
    (strstr h n = None \<longleftrightarrow> (\<forall>i. \<not> prefix n (drop i h))) \<and>
    (0 < c \<and> c < 256 \<longrightarrow> strchr h c = first_idx (\<lambda>x. x = char_of c) h)"
proof -
  have found: "strstr h n = Some i \<longleftrightarrow> prefix n (drop i h) \<and> (\<forall>j<i. \<not> prefix n (drop j h))" for i
  proof (cases n)
    case Nil
    then show ?thesis by (auto simp: strstr_def at0_def)
  next
    case (Cons c n')
    then show ?thesis using strstr_loop_found [OF assms(2,1)] assms(2) by (simp add: strstr_def at0_def)
  qed
  have "strstr h n = None \<longleftrightarrow> (\<forall>i. \<not> prefix n (drop i h))"
  proof
    assume none: "strstr h n = None"
    show "\<forall>i. \<not> prefix n (drop i h)"
    proof (rule ccontr)
      assume "\<not> (\<forall>i. \<not> prefix n (drop i h))"
      then have "\<exists>i. prefix n (drop i h)" by simp
      then obtain i where "prefix n (drop i h)" "\<forall>j<i. \<not> prefix n (drop j h)" using exists_least_iff [of "\<lambda>i. prefix n (drop i h)"] by blast
      then show False using found none by (metis option.distinct(1))
    qed
  next
    assume "\<forall>i. \<not> prefix n (drop i h)"
    then show "strstr h n = None" using found by (cases "strstr h n") auto
  qed
  moreover have "strchr h c = first_idx (\<lambda>x. x = char_of c) h" if "0 < c \<and> c < 256"
    using assms(1) that by (induction h) auto
  ultimately show ?thesis using found by simp
qed

lemma strstr_correct_witness:
  "cstr ''usb keyboard'' \<and> cstr ''key'' \<and> strstr ''usb keyboard'' ''key'' = Some 4 \<and>
   strchr ''usb keyboard'' 107 = Some 4"
proof -
  have c: "cstr ''usb keyboard''" "cstr ''key''" by code_simp+
  have "prefix ''key'' (drop 4 ''usb keyboard'')" "\<forall>j<4. \<not> prefix ''key'' (drop j ''usb keyboard'')"
    "first_idx (\<lambda>x. x = char_of (107::nat)) ''usb keyboard'' = Some 4" by code_simp+
  then show ?thesis using strstr_correct [OF c, of 4 107] c by simp
qed

section \<open>Numbers\<close>

lemma length_reverse_loop [simp]: "length (reverse_loop s i j) = length s"
  by (induction s i j rule: reverse_loop.induct) (subst reverse_loop.simps, simp)

lemma nth_reverse_loop:
  assumes "0 \<le> i" and "j < int (length s)" and "k < length s"
  shows "reverse_loop s i j ! k = (if i \<le> int k \<and> int k \<le> j then s ! nat (i + j - int k) else s ! k)"
  using assms
proof (induction s i j rule: reverse_loop.induct)
  case (1 s i j)
  let ?t = "s[nat i := s ! nat j, nat j := s ! nat i]"
  show ?case
  proof (cases "i < j")
    case True
    then have "reverse_loop s i j ! k = reverse_loop ?t (i + 1) (j - 1) ! k" by (subst reverse_loop.simps) simp
    also have "\<dots> = (if i + 1 \<le> int k \<and> int k \<le> j - 1 then ?t ! nat (i + j - int k) else ?t ! k)"
      using 1 True by simp
    also have "\<dots> = (if i \<le> int k \<and> int k \<le> j then s ! nat (i + j - int k) else s ! k)"
      using 1(2-4) True by (auto simp: nth_list_update nat_eq_iff)
    finally show ?thesis .
  next
    case False
    then show ?thesis by (subst reverse_loop.simps) (auto simp: nat_eq_iff intro: arg_cong [of _ _ "(!) s"])
  qed
qed

lemma reverse_rev: "reverse s = rev s"
proof (rule nth_equalityI)
  show "length (reverse s) = length (rev s)" by (simp add: reverse_def)
  fix k
  assume "k < length (reverse s)"
  then have k: "k < length s" by (simp add: reverse_def)
  then have "nat (0 + (int (length s) - 1) - int k) = length s - Suc k" by simp
  then show "reverse s ! k = rev s ! k"
    using k nth_reverse_loop [of 0 "int (length s) - 1" s k] by (simp add: reverse_def rev_nth)
qed

lemma s32_exact: "- (2 ^ 31) \<le> x \<Longrightarrow> x < 2 ^ 31 \<Longrightarrow> s32 x = x"
  by (simp add: s32_def)

lemma s32_add [simp]: "s32 (x + 2 ^ 32 * k) = s32 x"
proof -
  have "x + 2 ^ 32 * k + 2 ^ 31 = x + 2 ^ 31 + 2 ^ 32 * k" by simp
  then show ?thesis unfolding s32_def by (simp only: mod_mult_self2)
qed

lemma s32_eq: "s32 v = v + 2 ^ 32 * (- ((v + 2 ^ 31) div 2 ^ 32))"
  unfolding s32_def minus_div_mult_eq_mod [of "v + 2 ^ 31" "2 ^ 32", symmetric] by (simp only: algebra_simps)

lemma s32_lin: "s32 (s32 v * c + d) = s32 (v * c + d)"
proof -
  have "s32 v * c + d = v * c + d + 2 ^ 32 * (- ((v + 2 ^ 31) div 2 ^ 32) * c)"
    by (subst s32_eq) (simp only: algebra_simps)
  then show ?thesis by (simp only: s32_add)
qed

definition dig :: "char \<Rightarrow> int" where
  "dig c = byte c - byte (CHR ''0'')"

lemma atoi_loop_foldl:
  "\<forall>c\<in>set ds. is_digit c \<Longrightarrow> atoi_loop (s32 v) ds = s32 (foldl (\<lambda>v c. v * 10 + dig c) v ds)"
  by (induction ds arbitrary: v) (simp_all add: s32_lin flip: dig_def)

lemma digit_char:
  "k < 10 \<Longrightarrow> is_digit (''0123456789abcdef'' ! k) \<and> dig (''0123456789abcdef'' ! k) = int k"
proof -
  have "\<forall>k<10. is_digit (''0123456789abcdef'' ! k) \<and> dig (''0123456789abcdef'' ! k) = int k" by code_simp
  then show "k < 10 \<Longrightarrow> is_digit (''0123456789abcdef'' ! k) \<and> dig (''0123456789abcdef'' ! k) = int k" by blast
qed

lemma utoa_10:
  "foldl (\<lambda>v c. v * 10 + dig c) 0 (rev (utoa_digits 10 v)) = int v \<and> (\<forall>c\<in>set (utoa_digits 10 v). is_digit c)"
proof (induction "10 :: nat" v rule: utoa_digits.induct)
  case (1 v)
  have "int (v div 10) * 10 + int (v mod 10) = int v" by presburger
  then show ?case using 1 digit_char [of "v mod 10"] by (subst (1 2) utoa_digits.simps) auto
qed

lemma utoa_text:
  obtains ds where "utoa v 10 = Some ds" "\<forall>c\<in>set ds. is_digit c" "ds \<noteq> []"
    "foldl (\<lambda>v c. v * 10 + dig c) 0 ds = int v"
proof (cases "v = 0")
  case True
  have "is_digit CHR ''0''" "dig CHR ''0'' = 0" by code_simp+
  then show thesis using that [of "''0''"] True by (simp add: utoa_def)
next
  case False
  then have "utoa_digits 10 v \<noteq> []" by (subst utoa_digits.simps) simp
  then show thesis using that [of "rev (utoa_digits 10 v)"] False utoa_10 [of v]
    by (simp add: utoa_def reverse_rev)
qed

lemma digit_not:
  assumes "is_digit c"
  shows "c \<noteq> CHR '' ''" "c \<noteq> CHR 0x09" "c \<noteq> CHR ''-''" "c \<noteq> CHR ''+''"
proof -
  have "\<not> is_digit CHR '' ''" "\<not> is_digit CHR 0x09" "\<not> is_digit CHR ''-''" "\<not> is_digit CHR ''+''" by code_simp+
  then show "c \<noteq> CHR '' ''" "c \<noteq> CHR 0x09" "c \<noteq> CHR ''-''" "c \<noteq> CHR ''+''" using assms by auto
qed

lemma s32_0 [simp]: "s32 0 = 0"
  by (simp add: s32_def)

lemma atoi_digits:
  assumes "\<forall>c\<in>set ds. is_digit c" and "ds \<noteq> []"
  shows "atoi ds = s32 (foldl (\<lambda>v c. v * 10 + dig c) 0 ds)"
    and "atoi (CHR ''-'' # ds) = s32 (- foldl (\<lambda>v c. v * 10 + dig c) 0 ds)"
proof -
  note l = atoi_loop_foldl [OF assms(1), of 0, simplified]
  obtain c cs where ds: "ds = c # cs" using assms(2) by (cases ds) auto
  then have c: "is_digit c" using assms(1) by simp
  have lin: "s32 (s32 x) = s32 x" "s32 (- s32 x) = s32 (- x)" for x
    using s32_lin [of x 1 0] s32_lin [of x "-1" 0] by simp_all
  show "atoi ds = s32 (foldl (\<lambda>v c. v * 10 + dig c) 0 ds)"
    using l digit_not [OF c] ds by (simp add: atoi_def at0_def lin del: atoi_loop.simps foldl_Cons)
  show "atoi (CHR ''-'' # ds) = s32 (- foldl (\<lambda>v c. v * 10 + dig c) 0 ds)"
    using l by (simp add: atoi_def at0_def lin)
qed

text \<open>C33: Numbers survive printing and reading: \<open>atoi\<close> of the decimal text that \<open>utoa\<close> or \<open>itoa\<close> writes
  gives the number back, for every 32-bit \<open>int\<close>, the smallest one included.\<close>

theorem atoi_itoa:
  assumes "- (2 ^ 31) \<le> v" and "v < 2 ^ 31"
  shows "\<exists>t. itoa v 10 = Some t \<and> atoi t = v"
proof (cases "v < 0")
  case True
  have "s32 (- v) mod 2 ^ 32 = - v"
    using True assms by (cases "v = - (2 ^ 31)") (auto simp: s32_def s32_exact)
  then obtain ds where ds: "itoa v 10 = Some (CHR ''-'' # ds)" "\<forall>c\<in>set ds. is_digit c" "ds \<noteq> []"
    "foldl (\<lambda>v c. v * 10 + dig c) 0 ds = - v"
    using utoa_text [of "nat (- v)"] True by (auto simp: itoa_def)
  then show ?thesis using atoi_digits(2) [OF ds(2,3)] s32_exact assms by auto
next
  case False
  then obtain ds where ds: "itoa v 10 = Some ds" "\<forall>c\<in>set ds. is_digit c" "ds \<noteq> []"
    "foldl (\<lambda>v c. v * 10 + dig c) 0 ds = v"
    using utoa_text [of "nat v"] assms by (auto simp: itoa_def)
  then show ?thesis using atoi_digits(1) [OF ds(2,3)] s32_exact assms by auto
qed

lemma atoi_itoa_witness:
  "- (2 ^ 31) \<le> (-2147483648 :: int) \<and> (\<exists>t. itoa (-2147483648) 10 = Some t \<and> atoi t = -2147483648)"
  using atoi_itoa [of "-2147483648"] by simp

end
