(* ===== verification/Flock.thy ===== *)
theory Flock
  imports Kernel_Prelude KString
begin

text \<open>
  \<open>src/src/proc/flock.c\<close>: advisory locks on files, whole-file locks of \<open>flock\<close> and byte-range locks of
  \<open>fcntl\<close>. Owners and nodes are addresses; 0 is NULL. A lock's range runs from \<open>l_s\<close> to \<open>l_e\<close>, both
  included, and \<open>2 ^ 64 - 1\<close> is the end of file. Whether \<open>kmalloc\<close> has memory is an argument.
\<close>

section \<open>The lock table\<close>

record flk =
  l_node :: nat
  l_own :: nat
  l_kind :: nat
  l_type :: nat
  l_pid :: nat
  l_s :: nat
  l_e :: nat

text \<open>\<open>locks\<close> is the linked list in its order; \<open>wt\<close> the 32 entries (who waits, for whom).\<close>

record flk_state =
  locks :: "flk list"
  wt :: "(nat \<times> nat) list"

abbreviation EOF :: nat where "EOF \<equiv> 2 ^ 64 - 1"

definition clash :: "flk \<Rightarrow> nat \<Rightarrow> nat \<Rightarrow> nat \<Rightarrow> nat \<Rightarrow> nat \<Rightarrow> bool" where
  "clash a kind own type s e \<longleftrightarrow>
     (if l_own a = own then False
      else if (l_kind a = 0) \<noteq> (kind = 0) then False
      else if l_type a = 0 \<and> type = 0 then False
      else l_s a \<le> e \<and> s \<le> l_e a)"

definition find_clash :: "flk_state \<Rightarrow> nat \<Rightarrow> nat \<Rightarrow> nat \<Rightarrow> nat \<Rightarrow> nat \<Rightarrow> nat \<Rightarrow> flk option" where
  "find_clash st n kind own type s e = find (\<lambda>l. l_node l = n \<and> clash l kind own type s e) (locks st)"

text \<open>Error returns are negative numbers, as in the code.\<close>

abbreviation EAGAIN :: int where "EAGAIN \<equiv> 11"
abbreviation EBADF :: int where "EBADF \<equiv> 9"
abbreviation EINVAL :: int where "EINVAL \<equiv> 22"
abbreviation EINTR :: int where "EINTR \<equiv> 4"
abbreviation ENOMEM :: int where "ENOMEM \<equiv> 12"
abbreviation EDEADLK :: int where "EDEADLK \<equiv> 35"

text \<open>The loop of \<open>cut\<close> over the list, with its return value. The split of a lock that sticks out on both
  sides leaves the loop at once, and so does the failure to allocate the second half.\<close>

definition mine :: "nat \<Rightarrow> nat \<Rightarrow> nat \<Rightarrow> flk \<Rightarrow> bool" where
  "mine n kind own l \<longleftrightarrow> l_node l = n \<and> l_own l = own \<and> l_kind l = kind"

fun cut_list :: "bool \<Rightarrow> nat \<Rightarrow> nat \<Rightarrow> nat \<Rightarrow> nat \<Rightarrow> nat \<Rightarrow> flk list \<Rightarrow> int \<times> flk list" where
  "cut_list mem n kind own s e [] = (0, [])"
| "cut_list mem n kind own s e (l # ls) =
     (if \<not> mine n kind own l \<or> e < l_s l \<or> l_e l < s
      then map_prod id (Cons l) (cut_list mem n kind own s e ls)
      else if l_s l < s \<and> e < l_e l
      then (if mem then (0, l\<lparr>l_e := sub64 s 1\<rparr> # l\<lparr>l_s := add64 e 1\<rparr> # ls) else (- ENOMEM, l # ls))
      else if l_s l < s then map_prod id (Cons (l\<lparr>l_e := sub64 s 1\<rparr>)) (cut_list mem n kind own s e ls)
      else if e < l_e l then map_prod id (Cons (l\<lparr>l_s := add64 e 1\<rparr>)) (cut_list mem n kind own s e ls)
      else cut_list mem n kind own s e ls)"

definition cut :: "bool \<Rightarrow> nat \<Rightarrow> nat \<Rightarrow> nat \<Rightarrow> nat \<Rightarrow> nat \<Rightarrow> flk_state \<Rightarrow> int \<times> flk_state" where
  "cut mem n kind own s e st = map_prod id (\<lambda>ls. st\<lparr>locks := ls\<rparr>) (cut_list mem n kind own s e (locks st))"

definition add_lock :: "bool \<Rightarrow> nat \<Rightarrow> nat \<Rightarrow> nat \<Rightarrow> nat \<Rightarrow> nat \<Rightarrow> nat \<Rightarrow> nat \<Rightarrow> flk_state \<Rightarrow> int \<times> flk_state" where
  "add_lock mem pid n kind own type s e st =
     (if \<not> mem then (- ENOMEM, st)
      else (0, st\<lparr>locks := \<lparr>l_node = n, l_own = own, l_kind = kind, l_type = type, l_pid = pid, l_s = s, l_e = e\<rparr> # locks st\<rparr>))"

section \<open>Waiting\<close>

definition wait_set :: "nat \<Rightarrow> nat \<Rightarrow> flk_state \<Rightarrow> flk_state" where
  "wait_set own on st =
     (case first_idx (\<lambda>(w, _). w = own) (wt st) of
        Some i \<Rightarrow> st\<lparr>wt := (wt st)[i := (own, on)]\<rparr>
      | None \<Rightarrow> (case first_idx (\<lambda>(w, _). w = 0) (wt st) of
                   Some i \<Rightarrow> st\<lparr>wt := (wt st)[i := (own, on)]\<rparr>
                 | None \<Rightarrow> st))"

definition wait_clr :: "nat \<Rightarrow> flk_state \<Rightarrow> flk_state" where
  "wait_clr own st = st\<lparr>wt := map (\<lambda>(w, on). if w = own then (0, on) else (w, on)) (wt st)\<rparr>"

text \<open>The last entry of \<open>x\<close> in the table of waiters, NULL if it has none.\<close>

fun waits_on :: "nat \<Rightarrow> (nat \<times> nat) list \<Rightarrow> nat \<Rightarrow> nat" where
  "waits_on x [] nx = nx"
| "waits_on x ((w, on) # ws) nx = waits_on x ws (if w = x then on else nx)"

fun deadlock_loop :: "nat \<Rightarrow> (nat \<times> nat) list \<Rightarrow> nat \<Rightarrow> nat \<Rightarrow> bool" where
  "deadlock_loop 0 ws me on = False"
| "deadlock_loop (Suc d) ws me on =
     (if on = 0 then False else if on = me then True else deadlock_loop d ws me (waits_on on ws 0))"

definition deadlock :: "nat \<Rightarrow> nat \<Rightarrow> flk_state \<Rightarrow> bool" where
  "deadlock me on st = deadlock_loop 16 (wt st) me on"

text \<open>What happens around one \<open>task_sleep_ms\<close> of \<open>flk_wait\<close>: whether a signal is pending when it asks, and
  what the other tasks do to the table while it sleeps. \<open>None\<close> is a caller that is still waiting after
  all of them.\<close>

type_synonym wake = "bool \<times> (flk_state \<Rightarrow> flk_state)"

fun flk_wait :: "nat \<Rightarrow> nat \<Rightarrow> nat \<Rightarrow> nat \<Rightarrow> nat \<Rightarrow> nat \<Rightarrow> bool \<Rightarrow> wake list \<Rightarrow> flk_state \<Rightarrow> (int \<times> flk_state) option" where
  "flk_wait n kind own type s e wait wakes st =
     (case find_clash st n kind own type s e of
        None \<Rightarrow> Some (0, wait_clr own st)
      | Some c \<Rightarrow>
          if \<not> wait then Some (- EAGAIN, st)
          else if kind = 1 \<and> deadlock own (l_own c) st then Some (- EDEADLK, wait_clr own st)
          else (let st1 = wait_set own (l_own c) st
                in case wakes of
                     [] \<Rightarrow> None
                   | (intr, others) # wakes' \<Rightarrow>
                       if intr then Some (- EINTR, wait_clr own st1)
                       else flk_wait n kind own type s e wait wakes' (others st1)))"

section \<open>The system calls\<close>

text \<open>The open file: its address is the owner of its \<open>flock\<close> and OFD locks.\<close>

record open_file =
  f_addr :: nat
  f_is_node :: bool
  f_node :: nat
  f_off :: int
  f_size :: int
  f_flags :: nat

definition flk_flock :: "bool \<times> bool \<Rightarrow> nat \<Rightarrow> wake list \<Rightarrow> open_file \<Rightarrow> u32 \<Rightarrow> flk_state \<Rightarrow> (int \<times> flk_state) option" where
  "flk_flock mem pid wakes f op st =
     (if \<not> f_is_node f then Some (0, st)
      else (let n = f_node f; t = op AND NOT 4
            in if t = 8 then Some (cut (fst mem) n 0 (f_addr f) 0 EOF st)
               else if t \<noteq> 1 \<and> t \<noteq> 2 then Some (- EINVAL, st)
               else Option.bind (flk_wait n 0 (f_addr f) (of_bool (t = 2)) 0 EOF (op AND 4 = 0) wakes st) (\<lambda>(r, st1).
                 if r < 0 then Some (r, st1)
                 else (let st2 = snd (cut (fst mem) n 0 (f_addr f) 0 EOF st1)
                       in Some (add_lock (snd mem) pid n 0 (f_addr f) (of_bool (t = 2)) 0 EOF st2)))))"

text \<open>\<open>struct flock\<close> of the caller, and signed 64-bit arithmetic as the machine does it.\<close>

record flock_arg =
  l_typ :: int
  l_whence :: int
  l_start :: int
  l_len :: int
  l_pidf :: int

definition s64 :: "int \<Rightarrow> int" where
  "s64 x = (x + 2 ^ 63) mod 2 ^ 64 - 2 ^ 63"

definition u64 :: "int \<Rightarrow> nat" where
  "u64 x = nat (x mod 2 ^ 64)"

text \<open>The range \<open>[s, e]\<close> that the arguments name, or the error.\<close>

definition flk_range :: "open_file \<Rightarrow> flock_arg \<Rightarrow> int + nat \<times> nat" where
  "flk_range f u =
     (if l_whence u \<notin> {0, 1, 2} then Inl (- EINVAL)
      else (let st = (if l_whence u = 1 then s64 (l_start u + f_off f)
                      else if l_whence u = 2 then s64 (l_start u + f_size f) else l_start u);
                len = l_len u
            in if len < 0 \<and> s64 (st + len) < 0 then Inl (- EINVAL)
               else if st < 0 then Inl (- EINVAL)
               else if len < 0 then Inr (u64 (st + len), sub64 (u64 st) 1)
               else Inr (u64 st, if len \<noteq> 0 then sub64 (add64 (u64 st) (u64 len)) 1 else EOF)))"

definition flk_fcntl ::
  "bool \<times> bool \<Rightarrow> nat \<Rightarrow> nat \<Rightarrow> wake list \<Rightarrow> open_file \<Rightarrow> nat \<Rightarrow> flock_arg \<Rightarrow> flk_state \<Rightarrow> (int \<times> flock_arg \<times> flk_state) option" where
  "flk_fcntl mem sh pid wakes f cmd u st =
     (let ofd = 36 \<le> cmd; kind = (if ofd then 2 else 1); own = (if ofd then f_addr f else sh);
          n = f_node f; ty = nat (l_typ u); ret = (\<lambda>r st. Some (r, u, st))
      in if \<not> f_is_node f then ret (- EBADF) st
         else if l_typ u < 0 \<or> 2 < l_typ u then ret (- EINVAL) st
         else if ofd \<and> l_pidf u \<noteq> 0 then ret (- EINVAL) st
         else case flk_range f u of
                Inl er \<Rightarrow> ret er st
              | Inr (s, e) \<Rightarrow>
                  if cmd \<in> {5, 12, 36} then
                    (case (if ty = 2 then None else find_clash st n kind own ty s e) of
                       None \<Rightarrow> Some (0, u\<lparr>l_typ := 2\<rparr>, st)
                     | Some c \<Rightarrow> Some (0, u\<lparr>l_typ := int (l_type c), l_whence := 0, l_start := s64 (int (l_s c)),
                          l_len := (if l_e c = EOF then 0 else s64 (int (add64 (sub64 (l_e c) (l_s c)) 1))),
                          l_pidf := (if l_kind c = 2 then -1 else int (l_pid c))\<rparr>, st))
                  else if ty = 2 then (case cut (fst mem) n kind own s e st of (r, st1) \<Rightarrow> ret r st1)
                  else if ty = 0 \<and> f_flags f mod 4 = 1 then ret (- EBADF) st
                  else if ty = 1 \<and> f_flags f mod 4 = 0 then ret (- EBADF) st
                  else Option.bind (flk_wait n kind own ty s e (cmd \<in> {7, 14, 38}) wakes st) (\<lambda>(r, st1).
                    if r < 0 then ret r st1
                    else (case cut (fst mem) n kind own s e st1 of (r, st2) \<Rightarrow>
                            if r < 0 then ret r st2
                            else (case add_lock (snd mem) pid n kind own ty s e st2 of (r, st3) \<Rightarrow> ret r st3))))"

definition flk_close :: "nat \<Rightarrow> open_file option \<Rightarrow> flk_state \<Rightarrow> flk_state" where
  "flk_close sh fo st =
     (case fo of
        None \<Rightarrow> st
      | Some f \<Rightarrow> if locks st = [] \<or> \<not> f_is_node f then st else snd (cut False (f_node f) 1 sh 0 EOF st))"

definition flk_exit :: "nat \<Rightarrow> flk_state \<Rightarrow> flk_state" where
  "flk_exit sh st = wait_clr sh st"

definition flk_release :: "open_file \<Rightarrow> flk_state \<Rightarrow> flk_state" where
  "flk_release f st = st\<lparr>locks := filter (\<lambda>l. l_own l \<noteq> f_addr f) (locks st)\<rparr>"

section \<open>The text of \<open>/proc/locks\<close>\<close>

definition num_text :: "nat \<Rightarrow> string" where
  "num_text v = the (utoa (v mod 2 ^ 32) 10)"

definition flk_line :: "nat \<Rightarrow> flk \<Rightarrow> string" where
  "flk_line k l =
     num_text k @ '': '' @
     (if l_kind l = 0 then ''FLOCK  ADVISORY  '' else if l_kind l = 2 then ''OFDLCK ADVISORY  '' else ''POSIX  ADVISORY  '') @
     (if l_type l \<noteq> 0 then ''WRITE '' else ''READ  '') @
     num_text (l_pid l) @ '' 00:01:'' @ num_text (l_node l div 16 mod 2 ^ 28) @ '' '' @
     num_text (l_s l) @ '' '' @ (if l_e l = EOF then ''EOF'' else num_text (l_e l)) @ [CHR 0x0A]"

fun flk_text_loop :: "nat \<Rightarrow> nat \<Rightarrow> string \<Rightarrow> flk list \<Rightarrow> string" where
  "flk_text_loop cap k b [] = b"
| "flk_text_loop cap k b (l # ls) =
     (if cap < length b + length (flk_line k l) then b
      else flk_text_loop cap (add32 k 1) (b @ flk_line k l) ls)"

definition flk_text :: "nat \<Rightarrow> flk_state \<Rightarrow> string" where
  "flk_text cap st = flk_text_loop cap 1 [] (locks st)"

declare flk_wait.simps [simp del]

end
