(* ===== verification/Flock_Correct.thy ===== *)
theory Flock_Correct
  imports Flock KString_Correct
begin

text \<open>
  Correctness of \<open>src/src/proc/flock.c\<close>: no two owners ever hold conflicting locks, the locks of one owner
  never overlap, and setting and clearing a range changes exactly the bytes of the range
  (\<open>covers\<close> is the view of the table byte by byte). The deadlock test follows the wait-for chain.
\<close>

section \<open>The invariant of the table\<close>

definition ranged :: "flk \<Rightarrow> bool" where
  "ranged l \<longleftrightarrow> l_s l \<le> l_e l \<and> l_e l \<le> EOF"

text \<open>Two locks of the same owner and kind on a file are disjoint, two of different owners do not clash.\<close>

definition good :: "flk \<Rightarrow> flk \<Rightarrow> bool" where
  "good l k \<longleftrightarrow> l_node l = l_node k \<longrightarrow>
     (l_own l = l_own k \<and> l_kind l = l_kind k \<longrightarrow> l_e l < l_s k \<or> l_e k < l_s l) \<and>
     \<not> clash l (l_kind k) (l_own k) (l_type k) (l_s k) (l_e k)"

definition flk_ok :: "flk_state \<Rightarrow> bool" where
  "flk_ok st \<longleftrightarrow> (\<forall>l\<in>set (locks st). ranged l) \<and> sorted_wrt good (locks st)"

lemma good_sym: "good l k \<Longrightarrow> good k l"
  by (auto simp: good_def clash_def split: if_splits)

text \<open>A lock that kept everything but part of its range.\<close>

definition shrunk :: "flk \<Rightarrow> flk \<Rightarrow> bool" where
  "shrunk l l' \<longleftrightarrow> l_node l' = l_node l \<and> l_own l' = l_own l \<and> l_kind l' = l_kind l \<and> l_type l' = l_type l \<and>
     l_s l \<le> l_s l' \<and> l_s l' \<le> l_e l' \<and> l_e l' \<le> l_e l"

lemma shrunk_good: "shrunk l l' \<Longrightarrow> good l k \<Longrightarrow> good l' k" "shrunk k k' \<Longrightarrow> good l k \<Longrightarrow> good l k'"
  by (auto simp: shrunk_def good_def clash_def split: if_splits)

lemma shrunk_ranged: "shrunk l l' \<Longrightarrow> ranged l \<Longrightarrow> ranged l'"
  by (auto simp: shrunk_def ranged_def)

lemma shrunk_refl: "ranged l \<Longrightarrow> shrunk l l"
  by (simp add: shrunk_def ranged_def)

lemma cut_shrunk:
  assumes "l_s l < s" and "s \<le> l_e l" and "ranged l"
  shows "shrunk l (l\<lparr>l_e := sub64 s 1\<rparr>)" and "sub64 s 1 = s - 1"
  using assms by (auto simp: shrunk_def ranged_def)

lemma cut_shrunk':
  assumes "l_s l \<le> e" and "e < l_e l" and "ranged l"
  shows "shrunk l (l\<lparr>l_s := add64 e 1\<rparr>)" and "add64 e 1 = e + 1"
  using assms by (auto simp: shrunk_def ranged_def)

section \<open>Cutting\<close>

lemma cut_list_shrunk:
  assumes "\<forall>l\<in>set ls. ranged l" and "l' \<in> set (snd (cut_list mem n kind own s e ls))"
  shows "\<exists>l\<in>set ls. shrunk l l'"
  using assms
proof (induction ls)
  case (Cons l ls)
  have r: "ranged l" using Cons.prems by simp
  show ?case
  proof (cases "\<not> mine n kind own l \<or> e < l_s l \<or> l_e l < s")
    case True
    then show ?thesis using Cons shrunk_refl [OF r] by auto
  next
    case False
    then show ?thesis
      using Cons cut_shrunk [of l s] cut_shrunk' [of l e] r shrunk_refl
      by (auto split: if_splits)
  qed
qed simp

lemma cut_list_sorted:
  assumes "\<forall>l\<in>set ls. ranged l" and "sorted_wrt good ls" and "s \<le> e"
  shows "sorted_wrt good (snd (cut_list mem n kind own s e ls))"
  using assms(1,2)
proof (induction ls)
  case (Cons l ls)
  let ?t = "snd (cut_list mem n kind own s e ls)"
  have IH: "sorted_wrt good ?t" and r: "ranged l" using Cons by auto
  have "good l k'" if "k' \<in> set ?t" for k'
    using cut_list_shrunk [of ls k'] that Cons.prems shrunk_good(2) by fastforce
  then have t: "good l' k'" if "shrunk l l'" "k' \<in> set ?t" for l' k' using that shrunk_good(1) by blast
  show ?case
  proof (cases "\<not> mine n kind own l \<or> e < l_s l \<or> l_e l < s")
    case True
    then show ?thesis using IH t [OF shrunk_refl [OF r]] by simp
  next
    case False
    note c = cut_shrunk [of l s] cut_shrunk' [of l e]
    have "good (l\<lparr>l_e := sub64 s 1\<rparr>) (l\<lparr>l_s := add64 e 1\<rparr>)" if "l_s l < s" "e < l_e l"
      using c that r False assms(3) by (auto simp: good_def clash_def)
    then show ?thesis using IH t c False r Cons.prems shrunk_good(1) shrunk_refl by auto
  qed
qed simp

text \<open>The owner holds a lock of type \<open>t\<close> on the byte \<open>x\<close> of the file.\<close>

definition covers :: "flk list \<Rightarrow> nat \<Rightarrow> nat \<Rightarrow> nat \<Rightarrow> nat \<Rightarrow> nat \<Rightarrow> bool" where
  "covers ls n kind own x t \<longleftrightarrow> (\<exists>l\<in>set ls. mine n kind own l \<and> l_type l = t \<and> l_s l \<le> x \<and> x \<le> l_e l)"

lemma covers_simps [simp]:
  "\<not> covers [] n kind own x t"
  "covers (l # ls) n kind own x t \<longleftrightarrow>
     mine n kind own l \<and> l_type l = t \<and> l_s l \<le> x \<and> x \<le> l_e l \<or> covers ls n kind own x t"
  by (auto simp: covers_def)

lemma mine_update [simp]: "mine n kind own (l\<lparr>l_e := v\<rparr>) = mine n kind own l"
  "mine n kind own (l\<lparr>l_s := v\<rparr>) = mine n kind own l"
  by (simp_all add: mine_def)

text \<open>The cut only fails at a lock that sticks out on both sides.\<close>

lemma cut_list_fails:
  "fst (cut_list mem n kind own s e ls) \<noteq> 0 \<Longrightarrow> \<not> mem \<and> fst (cut_list mem n kind own s e ls) = - ENOMEM \<and>
     (\<exists>l\<in>set ls. mine n kind own l \<and> l_s l < s \<and> e < l_e l)"
  by (induction ls) (auto split: if_splits)

lemma mine_apart: "mine n kind own l \<Longrightarrow> mine n kind own k \<Longrightarrow> good l k \<Longrightarrow> l_e l < l_s k \<or> l_e k < l_s l"
  by (auto simp: mine_def good_def)

lemma cut_list_fail_keeps:
  assumes "sorted_wrt good ls" and "s \<le> e" and "fst (cut_list mem n kind own s e ls) \<noteq> 0"
  shows "snd (cut_list mem n kind own s e ls) = ls"
  using assms(1,3)
proof (induction ls)
  case (Cons l ls)
  have no: "\<not> (mine n kind own l \<and> l_s l \<le> e \<and> s \<le> l_e l)" if f: "fst (cut_list mem n kind own s e ls) \<noteq> 0"
  proof
    assume m: "mine n kind own l \<and> l_s l \<le> e \<and> s \<le> l_e l"
    obtain k where k: "k \<in> set ls" "mine n kind own k" "l_s k < s" "e < l_e k" using cut_list_fails [OF f] by blast
    then have "good l k" using Cons.prems(1) by simp
    then show False using mine_apart [of n kind own l k] m k assms(2) by linarith
  qed
  have IH: "fst (cut_list mem n kind own s e ls) \<noteq> 0 \<Longrightarrow> snd (cut_list mem n kind own s e ls) = ls"
    using Cons.IH Cons.prems(1) by simp
  show ?case
  proof (cases "mine n kind own l \<and> l_s l \<le> e \<and> s \<le> l_e l")
    case False
    then show ?thesis using IH Cons.prems(2) by (simp add: not_le disj_commute)
  next
    case True
    then have o: "\<not> (\<not> mine n kind own l \<or> e < l_s l \<or> l_e l < s)" by auto
    show ?thesis
    proof (cases "l_s l < s \<and> e < l_e l")
      case True
      then show ?thesis using o Cons.prems(2) by (cases mem) simp_all
    next
      case False
      then have "fst (cut_list mem n kind own s e (l # ls)) = fst (cut_list mem n kind own s e ls)"
        using o by (simp only: cut_list.simps) (simp del: cut_list.simps)
      then have "fst (cut_list mem n kind own s e ls) \<noteq> 0" using Cons.prems(2) by metis
      then show ?thesis using no True by blast
    qed
  qed
qed simp

lemma cut_list_covers:
  assumes "\<forall>l\<in>set ls. ranged l" and "sorted_wrt good ls" and "s \<le> e" and "fst (cut_list mem n kind own s e ls) = 0"
  shows "covers (snd (cut_list mem n kind own s e ls)) n kind own x t \<longleftrightarrow> covers ls n kind own x t \<and> \<not> (s \<le> x \<and> x \<le> e)"
  using assms(1,2,4)
proof (induction ls)
  case (Cons l ls)
  let ?t = "cut_list mem n kind own s e ls"
  have r: "ranged l" using Cons.prems by simp
  note c = cut_shrunk [of l s] cut_shrunk' [of l e]
  show ?case
  proof (cases "mine n kind own l \<and> l_s l < s \<and> e < l_e l")
    case True
    have "\<not> covers ls n kind own x t" if "s \<le> x" "x \<le> e"
    proof
      assume "covers ls n kind own x t"
      then obtain k where k: "k \<in> set ls" "mine n kind own k" "l_s k \<le> x" "x \<le> l_e k" by (auto simp: covers_def)
      then have "good l k" using Cons.prems(2) by simp
      then show False using mine_apart [of n kind own l k] True k that by linarith
    qed
    moreover have "mem" using True Cons.prems(3) assms(3) by (auto split: if_splits)
    ultimately show ?thesis using True c r assms(3) by auto
  next
    case False
    have f0: "fst ?t = 0" using Cons.prems(3) False by (auto split: if_splits)
    have IH: "covers (snd ?t) n kind own x t \<longleftrightarrow> covers ls n kind own x t \<and> \<not> (s \<le> x \<and> x \<le> e)"
      using Cons f0 by simp
    show ?thesis
    proof (cases "\<not> mine n kind own l \<or> e < l_s l \<or> l_e l < s")
      case True
      then show ?thesis using IH by auto
    next
      case in_range: False
      then have m: "mine n kind own l" "l_s l \<le> e" "s \<le> l_e l" by auto
      consider "l_s l < s" "l_e l \<le> e" | "s \<le> l_s l" "e < l_e l" | "s \<le> l_s l" "l_e l \<le> e"
        using False m by linarith
      then show ?thesis
      proof cases
        case 1
        then have "cut_list mem n kind own s e (l # ls) = map_prod id (Cons (l\<lparr>l_e := s - 1\<rparr>)) ?t"
          using in_range c(2) m r by simp
        then show ?thesis using IH 1 m by auto
      next
        case 2
        then have "cut_list mem n kind own s e (l # ls) = map_prod id (Cons (l\<lparr>l_s := e + 1\<rparr>)) ?t"
          using in_range c(4) m r by simp
        then show ?thesis using IH 2 m by auto
      next
        case 3
        then have "cut_list mem n kind own s e (l # ls) = ?t" using in_range by simp
        then show ?thesis using IH 3 m by auto
      qed
    qed
  qed
qed simp

text \<open>The locks of everyone else stay as they are, in their order.\<close>

lemma cut_list_others:
  "filter (\<lambda>l. \<not> mine n kind own l) (snd (cut_list mem n kind own s e ls)) = filter (\<lambda>l. \<not> mine n kind own l) ls"
  by (induction ls) auto

lemma cut_full: "\<forall>l\<in>set ls. ranged l \<Longrightarrow> cut_list mem n kind own 0 EOF ls = (0, filter (\<lambda>l. \<not> mine n kind own l) ls)"
  by (induction ls) (auto simp: ranged_def)

section \<open>Waiting\<close>

lemma wait_locks [simp]: "locks (wait_set own on st) = locks st" "locks (wait_clr own st) = locks st"
  by (simp_all add: wait_set_def wait_clr_def split: option.splits)

lemma find_clash_wait [simp]:
  "find_clash (wait_set own' on st) = find_clash st" "find_clash (wait_clr own' st) = find_clash st"
  by (intro ext, simp add: find_clash_def)+

lemma flk_ok_wait [simp]: "flk_ok (wait_set own on st) = flk_ok st" "flk_ok (wait_clr own st) = flk_ok st"
  by (simp_all add: flk_ok_def)

text \<open>What the other tasks do while this one sleeps keeps the table well-formed.\<close>

definition calm :: "wake list \<Rightarrow> bool" where
  "calm wakes \<longleftrightarrow> (\<forall>(i, f)\<in>set wakes. \<forall>st. flk_ok st \<longrightarrow> flk_ok (f st))"

lemma flk_wait_ok:
  assumes "flk_ok st" and "calm wakes" and "flk_wait n kind own type s e w wakes st = Some (r, st')"
  shows "flk_ok st' \<and> (r = 0 \<and> find_clash st' n kind own type s e = None \<or> r \<in> {- EAGAIN, - EDEADLK, - EINTR})"
  using assms
proof (induction wakes arbitrary: st)
  case Nil
  then show ?case
    by (subst (asm) flk_wait.simps)
      (auto simp: Let_def split: option.splits if_splits)
next
  case (Cons v wakes)
  obtain i f where v: "v = (i, f)" by fastforce
  have c: "calm wakes" "\<And>st. flk_ok st \<Longrightarrow> flk_ok (f st)" using Cons.prems(2) v by (auto simp: calm_def)
  show ?case
  proof (cases "find_clash st n kind own type s e")
    case None
    then show ?thesis
      using Cons.prems by (subst (asm) flk_wait.simps) auto
  next
    case (Some k)
    have ok: "flk_ok (f (wait_set own (l_own k) st))" using c(2) Cons.prems(1) by simp
    show ?thesis
      using Cons.prems(1,3) Some Cons.IH [OF ok c(1)]
      by (subst (asm) flk_wait.simps) (auto simp: v Let_def split: if_splits)
  qed
qed

section \<open>Adding\<close>

lemma find_clash_None:
  "find_clash st n kind own type s e = None \<longleftrightarrow>
     (\<forall>l\<in>set (locks st). l_node l = n \<longrightarrow> \<not> clash l kind own type s e)"
  by (auto simp: find_clash_def find_None_iff)

lemma clash_sym: "clash l (l_kind k) (l_own k) (l_type k) (l_s k) (l_e k) = clash k (l_kind l) (l_own l) (l_type l) (l_s l) (l_e l)"
  by (auto simp: clash_def)

lemma add_lock_ok:
  assumes ok: "flk_ok st" and free: "find_clash st n kind own type s e = None" and range: "s \<le> e" "e \<le> EOF"
    and none: "\<And>x t. s \<le> x \<Longrightarrow> x \<le> e \<Longrightarrow> \<not> covers (locks st) n kind own x t"
  shows "flk_ok (snd (add_lock mem pid n kind own type s e st))"
proof -
  let ?l = "\<lparr>l_node = n, l_own = own, l_kind = kind, l_type = type, l_pid = pid, l_s = s, l_e = e\<rparr>"
  have "good ?l k" if k: "k \<in> set (locks st)" for k
  proof -
    have "l_node k = n \<Longrightarrow> \<not> clash ?l (l_kind k) (l_own k) (l_type k) (l_s k) (l_e k)"
      using free k by (subst clash_sym) (simp add: find_clash_None)
    moreover have "e < l_s k \<or> l_e k < s" if "mine n kind own k"
    proof -
      have "ranged k" using ok k by (simp add: flk_ok_def)
      then have "covers (locks st) n kind own (max s (l_s k)) (l_type k)" if "l_s k \<le> e" "s \<le> l_e k"
        using that \<open>mine n kind own k\<close> k by (auto simp: covers_def ranged_def intro!: bexI [of _ k])
      then show ?thesis using none [of "max s (l_s k)" "l_type k"] range by fastforce
    qed
    ultimately show ?thesis by (auto simp: good_def mine_def)
  qed
  then show ?thesis using ok range by (auto simp: add_lock_def flk_ok_def ranged_def)
qed

section \<open>The calls\<close>

definition int64 :: "int \<Rightarrow> bool" where
  "int64 x \<longleftrightarrow> - (2 ^ 63) \<le> x \<and> x < 2 ^ 63"

text \<open>The arguments are values of their C types.\<close>

definition arg_ok :: "open_file \<Rightarrow> flock_arg \<Rightarrow> bool" where
  "arg_ok f u \<longleftrightarrow> int64 (l_start u) \<and> int64 (l_len u) \<and> int64 (f_off f) \<and> int64 (f_size f)"

lemma s64_range: "int64 (s64 x)"
  by (simp add: int64_def s64_def)

lemma s64_exact: "int64 x \<Longrightarrow> s64 x = x"
  by (simp add: int64_def s64_def)

lemma flk_range_ok:
  assumes "arg_ok f u" and "flk_range f u = Inr (s, e)"
  shows "s \<le> e \<and> e \<le> EOF"
proof -
  define st where "st = (if l_whence u = 1 then s64 (l_start u + f_off f)
    else if l_whence u = 2 then s64 (l_start u + f_size f) else l_start u)"
  define len where "len = l_len u"
  have w: "(l_whence u \<notin> {0, 1, 2}) = False" using assms(2) by (auto simp: flk_range_def split: if_splits)
  have r: "(if len < 0 \<and> s64 (st + len) < 0 then Inl (- EINVAL) else if st < 0 then Inl (- EINVAL)
      else if len < 0 then Inr (u64 (st + len), sub64 (u64 st) 1)
      else Inr (u64 st, if len \<noteq> 0 then sub64 (add64 (u64 st) (u64 len)) 1 else EOF)) = Inr (s, e)"
    using assms(2) [unfolded flk_range_def w if_False Let_def, folded st_def len_def] .
  have st: "0 \<le> st" "st < 2 ^ 63" and len: "int64 len"
    using r assms(1) s64_range [of "l_start u + f_off f"] s64_range [of "l_start u + f_size f"]
    by (auto simp: st_def len_def arg_ok_def int64_def split: if_splits)
  have ust: "u64 st = nat st" "\<And>x. 0 \<le> x \<Longrightarrow> x < 2 ^ 63 \<Longrightarrow> u64 x = nat x"
    using st by (simp_all add: u64_def)
  show ?thesis
  proof (cases "len < 0")
    case True
    then have "s64 (st + len) = st + len" using st len by (intro s64_exact) (auto simp: int64_def)
    then have "0 \<le> st + len" "s = nat (st + len)" "e = nat st - 1"
      using r True st ust by (auto split: if_splits)
    then show ?thesis using True st by auto
  next
    case False
    then have "nat st + nat len < 2 ^ 64" using st len by (auto simp: int64_def)
    then have "s = nat st" "e = (if len \<noteq> 0 then nat st + nat len - 1 else EOF)"
      using r False st ust(1) ust(2) [of len] len by (auto simp: int64_def split: if_splits)
    moreover have "len \<noteq> 0 \<Longrightarrow> 1 \<le> nat len" using False by auto
    moreover have "a + b < 2 ^ 64 \<Longrightarrow> 1 \<le> b \<Longrightarrow> a \<le> a + b - 1 \<and> a + b - 1 \<le> EOF" for a b :: nat by auto
    ultimately show ?thesis using \<open>nat st + nat len < 2 ^ 64\<close> by (cases "len = 0") auto
  qed
qed

lemma cut_eq: "fst (cut mem n kind own s e st) = fst (cut_list mem n kind own s e (locks st))"
  "locks (snd (cut mem n kind own s e st)) = snd (cut_list mem n kind own s e (locks st))"
  by (simp_all add: cut_def)

lemma cut_ok: "flk_ok st \<Longrightarrow> s \<le> e \<Longrightarrow> flk_ok (snd (cut mem n kind own s e st))"
  using cut_list_sorted [of "locks st" s e mem n kind own] cut_list_shrunk [of "locks st"] shrunk_ranged
  by (fastforce simp: flk_ok_def cut_eq)

lemma cut_no_clash:
  assumes "flk_ok st" and "find_clash st n kind own type s e = None"
  shows "find_clash (snd (cut mem n kind own s' e' st)) n kind own type s e = None"
  unfolding find_clash_None
proof (intro ballI impI)
  fix l'
  assume l': "l' \<in> set (locks (snd (cut mem n kind own s' e' st)))" "l_node l' = n"
  then obtain l where l: "l \<in> set (locks st)" "shrunk l l'"
    using cut_list_shrunk [of "locks st" l' mem n kind own s' e'] assms(1) by (auto simp: flk_ok_def cut_eq)
  then show "\<not> clash l' kind own type s e"
    using assms(2) l'(2) by (fastforce simp: find_clash_None shrunk_def clash_def split: if_splits)
qed

text \<open>Setting a range once nothing clashes: cut it out of the owner's locks, then add it.\<close>

lemma cut_add_ok:
  assumes ok: "flk_ok st" and free: "find_clash st n kind own type s e = None" and range: "s \<le> e" "e \<le> EOF"
    and c: "cut mem n kind own s e st = (0, st1)" and a: "add_lock mem' pid n kind own type s e st1 = (r, st2)"
  shows "flk_ok st2" and "r = (if mem' then 0 else - ENOMEM)"
    and "covers (locks st2) n kind own x t \<longleftrightarrow>
      (if s \<le> x \<and> x \<le> e then mem' \<and> t = type else covers (locks st) n kind own x t)"
    and "filter (\<lambda>l. \<not> mine n kind own l) (locks st2) = filter (\<lambda>l. \<not> mine n kind own l) (locks st)"
proof -
  have st1: "st1 = snd (cut mem n kind own s e st)" and f: "fst (cut_list mem n kind own s e (locks st)) = 0"
    using c cut_eq(1) [of mem n kind own s e st] by simp_all
  have cv: "covers (locks st1) n kind own x t \<longleftrightarrow> covers (locks st) n kind own x t \<and> \<not> (s \<le> x \<and> x \<le> e)" for x t
    using cut_list_covers [OF _ _ range(1) f] ok by (simp add: st1 cut_eq flk_ok_def)
  have "flk_ok (snd (add_lock mem' pid n kind own type s e st1))"
    using cut_ok [OF ok range(1)] cut_no_clash [OF ok free] range cv by (intro add_lock_ok) (auto simp: st1)
  then show "flk_ok st2" using a by simp
  show "r = (if mem' then 0 else - ENOMEM)" using a by (auto simp: add_lock_def split: if_splits)
  show "covers (locks st2) n kind own x t \<longleftrightarrow>
      (if s \<le> x \<and> x \<le> e then mem' \<and> t = type else covers (locks st) n kind own x t)"
    using a cv by (auto simp: add_lock_def mine_def split: if_splits)
  have "filter (\<lambda>l. \<not> mine n kind own l) (locks st1) = filter (\<lambda>l. \<not> mine n kind own l) (locks st)"
    using cut_list_others by (simp add: st1 cut_eq)
  then show "filter (\<lambda>l. \<not> mine n kind own l) (locks st2) = filter (\<lambda>l. \<not> mine n kind own l) (locks st)"
    using a by (auto simp: add_lock_def mine_def split: if_splits)
qed

lemma flk_flock_ok:
  assumes ok: "flk_ok st" and calm: "calm wakes" and res: "flk_flock mem pid wakes f op st = Some (r, st')"
  shows "flk_ok st'"
proof -
  let ?n = "f_node f" and ?t = "op AND NOT 4"
  let ?ty = "of_bool (?t = 2) :: nat"
  consider "st' = st" | "st' = snd (cut (fst mem) ?n 0 (f_addr f) 0 EOF st)"
    | r1 st1 where "flk_wait ?n 0 (f_addr f) ?ty 0 EOF (op AND 4 = 0) wakes st = Some (r1, st1)"
      "st' = st1 \<and> r1 < 0 \<or> \<not> r1 < 0 \<and>
        st' = snd (add_lock (snd mem) pid ?n 0 (f_addr f) ?ty 0 EOF (snd (cut (fst mem) ?n 0 (f_addr f) 0 EOF st1)))"
    using res by (auto simp: flk_flock_def Let_def bind_eq_Some_conv split: if_splits)
  then show ?thesis
  proof cases
    case 1
    then show ?thesis using ok by simp
  next
    case 2
    then show ?thesis using cut_ok [OF ok] by simp
  next
    case (3 r1 st1)
    note w = flk_wait_ok [OF ok calm 3(1)]
    show ?thesis
    proof (cases "r1 < 0")
      case True
      then show ?thesis using 3 w by auto
    next
      case False
      then have free: "find_clash st1 ?n 0 (f_addr f) ?ty 0 EOF = None" and ok1: "flk_ok st1" using w by auto
      have "cut (fst mem) ?n 0 (f_addr f) 0 EOF st1 = (0, snd (cut (fst mem) ?n 0 (f_addr f) 0 EOF st1))"
        using cut_full [of "locks st1"] ok1 by (simp add: cut_def flk_ok_def)
      then show ?thesis using cut_add_ok(1) [OF ok1 free] 3(2) False by (metis le0 order_refl prod.collapse)
    qed
  qed
qed

text \<open>The owner and the kind of the lock that \<open>flk_fcntl\<close> works on.\<close>

definition fc_kind :: "nat \<Rightarrow> nat" where "fc_kind cmd = (if 36 \<le> cmd then 2 else 1)"
definition fc_own :: "nat \<Rightarrow> open_file \<Rightarrow> nat \<Rightarrow> nat" where "fc_own sh f cmd = (if 36 \<le> cmd then f_addr f else sh)"

text \<open>The guards of \<open>flk_fcntl\<close> passed: a request to set (0, 1) or clear (2) the range.\<close>

definition fc_valid :: "open_file \<Rightarrow> nat \<Rightarrow> flock_arg \<Rightarrow> nat \<Rightarrow> nat \<Rightarrow> bool" where
  "fc_valid f cmd u s e \<longleftrightarrow> f_is_node f \<and> 0 \<le> l_typ u \<and> l_typ u \<le> 2 \<and> (36 \<le> cmd \<longrightarrow> l_pidf u = 0) \<and>
     flk_range f u = Inr (s, e)"

definition fc_mode :: "open_file \<Rightarrow> flock_arg \<Rightarrow> bool" where
  "fc_mode f u \<longleftrightarrow> (l_typ u = 0 \<longrightarrow> f_flags f mod 4 \<noteq> 1) \<and> (l_typ u = 1 \<longrightarrow> f_flags f mod 4 \<noteq> 0)"

definition fc_set :: "bool \<times> bool \<Rightarrow> nat \<Rightarrow> nat \<Rightarrow> wake list \<Rightarrow> open_file \<Rightarrow> nat \<Rightarrow> flock_arg \<Rightarrow> nat \<Rightarrow> nat \<Rightarrow> flk_state
    \<Rightarrow> (int \<times> flk_state) option" where
  "fc_set mem sh pid wakes f cmd u s e st =
     Option.bind (flk_wait (f_node f) (fc_kind cmd) (fc_own sh f cmd) (nat (l_typ u)) s e (cmd \<in> {7, 14, 38}) wakes st)
       (\<lambda>(r, st1). if r < 0 then Some (r, st1)
          else (case cut (fst mem) (f_node f) (fc_kind cmd) (fc_own sh f cmd) s e st1 of (r, st2) \<Rightarrow>
                  if r < 0 then Some (r, st2)
                  else Some (add_lock (snd mem) pid (f_node f) (fc_kind cmd) (fc_own sh f cmd) (nat (l_typ u)) s e st2)))"

lemma fcntl_set:
  assumes "fc_valid f cmd u s e" and "l_typ u \<noteq> 2" and "fc_mode f u" and "cmd \<notin> {5, 12, 36}"
  shows "flk_fcntl mem sh pid wakes f cmd u st = map_option (\<lambda>(r, st'). (r, u, st')) (fc_set mem sh pid wakes f cmd u s e st)"
proof -
  have ty: "nat (l_typ u) = 0 \<longleftrightarrow> l_typ u = 0" "nat (l_typ u) = 1 \<longleftrightarrow> l_typ u = 1" "nat (l_typ u) = 2 \<longleftrightarrow> l_typ u = 2"
    "\<not> (l_typ u < 0 \<or> 2 < l_typ u)"
    using assms(1) by (auto simp: fc_valid_def)
  have ofd: "\<not> (36 \<le> cmd \<and> l_pidf u \<noteq> 0)" "f_is_node f" "flk_range f u = Inr (s, e)"
    using assms(1) by (auto simp: fc_valid_def)
  have c: "(cmd \<in> {5, 12, 36}) = False" using assms(4) by simp
  have m: "(nat (l_typ u) = 0 \<and> f_flags f mod 4 = 1) = False" "(nat (l_typ u) = 1 \<and> f_flags f mod 4 = 0) = False"
    "(nat (l_typ u) = 2) = False"
    using ty assms(2,3) by (auto simp: fc_mode_def)
  have g: "(l_typ u < 0 \<or> 2 < l_typ u) = False" "(36 \<le> cmd \<and> l_pidf u \<noteq> 0) = False" "(\<not> f_is_node f) = False"
    using ty ofd by auto
  show ?thesis
    unfolding flk_fcntl_def fc_set_def fc_kind_def [symmetric] fc_own_def [symmetric] Let_def g ofd(3) c m if_False
      sum.case prod.case
    by (cases "flk_wait (f_node f) (fc_kind cmd) (fc_own sh f cmd) (nat (l_typ u)) s e (cmd \<in> {7, 14, 38}) wakes st")
      (simp_all split: prod.splits)
qed

text \<open>Every other call either leaves the table alone or clears a range.\<close>

lemma fcntl_other:
  assumes no: "\<not> (\<exists>s e. fc_valid f cmd u s e \<and> l_typ u \<noteq> 2 \<and> fc_mode f u \<and> cmd \<notin> {5, 12, 36})"
    and res: "flk_fcntl mem sh pid wakes f cmd u st = Some (r, u', st')"
  shows "st' = st \<or> (\<exists>s e. fc_valid f cmd u s e \<and> l_typ u = 2 \<and>
    st' = snd (cut (fst mem) (f_node f) (fc_kind cmd) (fc_own sh f cmd) s e st))"
proof (cases "\<exists>s e. fc_valid f cmd u s e")
  case False
  then have "flk_fcntl mem sh pid wakes f cmd u st \<in> {Some (- EBADF, u, st), Some (- EINVAL, u, st)} \<or>
      (\<exists>er. flk_fcntl mem sh pid wakes f cmd u st = Some (er, u, st))"
    by (cases "flk_range f u") (auto simp: fc_valid_def flk_fcntl_def Let_def)
  then show ?thesis using res by auto
next
  case True
  then obtain s e where v: "fc_valid f cmd u s e" by blast
  then have g: "(l_typ u < 0 \<or> 2 < l_typ u) = False" "(36 \<le> cmd \<and> l_pidf u \<noteq> 0) = False" "(\<not> f_is_node f) = False"
    "flk_range f u = Inr (s, e)"
    by (auto simp: fc_valid_def)
  note eq = flk_fcntl_def [of mem sh pid wakes f cmd u st, unfolded fc_kind_def [symmetric] fc_own_def [symmetric] Let_def g if_False
      sum.case prod.case]
  show ?thesis
  proof (cases "cmd \<in> {5, 12, 36}")
    case True
    then show ?thesis using res unfolding eq by (auto split: option.splits)
  next
    case set: False
    show ?thesis
    proof (cases "l_typ u = 2")
      case True
      then have "nat (l_typ u) = 2" by simp
      then show ?thesis
        using res v set True unfolding eq by (auto split: prod.splits) (metis snd_conv)
    next
      case False
      then have "\<not> fc_mode f u" using no v set by blast
      then have "nat (l_typ u) = 0 \<and> f_flags f mod 4 = 1 \<or> nat (l_typ u) = 1 \<and> f_flags f mod 4 = 0"
        using False g(1) by (auto simp: fc_mode_def)
      then show ?thesis using res set unfolding eq by (auto split: if_splits)
    qed
  qed
qed

lemma fc_set_ok:
  assumes ok: "flk_ok st" and calm: "calm wakes" and range: "s \<le> e" "e \<le> EOF"
    and res: "fc_set mem sh pid wakes f cmd u s e st = Some (r, st')"
  shows "flk_ok st'"
proof -
  let ?n = "f_node f" and ?k = "fc_kind cmd" and ?o = "fc_own sh f cmd" and ?t = "nat (l_typ u)"
  obtain r1 st1 where w: "flk_wait ?n ?k ?o ?t s e (cmd \<in> {7, 14, 38}) wakes st = Some (r1, st1)"
    using res by (auto simp: fc_set_def bind_eq_Some_conv)
  note wok = flk_wait_ok [OF ok calm w]
  obtain r2 st2 where c: "cut (fst mem) ?n ?k ?o s e st1 = (r2, st2)" by fastforce
  have ok2: "flk_ok st2" using cut_ok [of st1 s e "fst mem" ?n ?k ?o] wok range(1) c by simp
  have eq: "(if r1 < 0 then Some (r1, st1) else if r2 < 0 then Some (r2, st2)
      else Some (add_lock (snd mem) pid ?n ?k ?o ?t s e st2)) = Some (r, st')"
    using res unfolding fc_set_def w Option.bind.simps prod.case c .
  show ?thesis
  proof (cases "r1 < 0 \<or> r2 < 0")
    case True
    then show ?thesis using eq wok ok2 by (auto split: if_splits)
  next
    case False
    then have "find_clash st1 ?n ?k ?o ?t s e = None" using wok by auto
    moreover have "r2 = 0"
      using False c cut_list_fails [of "fst mem" ?n ?k ?o s e "locks st1"] cut_eq(1) [of "fst mem" ?n ?k ?o s e st1] by fastforce
    moreover have "add_lock (snd mem) pid ?n ?k ?o ?t s e st2 = (r, st')" using eq False by simp
    ultimately show ?thesis using cut_add_ok(1) [OF _ _ range] wok c by blast
  qed
qed

lemma flk_fcntl_ok:
  assumes ok: "flk_ok st" and calm: "calm wakes" and arg: "arg_ok f u"
    and res: "flk_fcntl mem sh pid wakes f cmd u st = Some (r, u', st')"
  shows "flk_ok st'"
proof (cases "\<exists>s e. fc_valid f cmd u s e \<and> l_typ u \<noteq> 2 \<and> fc_mode f u \<and> cmd \<notin> {5, 12, 36}")
  case True
  then obtain s e where v: "fc_valid f cmd u s e" "l_typ u \<noteq> 2" "fc_mode f u" "cmd \<notin> {5, 12, 36}" by blast
  have "s \<le> e" "e \<le> EOF" using flk_range_ok [OF arg, of s e] v(1) by (auto simp: fc_valid_def)
  moreover have "fc_set mem sh pid wakes f cmd u s e st = Some (r, st')"
    using res fcntl_set [OF v] by auto
  ultimately show ?thesis using fc_set_ok [OF ok calm] by blast
next
  case False
  note o = fcntl_other [OF False res]
  have "flk_ok (snd (cut (fst mem) (f_node f) (fc_kind cmd) (fc_own sh f cmd) s e st))" if "fc_valid f cmd u s e" for s e
    using cut_ok [OF ok] flk_range_ok [OF arg, of s e] that by (simp add: fc_valid_def)
  then show ?thesis using o ok by blast
qed

section \<open>Any sequence of calls\<close>

datatype flk_call =
    Call_Flock "bool \<times> bool" nat "wake list" open_file u32
  | Call_Fcntl "bool \<times> bool" nat nat "wake list" open_file nat flock_arg
  | Call_Close nat "open_file option"
  | Call_Exit nat
  | Call_Release open_file

text \<open>A call that is still waiting has not changed the locks; arguments outside the C types do not occur.\<close>

fun flk_do :: "flk_call \<Rightarrow> flk_state \<Rightarrow> flk_state" where
  "flk_do (Call_Flock mem pid wakes f op) st =
     (if calm wakes then (case flk_flock mem pid wakes f op st of Some (_, st') \<Rightarrow> st' | None \<Rightarrow> st) else st)"
| "flk_do (Call_Fcntl mem sh pid wakes f cmd u) st =
     (if calm wakes \<and> arg_ok f u
      then (case flk_fcntl mem sh pid wakes f cmd u st of Some (_, _, st') \<Rightarrow> st' | None \<Rightarrow> st) else st)"
| "flk_do (Call_Close sh fo) st = flk_close sh fo st"
| "flk_do (Call_Exit sh) st = flk_exit sh st"
| "flk_do (Call_Release f) st = flk_release f st"

definition flk_boot :: "flk_state \<Rightarrow> bool" where
  "flk_boot st \<longleftrightarrow> locks st = [] \<and> wt st = replicate 32 (0, 0)"

lemma flk_do_ok: "flk_ok st \<Longrightarrow> flk_ok (flk_do c st)"
proof (cases c)
  case (Call_Flock mem pid wakes f op)
  assume "flk_ok st"
  then show ?thesis using Call_Flock flk_flock_ok [of st wakes mem pid f op] by (auto split: option.splits)
next
  case (Call_Fcntl mem sh pid wakes f cmd u)
  assume "flk_ok st"
  then show ?thesis
    using Call_Fcntl flk_fcntl_ok [of st wakes f u mem sh pid cmd] by (auto split: option.splits)
next
  case (Call_Close sh fo)
  assume "flk_ok st"
  then show ?thesis using Call_Close cut_ok by (auto simp: flk_close_def split: option.splits)
next
  case (Call_Exit sh)
  assume "flk_ok st"
  then show ?thesis using Call_Exit by (simp add: flk_exit_def)
next
  case (Call_Release f)
  assume "flk_ok st"
  then show ?thesis using Call_Release by (simp add: flk_release_def flk_ok_def sorted_wrt_filter)
qed

interpretation flk_run: kernel_component flk_boot flk_do flk_ok
  by unfold_locales (simp add: flk_boot_def flk_ok_def, rule flk_do_ok)

text \<open>C16: Mutual exclusion: after any sequence of lock calls no two locks in the table conflict (a
  conflict is two owners, overlapping ranges, at least one of them exclusive, both of \<open>flock\<close> or both of
  \<open>fcntl\<close> type), and the locks of one owner on one file never overlap.\<close>

theorem flk_exclusive:
  assumes "flk_boot st" and "i < j" and "j < length (locks (fold flk_do calls st))"
  shows "let l = locks (fold flk_do calls st) ! i; k = locks (fold flk_do calls st) ! j
    in l_node l = l_node k \<longrightarrow>
       \<not> clash l (l_kind k) (l_own k) (l_type k) (l_s k) (l_e k) \<and>
       (l_own l = l_own k \<and> l_kind l = l_kind k \<longrightarrow> l_e l < l_s k \<or> l_e k < l_s l)"
proof -
  have "flk_ok (fold flk_do calls st)" by (rule flk_run.run_inv [OF assms(1)])
  then have "good (locks (fold flk_do calls st) ! i) (locks (fold flk_do calls st) ! j)"
    using assms(2,3) by (auto simp: flk_ok_def sorted_wrt_iff_nth_less)
  then show ?thesis by (auto simp: good_def Let_def)
qed

text \<open>C5: A request of \<open>fcntl\<close> to set a range that conflicts with nobody answers 0 (if the kernel has
  memory) and changes the table byte by byte as promised: inside the range the owner now holds the new
  type and nothing else, outside it everything is as before, and nobody else's lock is touched. If it
  conflicts and the caller does not want to wait, it answers \<open>-EAGAIN\<close> and changes nothing.\<close>

theorem fcntl_set_exact:
  assumes ok: "flk_ok st" and arg: "arg_ok f u" and v: "fc_valid f cmd u s e" "l_typ u \<noteq> 2" "fc_mode f u"
    and cmd: "cmd \<in> {6, 13, 37}"
  shows "case find_clash st (f_node f) (fc_kind cmd) (fc_own sh f cmd) (nat (l_typ u)) s e of
      Some c \<Rightarrow> flk_fcntl (True, True) sh pid wakes f cmd u st = Some (- EAGAIN, u, st)
    | None \<Rightarrow> \<exists>st'. flk_fcntl (True, True) sh pid wakes f cmd u st = Some (0, u, st') \<and>
        (\<forall>x t. covers (locks st') (f_node f) (fc_kind cmd) (fc_own sh f cmd) x t \<longleftrightarrow>
           (if s \<le> x \<and> x \<le> e then t = nat (l_typ u)
            else covers (locks st) (f_node f) (fc_kind cmd) (fc_own sh f cmd) x t)) \<and>
        filter (\<lambda>l. \<not> mine (f_node f) (fc_kind cmd) (fc_own sh f cmd) l) (locks st') =
        filter (\<lambda>l. \<not> mine (f_node f) (fc_kind cmd) (fc_own sh f cmd) l) (locks st)"
proof -
  let ?n = "f_node f" and ?k = "fc_kind cmd" and ?o = "fc_own sh f cmd" and ?t = "nat (l_typ u)"
  have range: "s \<le> e" "e \<le> EOF" using flk_range_ok [OF arg, of s e] v(1) by (auto simp: fc_valid_def)
  have nw: "(cmd \<in> {7, 14, 38}) = False" "cmd \<notin> {5, 12, 36}" using cmd by auto
  note eq = fcntl_set [OF v nw(2), of "(True, True)" sh pid wakes st, unfolded fc_set_def nw(1) fst_conv snd_conv]
  show ?thesis
  proof (cases "find_clash st ?n ?k ?o ?t s e")
    case (Some c)
    then show ?thesis by (simp add: eq flk_wait.simps)
  next
    case None
    let ?st = "wait_clr ?o st"
    obtain r1 st1 where c: "cut True ?n ?k ?o s e ?st = (r1, st1)" by fastforce
    have "r1 = 0" using c cut_list_fails [of True ?n ?k ?o s e "locks ?st"] cut_eq(1) [of True ?n ?k ?o s e ?st] by force
    then have c: "cut True ?n ?k ?o s e ?st = (0, st1)" using c by simp
    obtain r2 st2 where a: "add_lock True pid ?n ?k ?o ?t s e st1 = (r2, st2)" by fastforce
    have "flk_ok ?st" "find_clash ?st ?n ?k ?o ?t s e = None" using ok None by simp_all
    note ca = cut_add_ok [OF this range c a]
    have "flk_fcntl (True, True) sh pid wakes f cmd u st = Some (0, u, st2)"
      using ca(2) None by (simp add: eq flk_wait.simps c a)
    then show ?thesis using None ca(3,4) by auto
  qed
qed

text \<open>C27: Clearing a range takes exactly the bytes of the range from the owner and touches nobody else. It
  can only fail with \<open>-ENOMEM\<close>, only when the range lies strictly inside one lock so that a second lock
  is needed, and then the table is unchanged.\<close>

theorem fcntl_clear_exact:
  assumes ok: "flk_ok st" and arg: "arg_ok f u" and v: "fc_valid f cmd u s e" "l_typ u = 2" and cmd: "cmd \<notin> {5, 12, 36}"
  shows "\<exists>r st'. flk_fcntl mem sh pid wakes f cmd u st = Some (r, u, st') \<and>
    (if r = 0 then
       (\<forall>x t. covers (locks st') (f_node f) (fc_kind cmd) (fc_own sh f cmd) x t \<longleftrightarrow>
          covers (locks st) (f_node f) (fc_kind cmd) (fc_own sh f cmd) x t \<and> \<not> (s \<le> x \<and> x \<le> e)) \<and>
       filter (\<lambda>l. \<not> mine (f_node f) (fc_kind cmd) (fc_own sh f cmd) l) (locks st') =
       filter (\<lambda>l. \<not> mine (f_node f) (fc_kind cmd) (fc_own sh f cmd) l) (locks st)
     else r = - ENOMEM \<and> \<not> fst mem \<and> locks st' = locks st \<and>
       (\<exists>l\<in>set (locks st). mine (f_node f) (fc_kind cmd) (fc_own sh f cmd) l \<and> l_s l < s \<and> e < l_e l))"
proof -
  let ?n = "f_node f" and ?k = "fc_kind cmd" and ?o = "fc_own sh f cmd"
  have range: "s \<le> e" using flk_range_ok [OF arg, of s e] v(1) by (auto simp: fc_valid_def)
  have g: "(l_typ u < 0 \<or> 2 < l_typ u) = False" "(36 \<le> cmd \<and> l_pidf u \<noteq> 0) = False" "(\<not> f_is_node f) = False"
    "flk_range f u = Inr (s, e)" "(cmd \<in> {5, 12, 36}) = False" "(nat (l_typ u) = 2) = True"
    using v cmd by (auto simp: fc_valid_def)
  obtain r st' where c: "cut (fst mem) ?n ?k ?o s e st = (r, st')" by fastforce
  have "flk_fcntl mem sh pid wakes f cmd u st = Some (r, u, st')"
    unfolding flk_fcntl_def fc_kind_def [symmetric] fc_own_def [symmetric] Let_def g if_False if_True sum.case prod.case c by simp
  moreover have l: "r = fst (cut_list (fst mem) ?n ?k ?o s e (locks st))" "locks st' = snd (cut_list (fst mem) ?n ?k ?o s e (locks st))"
    using c cut_eq [of "fst mem" ?n ?k ?o s e st] by simp_all
  moreover have "\<forall>x t. covers (locks st') ?n ?k ?o x t \<longleftrightarrow> covers (locks st) ?n ?k ?o x t \<and> \<not> (s \<le> x \<and> x \<le> e)" if "r = 0"
    using cut_list_covers [of "locks st" s e "fst mem" ?n ?k ?o] ok range l that by (simp add: flk_ok_def)
  moreover have "r = - ENOMEM \<and> \<not> fst mem \<and> locks st' = locks st \<and>
      (\<exists>l\<in>set (locks st). mine ?n ?k ?o l \<and> l_s l < s \<and> e < l_e l)" if "r \<noteq> 0"
    using cut_list_fails [of "fst mem" ?n ?k ?o s e "locks st"] cut_list_fail_keeps [of "locks st" s e "fst mem" ?n ?k ?o]
      ok range that unfolding l flk_ok_def by blast
  moreover have "filter (\<lambda>l. \<not> mine ?n ?k ?o l) (locks st') = filter (\<lambda>l. \<not> mine ?n ?k ?o l) (locks st)"
    using cut_list_others l(2) by simp
  ultimately show ?thesis by (cases "r = 0") (metis (no_types, lifting))+
qed

text \<open>C29: When memory runs out between the cut and the new lock, a request to set a range fails and yet the
  owner has lost what it held in the range.\<close>

theorem fcntl_enomem_loses:
  assumes ok: "flk_ok st" and arg: "arg_ok f u" and v: "fc_valid f cmd u s e" "l_typ u \<noteq> 2" "fc_mode f u"
    and cmd: "cmd \<in> {6, 13, 37}"
    and free: "find_clash st (f_node f) (fc_kind cmd) (fc_own sh f cmd) (nat (l_typ u)) s e = None"
    and x: "s \<le> x" "x \<le> e"
  shows "\<exists>st'. flk_fcntl (True, False) sh pid wakes f cmd u st = Some (- ENOMEM, u, st') \<and>
    (\<forall>t. \<not> covers (locks st') (f_node f) (fc_kind cmd) (fc_own sh f cmd) x t)"
proof -
  let ?n = "f_node f" and ?k = "fc_kind cmd" and ?o = "fc_own sh f cmd" and ?t = "nat (l_typ u)"
  let ?st = "wait_clr ?o st"
  have range: "s \<le> e" "e \<le> EOF" using flk_range_ok [OF arg, of s e] v(1) by (auto simp: fc_valid_def)
  have nw: "(cmd \<in> {7, 14, 38}) = False" "cmd \<notin> {5, 12, 36}" using cmd by auto
  note eq = fcntl_set [OF v nw(2), of "(True, False)" sh pid wakes st, unfolded fc_set_def nw(1) fst_conv snd_conv]
  obtain r1 st1 where c0: "cut True ?n ?k ?o s e ?st = (r1, st1)" by fastforce
  have "r1 = 0" using c0 cut_list_fails [of True ?n ?k ?o s e "locks ?st"] cut_eq(1) [of True ?n ?k ?o s e ?st] by force
  then have c: "cut True ?n ?k ?o s e ?st = (0, st1)" using c0 by simp
  obtain r2 st2 where a: "add_lock False pid ?n ?k ?o ?t s e st1 = (r2, st2)" by fastforce
  have "flk_ok ?st" "find_clash ?st ?n ?k ?o ?t s e = None" using ok free by simp_all
  note ca = cut_add_ok [OF this range c a]
  have "flk_fcntl (True, False) sh pid wakes f cmd u st = Some (- ENOMEM, u, st2)"
    using ca(2) free by (simp add: eq flk_wait.simps c a)
  then show ?thesis using ca(3) x by auto
qed

section \<open>Deadlocks\<close>

text \<open>Who waits for whom, as a relation; a table where every owner waits at most once, which is what
  \<open>wait_set\<close> and \<open>wait_clr\<close> leave; and that there is an entry left for \<open>own\<close>.\<close>

definition waits :: "(nat \<times> nat) list \<Rightarrow> (nat \<times> nat) set" where
  "waits ws = {(x, y) \<in> set ws. x \<noteq> 0 \<and> y \<noteq> 0}"

definition once :: "(nat \<times> nat) list \<Rightarrow> bool" where
  "once ws \<longleftrightarrow> (\<forall>i<length ws. \<forall>j<length ws. fst (ws ! i) = fst (ws ! j) \<and> fst (ws ! i) \<noteq> 0 \<longrightarrow> i = j)"

definition wait_room :: "nat \<Rightarrow> (nat \<times> nat) list \<Rightarrow> bool" where
  "wait_room own ws \<longleftrightarrow> own \<in> fst ` set ws \<or> 0 \<in> fst ` set ws"

lemma once_boot: "once (replicate n (0, 0))" by (simp add: once_def)

lemma once_unique: "once ws \<Longrightarrow> (x, y) \<in> set ws \<Longrightarrow> (x, z) \<in> set ws \<Longrightarrow> x \<noteq> 0 \<Longrightarrow> y = z"
  by (auto simp: once_def in_set_conv_nth)

lemma waits_on_none: "x \<notin> fst ` set ws \<Longrightarrow> waits_on x ws nx = nx"
  by (induction x ws nx rule: waits_on.induct) auto

lemma waits_on_hit: "x \<in> fst ` set ws \<Longrightarrow> (x, waits_on x ws nx) \<in> set ws"
proof (induction x ws nx rule: waits_on.induct)
  case (2 x w on ws nx)
  then show ?case by (cases "x \<in> fst ` set ws") (auto simp: waits_on_none)
qed simp

lemma waits_on_iff:
  assumes "once ws" "x \<noteq> 0" "y \<noteq> 0"
  shows "waits_on x ws 0 = y \<longleftrightarrow> (x, y) \<in> waits ws"
proof (cases "x \<in> fst ` set ws")
  case True
  then show ?thesis using waits_on_hit [OF True, of 0] once_unique [OF assms(1)] assms(2,3) by (auto simp: waits_def)
next
  case False
  then have "(x, y) \<notin> set ws" by (metis fst_conv image_eqI)
  then show ?thesis using waits_on_none [OF False] assms(3) by (auto simp: waits_def)
qed

lemma deadlock_loop_waits:
  assumes "once ws" "me \<noteq> 0"
  shows "on \<noteq> 0 \<Longrightarrow> deadlock_loop k ws me on \<longleftrightarrow> (\<exists>d<k. (on, me) \<in> waits ws ^^ d)"
proof (induction k arbitrary: on)
  case (Suc k)
  have ex: "(\<exists>d<Suc k. (on, me) \<in> waits ws ^^ d) \<longleftrightarrow> on = me \<or> (\<exists>y. (on, y) \<in> waits ws \<and> (\<exists>d<k. (y, me) \<in> waits ws ^^ d))"
    unfolding Ex_less_Suc2 by (auto simp: relpow_commute [symmetric] intro: relcompI)
  show ?case
  proof (cases "waits_on on ws 0 = 0")
    case True
    then have "\<nexists>y. (on, y) \<in> waits ws" using waits_on_iff [OF assms(1) Suc.prems] by (auto simp: waits_def)
    moreover have "\<not> deadlock_loop k ws me 0" by (cases k) simp_all
    ultimately show ?thesis unfolding ex using True Suc.prems by simp
  next
    case False
    then have "(on, y) \<in> waits ws \<longleftrightarrow> y = waits_on on ws 0" for y
      using waits_on_iff [OF assms(1) Suc.prems, of y] by (auto simp: waits_def)
    then show ?thesis unfolding ex using Suc.IH [OF False] Suc.prems by simp
  qed
qed simp

lemma wait_set_edges:
  assumes "once (wt st)" "wait_room me (wt st)" "me \<noteq> 0" "on \<noteq> 0"
  shows "once (wt (wait_set me on st))"
    and "(x, y) \<in> waits (wt (wait_set me on st)) \<longleftrightarrow> (if x = me then y = on else (x, y) \<in> waits (wt st))"
proof -
  obtain i where i: "i < length (wt st)" "wt (wait_set me on st) = (wt st)[i := (me, on)]"
    "fst (wt st ! i) = me \<or> fst (wt st ! i) = 0 \<and> me \<notin> fst ` set (wt st)"
  proof (cases "first_idx (\<lambda>(w, _). w = me) (wt st)")
    case None
    then have n: "me \<notin> fst ` set (wt st)" by (auto simp: first_idx_None)
    then obtain j where j: "first_idx (\<lambda>(w, _). w = 0) (wt st) = Some j"
      using assms(2) by (cases "first_idx (\<lambda>(w, _). w = 0) (wt st)") (auto simp: first_idx_None wait_room_def)
    then show ?thesis using that [of j] None n first_idx_SomeD [OF j] by (simp add: wait_set_def split_beta)
  next
    case (Some j)
    then show ?thesis using that [of j] first_idx_SomeD [OF Some] by (auto simp: wait_set_def split_beta)
  qed
  have u: "fst (wt st ! j) = me \<Longrightarrow> j < length (wt st) \<Longrightarrow> j = i" for j
    using i assms(1,3) by (auto simp: once_def)
  show "once (wt (wait_set me on st))"
    unfolding i(2) using assms(1) u i(1) unfolding once_def by (auto simp: nth_list_update split: if_splits)
  show "(x, y) \<in> waits (wt (wait_set me on st)) \<longleftrightarrow> (if x = me then y = on else (x, y) \<in> waits (wt st))"
    unfolding i(2) waits_def in_set_conv_nth using u i(1,3) assms(3,4)
    by (auto simp: nth_list_update in_set_conv_nth split: if_splits) (metis fst_conv less_irrefl)+
qed

lemma once_clr: "once (wt st) \<Longrightarrow> once (wt (wait_clr own st))"
  by (auto simp: once_def wait_clr_def split_beta)

text \<open>A way to \<open>me\<close> in the new table is one in the old table, if it stops at \<open>me\<close>.\<close>

lemma relpow_other:
  assumes "\<And>x y. x \<noteq> me \<Longrightarrow> (x, y) \<in> R \<longleftrightarrow> (x, y) \<in> S"
  shows "(x, me) \<in> R ^^ k \<Longrightarrow> \<exists>d\<le>k. (x, me) \<in> S ^^ d"
proof (induction k arbitrary: x)
  case (Suc k)
  show ?case
  proof (cases "x = me")
    case True
    then show ?thesis by (auto intro: exI [of _ 0])
  next
    case False
    obtain y where y: "(x, y) \<in> R" "(y, me) \<in> R ^^ k" using Suc.prems by (blast elim: relpow_Suc_E2)
    obtain d where "d \<le> k" "(y, me) \<in> S ^^ d" using Suc.IH [OF y(2)] by blast
    moreover have "(x, y) \<in> S" using y(1) assms [OF False] by blast
    ultimately show ?thesis using relpow_Suc_I2 by (metis Suc_le_mono)
  qed
qed auto

text \<open>C28: The deadlock test answers yes exactly if the caller, once entered in the table of waiters, would stand on a
  cycle of at most 16 owners who wait for each other; and the table in which every owner waits at most once stays so.
  The table of waiters has room for the caller (it is in it already or an entry is free), and no owner is 0, the mark
  of a free entry.\<close>

theorem deadlock_cycle:
  assumes "once (wt st)" "wait_room me (wt st)" "me \<noteq> 0" "on \<noteq> 0"
  shows "(deadlock me on st \<longleftrightarrow> (\<exists>k. 0 < k \<and> k \<le> 16 \<and> (me, me) \<in> waits (wt (wait_set me on st)) ^^ k)) \<and>
    once (wt (wait_set me on st)) \<and> once (wt (wait_clr me st))"
proof -
  let ?R = "waits (wt (wait_set me on st))" and ?S = "waits (wt st)"
  note e = wait_set_edges [OF assms]
  have "(me, y) \<in> ?R \<longleftrightarrow> y = on" for y using e(2) [of me y] by simp
  then have "(me, me) \<in> ?R ^^ Suc d \<longleftrightarrow> (on, me) \<in> ?R ^^ d" for d by (metis relpow_Suc_E2 relpow_Suc_I2)
  then have "(\<exists>k. 0 < k \<and> k \<le> 16 \<and> (me, me) \<in> ?R ^^ k) \<longleftrightarrow> (\<exists>d<16. (on, me) \<in> ?R ^^ d)"
    by (metis Suc_le_eq gr0_implies_Suc zero_less_Suc)
  also have "\<dots> \<longleftrightarrow> (\<exists>d<16. (on, me) \<in> ?S ^^ d)"
    using relpow_other [of me ?R ?S on] relpow_other [of me ?S ?R on] e(2) by (meson le_less_trans)
  also have "\<dots> \<longleftrightarrow> deadlock me on st" using deadlock_loop_waits [OF assms(1,3,4)] by (simp add: deadlock_def)
  finally show ?thesis using e(1) once_clr [OF assms(1)] by blast
qed

section \<open>The text of the table\<close>

lemma utoa_digits_length: "v < 10 ^ n \<Longrightarrow> length (utoa_digits 10 v) \<le> n"
proof (induction n arbitrary: v)
  case 0
  then show ?case by (subst utoa_digits.simps) simp
next
  case (Suc n)
  then have "v div 10 < 10 ^ n" by (simp add: less_mult_imp_div_less)
  from Suc.IH [OF this] show ?case by (subst utoa_digits.simps) simp
qed

lemma num_text_length: "length (num_text v) \<le> 10"
proof -
  have "v mod 2 ^ 32 < 2 ^ 32" by simp
  also have "(2 :: nat) ^ 32 < 10 ^ 10" by simp
  finally have "v mod 2 ^ 32 < 10 ^ 10" .
  then have "length (utoa_digits 10 (v mod 2 ^ 32)) \<le> 10" by (rule utoa_digits_length)
  then show ?thesis by (simp add: num_text_def utoa_def reverse_rev)
qed

lemma flk_text_loop_length: "length b \<le> cap \<Longrightarrow> length (flk_text_loop cap k b ls) \<le> cap"
  by (induction ls arbitrary: k b) auto

text \<open>C30: The text for \<open>/proc/locks\<close> never exceeds the buffer of the caller, and no line exceeds the 160
  bytes it is composed in.\<close>

theorem flk_text_fits: "length (flk_text cap st) \<le> cap \<and> length (flk_line k l) \<le> 160"
proof
  show "length (flk_text cap st) \<le> cap" by (simp add: flk_text_def flk_text_loop_length)
  let ?a = "if l_kind l = 0 then ''FLOCK  ADVISORY  '' else if l_kind l = 2 then ''OFDLCK ADVISORY  '' else ''POSIX  ADVISORY  ''"
  let ?b = "if l_type l \<noteq> 0 then ''WRITE '' else ''READ  ''" and ?c = "if l_e l = EOF then ''EOF'' else num_text (l_e l)"
  have "length ?a \<le> 17" "length ?b \<le> 6" "length ?c \<le> 10" using num_text_length [of "l_e l"] by auto
  moreover have "length '': '' = 2" "length '' 00:01:'' = 7" "length '' '' = 1" "length [CHR 0x0A] = 1" by simp_all
  ultimately show "length (flk_line k l) \<le> 160"
    using num_text_length [of k] num_text_length [of "l_pid l"] num_text_length [of "l_node l div 16 mod 2 ^ 28"]
      num_text_length [of "l_s l"]
    unfolding flk_line_def length_append by linarith
qed

section \<open>Examples\<close>

text \<open>Process 7 holds bytes 0 to 99 of file 16 shared; process 8 asks for bytes 50 to 59.\<close>

definition ex_file :: open_file where
  "ex_file = \<lparr>f_addr = 500, f_is_node = True, f_node = 16, f_off = 0, f_size = 100, f_flags = 2\<rparr>"

definition ex_arg :: "int \<Rightarrow> flock_arg" where
  "ex_arg t = \<lparr>l_typ = t, l_whence = 0, l_start = 50, l_len = 10, l_pidf = 0\<rparr>"

definition ex_state :: flk_state where
  "ex_state = \<lparr>locks = [\<lparr>l_node = 16, l_own = 7, l_kind = 1, l_type = 0, l_pid = 7, l_s = 0, l_e = 99\<rparr>],
     wt = replicate 32 (0, 0)\<rparr>"

lemma ex_facts:
  "flk_ok ex_state" "arg_ok ex_file (ex_arg t)" "0 \<le> t \<and> t \<le> 2 \<Longrightarrow> fc_valid ex_file 6 (ex_arg t) 50 59"
  "fc_mode ex_file (ex_arg t)"
  by (simp_all add: flk_ok_def ranged_def ex_state_def arg_ok_def int64_def ex_file_def ex_arg_def fc_valid_def
      flk_range_def u64_def fc_mode_def)

lemma flk_exclusive_witness:
  "flk_boot \<lparr>locks = [], wt = replicate 32 (0, 0)\<rparr> \<and>
   (let calls = [Call_Fcntl (True, True) 7 7 [] ex_file 6 (ex_arg 0), Call_Fcntl (True, True) 8 8 [] ex_file 6 (ex_arg 0)];
        st = fold flk_do calls \<lparr>locks = [], wt = replicate 32 (0, 0)\<rparr>
    in length (locks st) = 2 \<and>
       \<not> clash (locks st ! 0) (l_kind (locks st ! 1)) (l_own (locks st ! 1)) (l_type (locks st ! 1)) (l_s (locks st ! 1)) (l_e (locks st ! 1)))"
proof -
  let ?init = "\<lparr>locks = [], wt = replicate 32 (0, 0)\<rparr>"
  let ?calls = "[Call_Fcntl (True, True) 7 7 [] ex_file 6 (ex_arg 0), Call_Fcntl (True, True) 8 8 [] ex_file 6 (ex_arg 0)]"
  let ?st = "fold flk_do ?calls ?init"
  have b: "flk_boot ?init" by (simp add: flk_boot_def)
  let ?l = "\<lambda>q. \<lparr>l_node = 16, l_own = q, l_kind = 1, l_type = 0, l_pid = q, l_s = 50, l_e = 59\<rparr>"
  have g: "calm []" "arg_ok ex_file (ex_arg 0)" "flk_range ex_file (ex_arg 0) = Inr (50, 59)"
    by (simp_all add: calm_def ex_facts) (simp add: flk_range_def ex_arg_def u64_def)
  have s1: "flk_do (?calls ! 0) ?init = ?init\<lparr>locks := [?l 7], wt := replicate 32 (0, 0)\<rparr>"
    using g by (simp add: flk_fcntl_def ex_file_def ex_arg_def flk_wait.simps find_clash_def cut_def add_lock_def wait_clr_def)
  have s2: "flk_do (?calls ! 1) (?init\<lparr>locks := [?l 7], wt := replicate 32 (0, 0)\<rparr>) =
      ?init\<lparr>locks := [?l 8, ?l 7], wt := replicate 32 (0, 0)\<rparr>"
    using g by (simp add: flk_fcntl_def ex_file_def ex_arg_def flk_wait.simps find_clash_def cut_def add_lock_def wait_clr_def
        clash_def mine_def)
  define st where "st = ?st"
  have "map l_node (locks st) = [16, 16]" using s1 s2 by (simp add: st_def del: flk_do.simps)
  then have n: "length (locks st) = 2" "locks st ! 0 \<in> set (locks st)" "l_node (locks st ! 0) = l_node (locks st ! 1)"
    by (auto simp: map_eq_Cons_conv)
  show ?thesis using flk_exclusive [OF b, of 0 1 ?calls, folded st_def] n b unfolding Let_def st_def [symmetric] by auto
qed

lemma fcntl_set_exact_witness:
  "flk_ok ex_state \<and> arg_ok ex_file (ex_arg 1) \<and> fc_valid ex_file 6 (ex_arg 1) 50 59 \<and> fc_mode ex_file (ex_arg 1) \<and>
   flk_fcntl (True, True) 8 8 [] ex_file 6 (ex_arg 1) ex_state = Some (- EAGAIN, ex_arg 1, ex_state) \<and>
   (\<exists>st'. flk_fcntl (True, True) 7 7 [] ex_file 6 (ex_arg 1) ex_state = Some (0, ex_arg 1, st') \<and> covers (locks st') 16 1 7 55 1)"
proof -
  have t: "l_typ (ex_arg 1) \<noteq> 2" "(6::nat) \<in> {6, 13, 37}" by (simp_all add: ex_arg_def)
  have f: "\<exists>c. find_clash ex_state 16 1 8 1 50 59 = Some c" "find_clash ex_state 16 1 7 1 50 59 = None"
    by (simp_all add: find_clash_def clash_def ex_state_def)
  have v: "fc_valid ex_file 6 (ex_arg 1) 50 59" by (simp add: ex_facts)
  note th = fcntl_set_exact [OF ex_facts(1,2) v t(1) ex_facts(4) t(2)]
  have k: "fc_kind 6 = 1" "f_node ex_file = 16" "nat (l_typ (ex_arg 1)) = 1" "\<And>sh. fc_own sh ex_file 6 = sh"
    by (simp_all add: fc_kind_def fc_own_def ex_file_def ex_arg_def)
  show ?thesis using th [of 8 8 "[]"] th [of 7 7 "[]"] f v ex_facts unfolding k by auto
qed

lemma fcntl_clear_exact_witness:
  "flk_ok ex_state \<and> arg_ok ex_file (ex_arg 2) \<and> fc_valid ex_file 6 (ex_arg 2) 50 59 \<and>
   (\<exists>r st'. flk_fcntl (True, True) 7 7 [] ex_file 6 (ex_arg 2) ex_state = Some (r, ex_arg 2, st') \<and>
      r = 0 \<and> \<not> covers (locks st') 16 1 7 55 0 \<and> covers (locks st') 16 1 7 49 0)"
proof -
  have t: "l_typ (ex_arg 2) = 2" "(6::nat) \<notin> {5, 12, 36}" by (simp_all add: ex_arg_def)
  have v: "fc_valid ex_file 6 (ex_arg 2) 50 59" by (simp add: ex_facts)
  have k: "fc_kind 6 = 1" "f_node ex_file = 16" "\<And>sh. fc_own sh ex_file 6 = sh"
    by (simp_all add: fc_kind_def fc_own_def ex_file_def)
  have c: "covers (locks ex_state) 16 1 7 x 0 \<longleftrightarrow> x \<le> 99" for x by (simp add: ex_state_def mine_def)
  show ?thesis using fcntl_clear_exact [OF ex_facts(1,2) v t, of "(True, True)" 7 7 "[]"] v ex_facts c unfolding k
    by (auto split: if_splits)
qed

lemma fcntl_enomem_loses_witness:
  "flk_ok ex_state \<and> covers (locks ex_state) 16 1 7 55 0 \<and>
   (\<exists>st'. flk_fcntl (True, False) 7 7 [] ex_file 6 (ex_arg 1) ex_state = Some (- ENOMEM, ex_arg 1, st') \<and>
      (\<forall>t. \<not> covers (locks st') 16 1 7 55 t))"
proof -
  have t: "l_typ (ex_arg 1) \<noteq> 2" "(6::nat) \<in> {6, 13, 37}" by (simp_all add: ex_arg_def)
  have v: "fc_valid ex_file 6 (ex_arg 1) 50 59" by (simp add: ex_facts)
  have k: "fc_kind 6 = 1" "f_node ex_file = 16" "nat (l_typ (ex_arg 1)) = 1" "\<And>sh. fc_own sh ex_file 6 = sh"
    by (simp_all add: fc_kind_def fc_own_def ex_file_def ex_arg_def)
  have f: "find_clash ex_state 16 1 7 1 50 59 = None" by (simp add: find_clash_def clash_def ex_state_def)
  have c: "covers (locks ex_state) 16 1 7 55 0" by (simp add: ex_state_def mine_def)
  show ?thesis
    using fcntl_enomem_loses [OF ex_facts(1,2) v t(1) ex_facts(4) t(2), of 7 55 7 "[]"] f c ex_facts(1) unfolding k by simp
qed

lemma deadlock_cycle_witness:
  "deadlock 8 7 \<lparr>locks = [], wt = [(7, 9), (9, 8), (0, 0)]\<rparr> \<and>
   (\<exists>k. 0 < k \<and> k \<le> 16 \<and> (8, 8) \<in> waits (wt (wait_set 8 7 \<lparr>locks = [], wt = [(7, 9), (9, 8), (0, 0)]\<rparr>)) ^^ k)"
proof -
  have o: "once [(7, 9), (9, 8), (0, 0)]" by (simp add: once_def less_Suc_eq all_conj_distrib) 
  have "deadlock 8 7 \<lparr>locks = [], wt = [(7, 9), (9, 8), (0, 0)]\<rparr>" by (simp add: deadlock_def numeral_eq_Suc)
  then show ?thesis using deadlock_cycle [of "\<lparr>locks = [], wt = [(7, 9), (9, 8), (0, 0)]\<rparr>" 8 7] o by (simp add: wait_room_def)
qed

end
