(* ===== verification/Seccomp.thy ===== *)
theory Seccomp
  imports Kernel_Prelude
begin

text \<open>
  \<open>src/src/proc/seccomp.c\<close>: strict mode and classic BPF filters in front of every system call. A filter
  is checked once, by \<open>valid\<close>, when it is loaded, and run on the 64 bytes that describe the call every
  time; the chain of filters of a process is linked through \<open>prev\<close> and shared between threads with
  reference counts.
\<close>

section \<open>Instructions\<close>

record sock_filter =
  code :: u16
  jt :: nat
  jf :: nat
  kk :: u32

definition op_class :: "u16 \<Rightarrow> u16" where "op_class c = c AND 7"

definition LD :: u16 where "LD = 0"
definition LDX :: u16 where "LDX = 1"
definition ST :: u16 where "ST = 2"
definition STX :: u16 where "STX = 3"
definition ALU :: u16 where "ALU = 4"
definition JMP :: u16 where "JMP = 5"
definition RET :: u16 where "RET = 6"
definition MISC :: u16 where "MISC = 7"

lemmas op_defs = LD_def LDX_def ST_def STX_def ALU_def JMP_def RET_def MISC_def

abbreviation RET_KILL_PROC :: u32 where "RET_KILL_PROC \<equiv> 0x80000000"
abbreviation RET_KILL :: u32 where "RET_KILL \<equiv> 0"
abbreviation RET_TRAP :: u32 where "RET_TRAP \<equiv> 0x00030000"
abbreviation RET_ERRNO :: u32 where "RET_ERRNO \<equiv> 0x00050000"
abbreviation RET_TRACE :: u32 where "RET_TRACE \<equiv> 0x7ff00000"
abbreviation RET_LOG :: u32 where "RET_LOG \<equiv> 0x7ffc0000"
abbreviation RET_ALLOW :: u32 where "RET_ALLOW \<equiv> 0x7fff0000"

section \<open>The check at load time\<close>

text \<open>The \<open>switch\<close> of \<open>valid\<close> for instruction \<open>i\<close> of \<open>n\<close>.\<close>

definition valid_insn :: "nat \<Rightarrow> nat \<Rightarrow> sock_filter \<Rightarrow> bool" where
  "valid_insn n i f =
     (let c = code f; k = kk f in
      if op_class c = LD then
        \<not> (c AND 0xe0 = 0x40 \<or> c AND 0xe0 = 0xa0) \<and>
        \<not> (c AND 0xe0 = 0x20 \<and> 64 \<le> k) \<and>
        \<not> (c AND 0xe0 = 0x60 \<and> 16 \<le> k)
      else if op_class c = LDX then \<not> (c AND 0xe0 = 0x60 \<and> 16 \<le> k)
      else if op_class c = ST \<or> op_class c = STX then \<not> 16 \<le> k
      else if op_class c = ALU then
        \<not> (c AND 0xf0 = 0x30 \<and> c AND 8 = 0 \<and> k = 0) \<and>
        \<not> (c AND 0xf0 = 0x90 \<and> c AND 8 = 0 \<and> k = 0)
      else if op_class c = JMP then
        (if c AND 0xf0 = 0 then \<not> n - i - 1 \<le> unat k
         else \<not> (n \<le> i + 1 + jt f \<or> n \<le> i + 1 + jf f))
      else True)"

text \<open>A filter of length 0 would be read before its start; \<open>load\<close> refuses it first.\<close>

definition valid :: "sock_filter list \<Rightarrow> bool" where
  "valid fs \<longleftrightarrow> (\<forall>i<length fs. valid_insn (length fs) i (fs ! i)) \<and> fs \<noteq> [] \<and> op_class (code (last fs)) = RET"

section \<open>The interpreter\<close>

record bpf =
  regA :: u32
  regX :: u32
  memM :: "u32 list"

text \<open>One turn of the loop: the filter returned, control goes on at \<open>pc\<close> (the loop's own \<open>pc++\<close> included),
  or the code reads outside the 64 bytes of its data.\<close>

datatype outcome = Verdict u32 | Goes_On int bpf | Out_Of_Bounds

definition pc_add :: "int \<Rightarrow> u32 \<Rightarrow> int" where
  "pc_add pc k = sint (word_of_int pc + k :: u32) + 1"

fun load_abs :: "u8 list \<Rightarrow> nat \<Rightarrow> nat \<Rightarrow> u32" where
  "load_abs d k 0 = 0"
| "load_abs d k (Suc n) = load_abs d k n OR push_bit (8 * n) (ucast (d ! (k + n)))"

definition step_ld :: "u8 list \<Rightarrow> int \<Rightarrow> sock_filter \<Rightarrow> bpf \<Rightarrow> outcome" where
  "step_ld d pc f s =
     (let c = code f; k = kk f in
      if c AND 0xe0 = 0x20 then
        (let sz = (if c AND 0x18 = 0 then 4 else if c AND 0x18 = 8 then 2 else 1 :: nat) in
         if 64 < k + of_nat sz then Verdict RET_KILL
         else if length d < unat k + sz then Out_Of_Bounds
         else Goes_On (pc + 1) (s\<lparr>regA := load_abs d (unat k) sz\<rparr>))
      else if c AND 0xe0 = 0 then Goes_On (pc + 1) (s\<lparr>regA := k\<rparr>)
      else if c AND 0xe0 = 0x60 then Goes_On (pc + 1) (s\<lparr>regA := memM s ! unat (k AND 15)\<rparr>)
      else if c AND 0xe0 = 0x80 then Goes_On (pc + 1) (s\<lparr>regA := 64\<rparr>)
      else Verdict RET_KILL)"

definition step_ldx :: "int \<Rightarrow> sock_filter \<Rightarrow> bpf \<Rightarrow> outcome" where
  "step_ldx pc f s =
     (let c = code f; k = kk f in
      if c AND 0xe0 = 0 then Goes_On (pc + 1) (s\<lparr>regX := k\<rparr>)
      else if c AND 0xe0 = 0x60 then Goes_On (pc + 1) (s\<lparr>regX := memM s ! unat (k AND 15)\<rparr>)
      else if c AND 0xe0 = 0x80 then Goes_On (pc + 1) (s\<lparr>regX := 64\<rparr>)
      else Verdict RET_KILL)"

definition step_alu :: "int \<Rightarrow> sock_filter \<Rightarrow> bpf \<Rightarrow> outcome" where
  "step_alu pc f s =
     (let c = code f; v = (if c AND 8 \<noteq> 0 then regX s else kk f); A = regA s;
          ok = (\<lambda>r. Goes_On (pc + 1) (s\<lparr>regA := r\<rparr>)); o' = c AND 0xf0 in
      if o' = 0 then ok (A + v)
      else if o' = 0x10 then ok (A - v)
      else if o' = 0x20 then ok (A * v)
      else if o' = 0x30 then (if v = 0 then Verdict RET_KILL else ok (A div v))
      else if o' = 0x40 then ok (A OR v)
      else if o' = 0x50 then ok (A AND v)
      else if o' = 0x60 then ok (push_bit (unat (v AND 31)) A)
      else if o' = 0x70 then ok (drop_bit (unat (v AND 31)) A)
      else if o' = 0x80 then ok (- A)
      else if o' = 0x90 then (if v = 0 then Verdict RET_KILL else ok (A mod v))
      else if o' = 0xa0 then ok (A XOR v)
      else Verdict RET_KILL)"

definition step_jmp :: "int \<Rightarrow> sock_filter \<Rightarrow> bpf \<Rightarrow> outcome" where
  "step_jmp pc f s =
     (let c = code f; v = (if c AND 8 \<noteq> 0 then regX s else kk f); A = regA s;
          br = (\<lambda>b. Goes_On (pc + 1 + int (if b then jt f else jf f)) s); o' = c AND 0xf0 in
      if o' = 0 then Goes_On (pc_add pc (kk f)) s
      else if o' = 0x10 then br (A = v)
      else if o' = 0x20 then br (v < A)
      else if o' = 0x30 then br (v \<le> A)
      else if o' = 0x40 then br (A AND v \<noteq> 0)
      else Verdict RET_KILL)"

definition step :: "u8 list \<Rightarrow> int \<Rightarrow> sock_filter \<Rightarrow> bpf \<Rightarrow> outcome" where
  "step d pc f s =
     (let c = code f; k = kk f in
      if op_class c = LD then step_ld d pc f s
      else if op_class c = LDX then step_ldx pc f s
      else if op_class c = ST then Goes_On (pc + 1) (s\<lparr>memM := (memM s)[unat (k AND 15) := regA s]\<rparr>)
      else if op_class c = STX then Goes_On (pc + 1) (s\<lparr>memM := (memM s)[unat (k AND 15) := regX s]\<rparr>)
      else if op_class c = ALU then step_alu pc f s
      else if op_class c = JMP then step_jmp pc f s
      else if op_class c = RET then Verdict (if c AND 0x18 = 0x10 then regA s else k)
      else if c AND 0xf8 = 0 then Goes_On (pc + 1) (s\<lparr>regX := regA s\<rparr>)
      else Goes_On (pc + 1) (s\<lparr>regA := regX s\<rparr>))"

text \<open>The loop of \<open>run\<close>. \<open>None\<close> is a filter that runs forever, \<open>Some None\<close> a read out of bounds (of the data or, at
  a negative \<open>pc\<close>, of the program).\<close>

partial_function (option) run_loop :: "sock_filter list \<Rightarrow> u8 list \<Rightarrow> int \<Rightarrow> bpf \<Rightarrow> u32 option option" where
  "run_loop fs d pc s =
     (if int (length fs) \<le> pc then Some (Some RET_KILL)
      else if pc < 0 then Some None
      else case step d pc (fs ! nat pc) s of
             Verdict v \<Rightarrow> Some (Some v)
           | Out_Of_Bounds \<Rightarrow> Some None
           | Goes_On pc' s' \<Rightarrow> run_loop fs d pc' s')"

definition run :: "sock_filter list \<Rightarrow> u8 list \<Rightarrow> u32 option option" where
  "run fs d = run_loop fs d 0 \<lparr>regA = 0, regX = 0, memM = replicate 16 0\<rparr>"

section \<open>Filters and processes\<close>

text \<open>The filters live at addresses; 0 is NULL. A process keeps the newest filter of its chain.\<close>

record sfilt =
  refs :: int
  insn :: "sock_filter list"
  prev :: nat

record sproc =
  alive :: bool
  tgid :: nat
  sf :: nat
  sc_mode :: nat
  nnp :: bool
  sys_nr :: int
  sys_ip :: u64
  sys_err :: int
  sys_sig :: bool
  sig_mask :: u64
  sig_pending :: u64
  sa31 :: nat

text \<open>\<open>procs\<close> is what \<open>proc_at\<close> gives, with NULL entries; \<open>cur\<close> is the index of \<open>proc_current\<close>.\<close>

record sc_state =
  filts :: "nat \<rightharpoonup> sfilt"
  procs :: "sproc option list"
  cur :: nat

record regs =
  rax :: u64
  rip :: u64
  args :: "u64 list"

definition sc_dup :: "nat \<Rightarrow> (nat \<rightharpoonup> sfilt) \<Rightarrow> (nat \<rightharpoonup> sfilt)" where
  "sc_dup f fl = (case fl f of Some x \<Rightarrow> fl(f \<mapsto> x\<lparr>refs := refs x + 1\<rparr>) | None \<Rightarrow> fl)"

text \<open>The loop ends the first time a count stays above 0; \<open>None\<close> is a cyclic chain.\<close>

partial_function (option) sc_put :: "nat \<Rightarrow> (nat \<rightharpoonup> sfilt) \<Rightarrow> (nat \<rightharpoonup> sfilt) option" where
  "sc_put f fl =
     (case fl f of
        None \<Rightarrow> Some fl
      | Some x \<Rightarrow> if refs x = 1 then sc_put (prev x) (fl(f := None))
                  else Some (fl(f \<mapsto> x\<lparr>refs := refs x - 1\<rparr>)))"

section \<open>The check of a system call\<close>

definition le_bytes :: "nat \<Rightarrow> u64 \<Rightarrow> u8 list" where
  "le_bytes n w = map (\<lambda>i. ucast (drop_bit (8 * i) w)) [0..<n]"

definition seccomp_data :: "regs \<Rightarrow> u8 list" where
  "seccomp_data r = le_bytes 4 (rax r) @ le_bytes 4 0xC000003E @ le_bytes 8 (rip r) @ concat (map (le_bytes 8) (args r))"

definition action :: "u32 \<Rightarrow> u32" where "action v = v AND 0xffff0000"

partial_function (option) best_loop :: "(nat \<rightharpoonup> sfilt) \<Rightarrow> u8 list \<Rightarrow> nat \<Rightarrow> u32 \<Rightarrow> u32 option option" where
  "best_loop fl d f best =
     (case fl f of
        None \<Rightarrow> Some (Some best)
      | Some x \<Rightarrow>
          (case run (insn x) d of
             None \<Rightarrow> None
           | Some None \<Rightarrow> Some None
           | Some (Some v) \<Rightarrow> best_loop fl d (prev x) (if sint (action v) < sint (action best) then v else best)))"

text \<open>What the process does next: 0, 1, 2 and 3 of the code.\<close>

datatype sc_answer = Let_It_Run | Answered | Sigsys | Dies

definition sc_act :: "u32 \<Rightarrow> regs \<Rightarrow> sproc \<Rightarrow> sc_answer \<times> regs \<times> sproc" where
  "sc_act best r p =
     (let act = action best; data = best AND 0xffff in
      if act = RET_ALLOW \<or> act = RET_LOG then (Let_It_Run, r, p)
      else if act = RET_ERRNO then (Answered, r\<lparr>rax := - ucast (if 4095 < data then 4095 else data)\<rparr>, p)
      else if act = RET_TRAP then
        (Sigsys, r, p\<lparr>sys_nr := sint (ucast (rax r) :: u32), sys_ip := rip r, sys_err := sint data\<rparr>)
      else if act = RET_KILL \<or> act = RET_KILL_PROC then (Dies, r, p)
      else (Answered, r\<lparr>rax := - 38\<rparr>, p))"

definition sc_check :: "(nat \<rightharpoonup> sfilt) \<Rightarrow> sproc \<Rightarrow> regs \<Rightarrow> (sc_answer \<times> regs \<times> sproc) option option" where
  "sc_check fl p r =
     (if sc_mode p = 1 then
        Some (Some (if rax r \<in> {0, 1, 60, 231, 15} then Let_It_Run else Dies, r, p))
      else map_option (map_option (\<lambda>best. sc_act best r p)) (best_loop fl (seccomp_data r) (sf p) RET_ALLOW))"

text \<open>\<open>sc_trap\<close> up to the call of \<open>proc_deliver_signal\<close>; \<open>None\<close> is the process exiting instead.\<close>

definition sc_trap :: "regs \<Rightarrow> sproc \<Rightarrow> (regs \<times> sproc) option" where
  "sc_trap r p =
     (let r1 = r\<lparr>rax := - 38\<rparr>; p1 = p\<lparr>sig_mask := sig_mask p AND NOT (push_bit 30 1)\<rparr> in
      if sa31 p \<le> 1 then None
      else Some (r1, p1\<lparr>sys_sig := True, sig_pending := sig_pending p OR push_bit 30 1\<rparr>))"

section \<open>Loading filters\<close>

definition get_insn :: "(nat \<Rightarrow> u8) \<Rightarrow> nat \<Rightarrow> sock_filter" where
  "get_insn m a = \<lparr>code = of_nat (le_nat m a 2), jt = unat (m (a + 2)), jf = unat (m (a + 3)), kk = of_nat (le_nat m (a + 4) 4)\<rparr>"

text \<open>\<open>user_ok\<close> and the bytes of user memory are arguments, and so are the two addresses that \<open>kmalloc\<close> gives, 0
  for no memory. A new filter and its address, or the error.\<close>

definition load :: "(nat \<Rightarrow> nat \<Rightarrow> bool) \<Rightarrow> (nat \<Rightarrow> u8) \<Rightarrow> nat \<times> nat \<Rightarrow> nat \<Rightarrow> int + nat \<times> sfilt" where
  "load user_ok m addr uprog =
     (if \<not> user_ok uprog 16 then Inl (- 14)
      else (let len = le_nat m uprog 2; up = le_nat m (uprog + 8) 8 in
        if len = 0 \<or> 4096 < len then Inl (- 22)
        else if \<not> user_ok up (len * 8) then Inl (- 14)
        else if fst addr = 0 \<or> snd addr = 0 then Inl (- 12)
        else (let f = map (\<lambda>i. get_insn m (up + 8 * i)) [0..<len] in
          if \<not> valid f then Inl (- 22)
          else Inr (snd addr, \<lparr>refs = 1, insn = f, prev = 0\<rparr>))))"

text \<open>The loop over the process table for \<open>TSYNC\<close>.\<close>

fun tsync :: "nat \<Rightarrow> nat \<Rightarrow> nat \<Rightarrow> nat \<Rightarrow> sproc option list \<Rightarrow> (nat \<rightharpoonup> sfilt) \<Rightarrow> (sproc option list \<times> (nat \<rightharpoonup> sfilt)) option" where
  "tsync me tg nf i [] fl = Some ([], fl)"
| "tsync me tg nf i (q # qs) fl =
     (case q of
        Some x \<Rightarrow>
          if i = me \<or> \<not> alive x \<or> tgid x \<noteq> tg then map_option (map_prod (Cons q) id) (tsync me tg nf (Suc i) qs fl)
          else Option.bind (sc_put (sf x) (sc_dup nf fl)) (\<lambda>fl1.
                 map_option (map_prod (Cons (Some (x\<lparr>sf := nf, sc_mode := 2, nnp := True\<rparr>))) id) (tsync me tg nf (Suc i) qs fl1))
      | None \<Rightarrow> map_option (map_prod (Cons q) id) (tsync me tg nf (Suc i) qs fl))"

definition set_proc :: "nat \<Rightarrow> sproc \<Rightarrow> sc_state \<Rightarrow> sc_state" where
  "set_proc i p st = st\<lparr>procs := (procs st)[i := Some p]\<rparr>"

text \<open>\<open>None\<close> is a call that does not return (or has no current process).\<close>

definition sc_seccomp ::
  "(nat \<Rightarrow> nat \<Rightarrow> bool) \<Rightarrow> (nat \<Rightarrow> u8) \<Rightarrow> nat \<times> nat \<Rightarrow> nat \<Rightarrow> u64 \<Rightarrow> nat \<Rightarrow> sc_state \<Rightarrow> (int \<times> sc_state) option" where
  "sc_seccomp user_ok m addr op fl uargs st =
     (case procs st ! cur st of
        None \<Rightarrow> None
      | Some p \<Rightarrow>
          if op = 0 then (if fl \<noteq> 0 then Some (- 22, st) else Some (0, set_proc (cur st) (p\<lparr>sc_mode := 1\<rparr>) st))
          else if op = 2 then
            (if \<not> user_ok uargs 4 then Some (- 14, st)
             else (let a = of_nat (le_nat m uargs 4) in
               Some (if a \<in> {RET_KILL_PROC, RET_KILL, RET_TRAP, RET_ERRNO, RET_TRACE, RET_LOG, RET_ALLOW} then 0 else - 22, st)))
          else if op \<noteq> 1 then Some (- 22, st)
          else if fl AND NOT 0x1f \<noteq> 0 then Some (- 22, st)
          else if fl AND 8 \<noteq> 0 then Some (- 22, st)
          else if sc_mode p = 1 then Some (- 22, st)
          else (case load user_ok m addr uargs of
                  Inl er \<Rightarrow> Some (er, st)
                | Inr (nf, x) \<Rightarrow>
                    let st1 = set_proc (cur st) (p\<lparr>sf := nf, sc_mode := 2\<rparr>) (st\<lparr>filts := (filts st)(nf \<mapsto> x\<lparr>prev := sf p\<rparr>)\<rparr>) in
                    if fl AND 1 = 0 then Some (0, st1)
                    else map_option (\<lambda>(ps, fl'). (0, st1\<lparr>procs := ps, filts := fl'\<rparr>))
                           (tsync (cur st) (tgid p) nf 0 (procs st1) (filts st1))))"

definition sc_prctl ::
  "(nat \<Rightarrow> nat \<Rightarrow> bool) \<Rightarrow> (nat \<Rightarrow> u8) \<Rightarrow> nat \<times> nat \<Rightarrow> nat \<Rightarrow> nat \<Rightarrow> nat \<Rightarrow> sc_state \<Rightarrow> (int \<times> sc_state) option" where
  "sc_prctl user_ok m addr op a b st =
     (case procs st ! cur st of
        None \<Rightarrow> None
      | Some p \<Rightarrow>
          if op = 38 then Some (0, set_proc (cur st) (p\<lparr>nnp := True\<rparr>) st)
          else if op = 39 then Some (of_bool (nnp p), st)
          else if op = 21 then Some (int (sc_mode p), st)
          else if op = 22 then
            (if a = 1 then sc_seccomp user_ok m addr 0 0 0 st
             else if a = 2 then sc_seccomp user_ok m addr 1 0 b st
             else Some (- 22, st))
          else Some (0, st))"

end
