(* ===== verification/Seccomp_Correct.thy ===== *)
theory Seccomp_Correct
  imports Seccomp
begin

text \<open>
  What \<open>src/src/proc/seccomp.c\<close> guarantees: a filter that passed \<open>valid\<close> always comes to a verdict and never
  reads outside its program or its data, the verdict of a chain is the most restrictive of its filters,
  and the reference counts of shared filters equal the number of their holders.
\<close>

section \<open>Valid filters come to a verdict\<close>

lemma op_class_cases: "op_class c \<in> {LD, LDX, ST, STX, ALU, JMP, RET, MISC}"
proof -
  have "unat (c AND 7) < 8" using word_and_le1 [of c 7] by (simp add: word_le_nat_alt)
  then have "unat (c AND 7) \<in> {0, 1, 2, 3, 4, 5, 6, 7}" by auto
  then show ?thesis by (auto simp: op_class_def op_defs word_unat_eq_iff)
qed

lemma abs_bound:
  assumes "\<not> 64 \<le> (k::u32)" and "sz \<le> 4" and "\<not> 64 < k + of_nat sz"
  shows "unat k + sz \<le> 64"
proof -
  have "unat k < 64" using assms(1) by (simp add: word_le_nat_alt not_le)
  then have "unat (k + of_nat sz) = unat k + sz" using assms(2) by (simp add: unat_word_ariths unsigned_of_nat take_bit_nat_eq_self)
  then show ?thesis using assms(3) by (simp add: word_less_nat_alt)
qed

lemma pc_add_exact:
  assumes "i + unat k < 2 ^ 31"
  shows "pc_add (int i) k = int (i + unat k + 1)"
proof -
  have "(word_of_int (int i) + k :: u32) = of_nat (i + unat k)" by simp
  moreover have "sint (of_nat m :: u32) = int m" if "m < 2 ^ 31" for m
    using that by (simp add: signed_of_nat signed_take_bit_int_eq_self)
  then have "sint (of_nat (i + unat k) :: u32) = int (i + unat k)" using assms by blast
  ultimately show ?thesis by (simp add: pc_add_def)
qed

lemma step_valid:
  assumes v: "valid_insn n i f" and n: "n \<le> 4096" and d: "length d = 64"
    and i: "i < n" "op_class (code f) \<noteq> RET \<Longrightarrow> i + 1 < n"
  shows "(\<exists>x. step d (int i) f s = Verdict x) \<or> (\<exists>j s'. i < j \<and> j < n \<and> step d (int i) f s = Goes_On (int j) s')"
proof -
  have next_insn: "int i + 1 = int (i + 1)" by simp
  have on: "(\<exists>x. Goes_On (int i + 1) s' = Verdict x) \<or> (\<exists>j s''. i < j \<and> j < n \<and> Goes_On (int i + 1) s' = Goes_On (int j) s'')"
    if "op_class (code f) \<noteq> RET" for s'
    using i(2) [OF that] by (metis next_insn less_add_one)
  consider "op_class (code f) = LD" | "op_class (code f) = LDX" | "op_class (code f) = ST" | "op_class (code f) = STX"
    | "op_class (code f) = ALU" | "op_class (code f) = JMP" | "op_class (code f) = RET" | "op_class (code f) = MISC"
    using op_class_cases [of "code f"] by blast
  then show ?thesis
  proof cases
    case 1
    have nr: "op_class (code f) \<noteq> RET" using 1 by (simp add: op_defs)
    show ?thesis
    proof (cases "code f AND 0xe0 = 0x20")
      case True
      then have k: "\<not> 64 \<le> kk f" using v 1 by (simp add: valid_insn_def Let_def)
      have "\<not> 64 < kk f + of_nat sz \<Longrightarrow> sz \<le> 4 \<Longrightarrow> \<not> length d < unat (kk f) + sz" for sz
        using abs_bound [OF k] d by fastforce
      then show ?thesis using True 1 on [OF nr] by (auto simp: step_def step_ld_def Let_def)
    next
      case False
      then show ?thesis using 1 on [OF nr] by (auto simp: step_def step_ld_def Let_def)
    qed
  next
    case 6
    then have nr: "op_class (code f) \<noteq> RET" by (simp add: op_defs)
    show ?thesis
    proof (cases "code f AND 0xf0 = 0")
      case True
      then have k: "unat (kk f) < n - i - 1" using v 6 by (simp add: valid_insn_def Let_def op_defs)
      then have "pc_add (int i) (kk f) = int (i + unat (kk f) + 1)" using n by (intro pc_add_exact) simp
      moreover have "i + unat (kk f) + 1 < n" using k by linarith
      ultimately show ?thesis
        using True 6 by (auto simp: step_def step_jmp_def Let_def op_defs intro!: exI [of _ "i + unat (kk f) + 1"])
    next
      case False
      then have j: "i + 1 + jt f < n" "i + 1 + jf f < n" using v 6 by (auto simp: valid_insn_def Let_def op_defs)
      have br: "\<exists>j s'. i < j \<and> j < n \<and> Goes_On (int i + 1 + int (if b then jt f else jf f)) s = Goes_On (int j) s'" for b
        using j by (intro exI [of _ "i + 1 + (if b then jt f else jf f)"]) auto
      have s: "step d (int i) f s = step_jmp (int i) f s" using 6 by (simp add: step_def Let_def op_defs)
      show ?thesis unfolding s step_jmp_def Let_def using False br by simp
    qed
  next
    case 5
    then have nr: "op_class (code f) \<noteq> RET" by (simp add: op_defs)
    then show ?thesis using 5 on [OF nr] by (simp add: step_def step_alu_def Let_def op_defs)
  qed (use on in \<open>auto simp: step_def step_ldx_def Let_def op_defs\<close>)
qed

lemma run_loop_valid:
  assumes v: "valid fs" and n: "length fs \<le> 4096" and d: "length d = 64" and i: "i < length fs"
  shows "\<exists>x. run_loop fs d (int i) s = Some (Some x)"
  using i
proof (induction "length fs - i" arbitrary: i s rule: less_induct)
  case less
  have "op_class (code (fs ! i)) \<noteq> RET \<Longrightarrow> i + 1 < length fs"
    using v less.prems by (cases "i = length fs - 1") (auto simp: valid_def last_conv_nth)
  then have "(\<exists>x. step d (int i) (fs ! i) s = Verdict x) \<or>
      (\<exists>j s'. i < j \<and> j < length fs \<and> step d (int i) (fs ! i) s = Goes_On (int j) s')"
    using v n d less.prems by (intro step_valid) (auto simp: valid_def)
  then show ?case
  proof (elim disjE exE conjE)
    fix x
    assume "step d (int i) (fs ! i) s = Verdict x"
    then show ?thesis using less.prems by (subst run_loop.simps) simp
  next
    fix j s'
    assume j: "i < j" "j < length fs" "step d (int i) (fs ! i) s = Goes_On (int j) s'"
    then have "\<exists>x. run_loop fs d (int j) s' = Some (Some x)" using less.prems by (intro less.hyps) auto
    then show ?thesis using j less.prems by (subst run_loop.simps) simp
  qed
qed

text \<open>C6: A filter that \<open>valid\<close> accepts, of a length that \<open>load\<close> accepts, always comes to a verdict on the 64
  bytes of a system call: it neither runs forever nor reads outside its program or its data.\<close>

theorem run_valid:
  assumes "valid fs" and "length fs \<le> 4096" and "length d = 64"
  shows "\<exists>x. run fs d = Some (Some x)"
  using run_loop_valid [OF assms, of 0] assms(1) by (simp add: run_def valid_def)

section \<open>Reference counts\<close>

text \<open>\<open>links fl f\<close> counts the filters whose \<open>prev\<close> is \<open>f\<close>. \<open>counted ext fl\<close>: every count is the number of links plus
  the number \<open>ext f\<close> of holders outside the store, nothing refers to a filter that is gone.\<close>

definition linked :: "(nat \<rightharpoonup> sfilt) \<Rightarrow> nat \<Rightarrow> nat set" where
  "linked fl f = {g. \<exists>y. fl g = Some y \<and> prev y = f}"

definition counted :: "(nat \<Rightarrow> nat) \<Rightarrow> (nat \<rightharpoonup> sfilt) \<Rightarrow> bool" where
  "counted ext fl \<longleftrightarrow> finite (dom fl) \<and> fl 0 = None \<and>
     (\<forall>f x. fl f = Some x \<longrightarrow> refs x = int (ext f + card (linked fl f)) \<and> 0 < ext f + card (linked fl f)) \<and>
     (\<forall>f. f \<noteq> 0 \<longrightarrow> (0 < ext f \<or> linked fl f \<noteq> {}) \<longrightarrow> f \<in> dom fl)"

lemma linked_finite: "finite (dom fl) \<Longrightarrow> finite (linked fl f)"
  by (rule finite_subset [of _ "dom fl"]) (auto simp: linked_def)

lemma linked_refs [simp]: "fl f = Some x \<Longrightarrow> linked (fl(f \<mapsto> x\<lparr>refs := r\<rparr>)) g = linked fl g"
  by (auto simp: linked_def)

lemma linked_del: "linked (fl(f := None)) g = linked fl g - {f}"
  by (auto simp: linked_def)

lemma linked_new: "fl f = None \<Longrightarrow> linked (fl(f \<mapsto> x)) g = (if prev x = g then insert f (linked fl g) else linked fl g)"
  by (auto simp: linked_def)

lemma countedD:
  assumes "counted ext fl"
  shows "finite (dom fl)" and "fl 0 = None" and "finite (linked fl f)"
    and "fl f = Some x \<Longrightarrow> f \<noteq> 0 \<and> refs x = int (ext f + card (linked fl f)) \<and> 0 < ext f + card (linked fl f)"
    and "f \<noteq> 0 \<Longrightarrow> 0 < ext f \<Longrightarrow> f \<in> dom fl" and "f \<noteq> 0 \<Longrightarrow> g \<in> linked fl f \<Longrightarrow> f \<in> dom fl"
proof -
  have all: "\<forall>f x. fl f = Some x \<longrightarrow> refs x = int (ext f + card (linked fl f)) \<and> 0 < ext f + card (linked fl f)"
    and own: "\<forall>f. f \<noteq> 0 \<longrightarrow> (0 < ext f \<or> linked fl f \<noteq> {}) \<longrightarrow> f \<in> dom fl"
    and f: "finite (dom fl)" and z: "fl 0 = None"
    using assms unfolding counted_def by - (elim conjE, assumption)+
  show "finite (dom fl)" "fl 0 = None" by (rule f, rule z)
  show "finite (linked fl f)" by (rule linked_finite [OF f])
  show "f \<noteq> 0 \<and> refs x = int (ext f + card (linked fl f)) \<and> 0 < ext f + card (linked fl f)" if "fl f = Some x"
  proof
    show "f \<noteq> 0" using z that by (metis option.distinct(1))
    show "refs x = int (ext f + card (linked fl f)) \<and> 0 < ext f + card (linked fl f)"
      by (rule all [rule_format, OF that])
  qed
  show "f \<noteq> 0 \<Longrightarrow> 0 < ext f \<Longrightarrow> f \<in> dom fl" "f \<noteq> 0 \<Longrightarrow> g \<in> linked fl f \<Longrightarrow> f \<in> dom fl"
    using own by blast+
qed

lemma counted_refs:
  assumes c: "counted ext fl" and x: "fl f = Some x" and r: "r = int (e + card (linked fl f))" "0 < e + card (linked fl f)"
  shows "counted (ext(f := e)) (fl(f \<mapsto> x\<lparr>refs := r\<rparr>))"
  unfolding counted_def linked_refs [of fl f x, OF x]
  using c x r countedD(4) [OF c x] unfolding counted_def by auto

lemma sc_dup_counted:
  assumes "counted ext fl" and "f \<in> dom fl"
  shows "counted (ext(f := ext f + 1)) (sc_dup f fl)"
proof -
  obtain x where x: "fl f = Some x" using assms(2) by blast
  then show ?thesis
    using counted_refs [OF assms(1) x, of "refs x + 1" "ext f + 1"] countedD(4) [OF assms(1) x] by (simp add: sc_dup_def)
qed

lemma counted_unlink:
  assumes c: "counted ext fl" and x: "fl f = Some x" and one: "refs x = 1" and held: "0 < ext f"
  shows "counted ((ext(f := 0))(prev x := (ext(f := 0)) (prev x) + 1)) (fl(f := None))"
proof -
  have "ext f + card (linked fl f) = 1" using one countedD(4) [OF c x] by linarith
  then have e1: "ext f = 1" "card (linked fl f) = 0" using held by linarith+
  then have e: "ext f = 1" "linked fl f = {}" using countedD(3) [OF c, of f] by simp_all
  have px: "prev x \<noteq> f" using e(2) x by (auto simp: linked_def)
  have lp: "f \<in> linked fl (prev x)" using x by (auto simp: linked_def)
  have other: "f \<notin> linked fl g" if "g \<noteq> prev x" for g using x that by (auto simp: linked_def)
  have card: "card (linked fl (prev x) - {f}) + 1 = card (linked fl (prev x))"
    using lp card_Suc_Diff1 [OF countedD(3) [OF c], of f "prev x"] by simp
  show ?thesis
    unfolding counted_def linked_del
  proof (intro conjI allI impI)
    show "finite (dom (fl(f := None)))" "(fl(f := None)) 0 = None" using c by (auto simp: counted_def)
  next
    fix g y
    assume g: "(fl(f := None)) g = Some y"
    then have y: "g \<noteq> f" "fl g = Some y" by (auto split: if_splits)
    note d = countedD(4) [OF c y(2)]
    show "refs y = int (((ext(f := 0))(prev x := (ext(f := 0)) (prev x) + 1)) g + card (linked fl g - {f}))"
      "0 < ((ext(f := 0))(prev x := (ext(f := 0)) (prev x) + 1)) g + card (linked fl g - {f})"
      using d card px y(1) other [of g] by (cases "g = prev x"; simp add: Diff_insert0)+
  next
    fix g
    assume g: "g \<noteq> 0" "0 < ((ext(f := 0))(prev x := (ext(f := 0)) (prev x) + 1)) g \<or> linked fl g - {f} \<noteq> {}"
    have "g \<noteq> f" using g(2) e(2) px by auto
    moreover have "0 < ext g \<or> linked fl g \<noteq> {}" using g(2) lp by (auto split: if_splits)
    then have "g \<in> dom fl" using countedD(5,6) [OF c g(1)] by blast
    ultimately show "g \<in> dom (fl(f := None))" by auto
  qed
qed

lemma counted_0: "counted ext fl \<Longrightarrow> counted (ext(0 := n)) fl"
  unfolding counted_def by (metis fun_upd_other option.distinct(1))

text \<open>Dropping one holder of \<open>f\<close> frees exactly the part of the chain that nobody else holds, and always ends.\<close>

lemma sc_put_counted:
  assumes "counted ext fl" and "f \<noteq> 0 \<Longrightarrow> 0 < ext f"
  shows "\<exists>fl'. sc_put f fl = Some fl' \<and> counted (ext(f := ext f - 1)) fl' \<and>
    dom fl' \<subseteq> dom fl \<and> (\<forall>g x'. fl' g = Some x' \<longrightarrow> (\<exists>x. fl g = Some x \<and> insn x' = insn x \<and> prev x' = prev x))"
  using assms
proof (induction "card (dom fl)" arbitrary: ext fl f rule: less_induct)
  case less
  show ?case
  proof (cases "fl f")
    case None
    then have "f = 0" using less.prems(2) countedD(5) [OF less.prems(1), of f] by blast
    moreover have "sc_put f fl = Some fl" using None by (subst sc_put.simps) simp
    ultimately show ?thesis using less.prems counted_0 by auto
  next
    case (Some x)
    note r = countedD(4) [OF less.prems(1) Some]
    then have f0: "f \<noteq> 0" "0 < ext f" using less.prems(2) by auto
    show ?thesis
    proof (cases "refs x = 1")
      case False
      then have "counted (ext(f := ext f - 1)) (fl(f \<mapsto> x\<lparr>refs := refs x - 1\<rparr>))"
        using r f0 by (intro counted_refs [OF less.prems(1) Some]) auto
      moreover have "sc_put f fl = Some (fl(f \<mapsto> x\<lparr>refs := refs x - 1\<rparr>))"
        using Some False by (subst sc_put.simps) simp
      ultimately show ?thesis using Some by (auto split: if_splits)
    next
      case True
      let ?e = "(ext(f := 0))(prev x := (ext(f := 0)) (prev x) + 1)" and ?fl = "fl(f := None)"
      have c: "counted ?e ?fl" by (rule counted_unlink [OF less.prems(1) Some True f0(2)])
      have "card (dom ?fl) < card (dom fl)"
        using less.prems(1) Some by (intro psubset_card_mono) (auto simp: counted_def)
      from less.hyps [OF this c, of "prev x"] obtain fl' where
        fl': "sc_put (prev x) ?fl = Some fl'" "counted (?e(prev x := ?e (prev x) - 1)) fl'" "dom fl' \<subseteq> dom ?fl"
        "\<forall>g y. fl' g = Some y \<longrightarrow> (\<exists>z. ?fl g = Some z \<and> insn y = insn z \<and> prev y = prev z)" by auto
      have e1: "ext f = 1" using True r f0(2) by simp
      have "?e(prev x := ?e (prev x) - 1) = ext(f := ext f - 1)" using e1 by (auto simp: fun_eq_iff)
      moreover have "sc_put f fl = Some fl'" using Some True fl'(1) by (subst sc_put.simps) simp
      ultimately show ?thesis using fl'(2-4) by (auto split: if_splits) blast+
    qed
  qed
qed

text \<open>How many processes have \<open>f\<close> as their newest filter.\<close>

definition holds :: "nat \<Rightarrow> sproc option \<Rightarrow> bool" where
  "holds f q \<longleftrightarrow> (case q of Some x \<Rightarrow> sf x = f | None \<Rightarrow> False)"

definition held :: "sproc option list \<Rightarrow> nat \<Rightarrow> nat" where
  "held ps f = length (filter (holds f) ps)"

lemma held_simps [simp]: "held [] f = 0" "held (q # ps) f = of_bool (holds f q) + held ps f"
  "held (ps @ qs) f = held ps f + held qs f"
  by (simp_all add: held_def)

lemma holds_simps [simp]: "holds f (Some x) \<longleftrightarrow> sf x = f" "\<not> holds f None"
  by (simp_all add: holds_def)

text \<open>The same programs and links, apart from counts and freed filters.\<close>

definition substore :: "(nat \<rightharpoonup> sfilt) \<Rightarrow> (nat \<rightharpoonup> sfilt) \<Rightarrow> bool" where
  "substore fl fl' \<longleftrightarrow> (\<forall>g x'. fl' g = Some x' \<longrightarrow> (\<exists>x. fl g = Some x \<and> insn x' = insn x \<and> prev x' = prev x))"

lemma substore_refl: "substore fl fl"
  by (simp add: substore_def)

lemma substore_trans: "substore fl fl1 \<Longrightarrow> substore fl1 fl2 \<Longrightarrow> substore fl fl2"
  unfolding substore_def by metis

lemma sc_dup_substore: "substore fl (sc_dup f fl)"
  by (auto simp: substore_def sc_dup_def split: option.splits if_splits)

lemma sc_put_ok:
  assumes "counted ext fl" and "f \<noteq> 0 \<Longrightarrow> 0 < ext f"
  obtains fl' where "sc_put f fl = Some fl'" "counted (ext(f := ext f - 1)) fl'" "substore fl fl'"
  using sc_put_counted [OF assms] unfolding substore_def by blast

lemma tsync_ok:
  assumes "counted (held (qd @ qs)) fl" and "0 < held (qd @ qs) nf" and "nf \<noteq> 0"
  shows "\<exists>ps fl'. tsync me tg nf i qs fl = Some (ps, fl') \<and> counted (held (qd @ ps)) fl' \<and> substore fl fl' \<and>
    length ps = length qs \<and> (\<forall>j<length qs. i + j = me \<longrightarrow> ps ! j = qs ! j)"
  using assms(1,2)
proof (induction qs arbitrary: qd fl i)
  case Nil
  then show ?case by (simp add: substore_refl)
next
  case (Cons q qs)
  have shift: "(\<forall>j<length (q # qs). i + j = me \<longrightarrow> (y # ps) ! j = (q # qs) ! j) \<longleftrightarrow>
      (i = me \<longrightarrow> y = q) \<and> (\<forall>j<length qs. Suc i + j = me \<longrightarrow> ps ! j = qs ! j)" for y ps
    by (simp add: All_less_Suc2)
  show ?case
  proof (cases "\<exists>x. q = Some x \<and> \<not> (i = me \<or> \<not> alive x \<or> tgid x \<noteq> tg)")
    case False
    then have t: "tsync me tg nf i (q # qs) fl = map_option (map_prod (Cons q) id) (tsync me tg nf (Suc i) qs fl)"
      by (cases q) auto
    have "counted (held ((qd @ [q]) @ qs)) fl" "0 < held ((qd @ [q]) @ qs) nf"
      using Cons.prems unfolding append_assoc append_Cons append_Nil by blast+
    from Cons.IH [OF this, of "Suc i"] show ?thesis unfolding t by (auto simp: All_less_Suc2)
  next
    case True
    then obtain x where x: "q = Some x" "i \<noteq> me" "alive x" "tgid x = tg" by auto
    let ?E = "held (qd @ q # qs)" and ?y = "Some (x\<lparr>sf := nf, sc_mode := 2, nnp := True\<rparr>)"
    have d: "counted (?E(nf := ?E nf + 1)) (sc_dup nf fl)"
      by (rule sc_dup_counted [OF Cons.prems(1) countedD(5) [OF Cons.prems(1) assms(3) Cons.prems(2)]])
    have "sf x \<noteq> 0 \<Longrightarrow> 0 < (?E(nf := ?E nf + 1)) (sf x)" using x by simp
    from sc_put_ok [OF d this] obtain fl1 where fl1: "sc_put (sf x) (sc_dup nf fl) = Some fl1"
      "counted ((?E(nf := ?E nf + 1))(sf x := (?E(nf := ?E nf + 1)) (sf x) - 1)) fl1" "substore (sc_dup nf fl) fl1" by blast
    have e: "(?E(nf := ?E nf + 1))(sf x := (?E(nf := ?E nf + 1)) (sf x) - 1) = held ((qd @ [?y]) @ qs)"
      using x by (auto simp: fun_eq_iff)
    have t: "tsync me tg nf i (q # qs) fl = map_option (map_prod (Cons ?y) id) (tsync me tg nf (Suc i) qs fl1)"
      using x fl1(1) by simp
    have sub: "substore fl fl1" using substore_trans [OF sc_dup_substore fl1(3)] .
    from Cons.IH [OF fl1(2) [unfolded e], of "Suc i"] show ?thesis
      unfolding t using x(2) substore_trans [OF sub] by (auto simp: All_less_Suc2)
  qed
qed

lemma counted_push:
  assumes c: "counted ext fl" and nf: "fl nf = None" "nf \<noteq> 0" and s: "0 < ext s" and x: "refs x = 1" "prev x = s"
  shows "counted (ext(s := ext s - 1, nf := 1)) (fl(nf \<mapsto> x))"
proof -
  have out: "nf \<notin> dom fl" using nf(1) by auto
  then have l0: "linked fl nf = {}" "ext nf = 0" using countedD(5,6) [OF c nf(2)] by blast+
  then have sn: "s \<noteq> nf" using s by auto
  have new: "nf \<notin> linked fl g" for g using nf(1) by (auto simp: linked_def)
  have card: "card (insert nf (linked fl s)) = card (linked fl s) + 1" using new countedD(3) [OF c, of s] by simp
  show ?thesis
    unfolding counted_def linked_new [of fl nf, OF nf(1)]
  proof (intro conjI allI impI)
    show "finite (dom (fl(nf \<mapsto> x)))" "(fl(nf \<mapsto> x)) 0 = None" using countedD(1,2) [OF c] nf(2) by auto
  next
    fix g y
    assume "(fl(nf \<mapsto> x)) g = Some y"
    then consider "g = nf" "y = x" | "g \<noteq> nf" "fl g = Some y" by (auto split: if_splits)
    then show "refs y = int ((ext(s := ext s - 1, nf := 1)) g + card (if prev x = g then insert nf (linked fl g) else linked fl g))"
      "0 < (ext(s := ext s - 1, nf := 1)) g + card (if prev x = g then insert nf (linked fl g) else linked fl g)"
      by (cases; use x l0 sn card s countedD(4) [OF c, of g y] in auto)+
  next
    fix g
    assume g: "g \<noteq> 0" "0 < (ext(s := ext s - 1, nf := 1)) g \<or> (if prev x = g then insert nf (linked fl g) else linked fl g) \<noteq> {}"
    then show "g \<in> dom (fl(nf \<mapsto> x))"
      using countedD(5,6) [OF c g(1)] s x by (cases "g = nf"; cases "g = s") (auto split: if_splits)
  qed
qed

section \<open>The invariant of the filters\<close>

text \<open>Chains go from newer to older filters.\<close>

definition ranked :: "(nat \<rightharpoonup> sfilt) \<Rightarrow> bool" where
  "ranked fl \<longleftrightarrow> (\<exists>rk :: nat \<Rightarrow> nat. \<forall>f x. fl f = Some x \<longrightarrow> prev x \<in> dom fl \<longrightarrow> rk (prev x) < rk f)"

definition checked :: "(nat \<rightharpoonup> sfilt) \<Rightarrow> bool" where
  "checked fl \<longleftrightarrow> (\<forall>f x. fl f = Some x \<longrightarrow> valid (insn x) \<and> length (insn x) \<le> 4096)"

definition sc_inv :: "sc_state \<Rightarrow> bool" where
  "sc_inv st \<longleftrightarrow> counted (held (procs st)) (filts st) \<and> ranked (filts st) \<and> checked (filts st) \<and>
     cur st < length (procs st) \<and> procs st ! cur st \<noteq> None"

lemma ranked_sub: "ranked fl \<Longrightarrow> substore fl fl' \<Longrightarrow> ranked fl'"
proof -
  assume "ranked fl" and sub: "substore fl fl'"
  then obtain rk :: "nat \<Rightarrow> nat" where rk: "\<And>f x. fl f = Some x \<Longrightarrow> prev x \<in> dom fl \<Longrightarrow> rk (prev x) < rk f"
    unfolding ranked_def by blast
  have "rk (prev x') < rk f" if x': "fl' f = Some x'" "prev x' \<in> dom fl'" for f x'
  proof -
    obtain x where x: "fl f = Some x" "prev x' = prev x" using sub x'(1) unfolding substore_def by metis
    obtain y where "fl' (prev x') = Some y" using x'(2) by blast
    then have "prev x \<in> dom fl" using sub x(2) unfolding substore_def by (metis domI)
    then show ?thesis using rk [OF x(1)] x(2) by simp
  qed
  then show ?thesis unfolding ranked_def by blast
qed

lemma checked_sub: "checked fl \<Longrightarrow> substore fl fl' \<Longrightarrow> checked fl'"
  unfolding checked_def substore_def by metis

lemma ranked_push:
  assumes r: "ranked fl" and nf: "fl nf = None" and no: "linked fl nf = {}" and px: "prev x \<noteq> nf"
  shows "ranked (fl(nf \<mapsto> x))"
proof -
  obtain rk :: "nat \<Rightarrow> nat" where rk: "\<And>f x. fl f = Some x \<Longrightarrow> prev x \<in> dom fl \<Longrightarrow> rk (prev x) < rk f"
    using r unfolding ranked_def by blast
  let ?rk = "rk(nf := Suc (rk (prev x)))"
  have "?rk (prev y) < ?rk f" if y: "(fl(nf \<mapsto> x)) f = Some y" "prev y \<in> dom (fl(nf \<mapsto> x))" for f y
  proof (cases "f = nf")
    case True
    then show ?thesis using y(1) px by auto
  next
    case False
    then have fy: "fl f = Some y" using y(1) by simp
    then have "prev y \<noteq> nf" using no by (auto simp: linked_def)
    then show ?thesis using rk [OF fy] y(2) False by auto
  qed
  then show ?thesis unfolding ranked_def by blast
qed

fun chain :: "(nat \<rightharpoonup> sfilt) \<Rightarrow> nat \<Rightarrow> sfilt list \<Rightarrow> bool" where
  "chain fl f [] \<longleftrightarrow> fl f = None"
| "chain fl f (x # xs) \<longleftrightarrow> fl f = Some x \<and> chain fl (prev x) xs"

lemma chain_exists: "ranked fl \<Longrightarrow> \<exists>xs. chain fl f xs"
proof -
  assume "ranked fl"
  then obtain rk :: "nat \<Rightarrow> nat" where rk: "\<And>f x. fl f = Some x \<Longrightarrow> prev x \<in> dom fl \<Longrightarrow> rk (prev x) < rk f"
    unfolding ranked_def by blast
  show ?thesis
  proof (induction "rk f" arbitrary: f rule: less_induct)
    case less
    show ?case
    proof (cases "fl f")
      case None
      then show ?thesis by (intro exI [of _ "[]"]) simp
    next
      case (Some x)
      show ?thesis
      proof (cases "prev x \<in> dom fl")
        case True
        then obtain xs where "chain fl (prev x) xs" using less [of "prev x"] rk [OF Some] by blast
        then show ?thesis using Some by (intro exI [of _ "x # xs"]) simp
      next
        case False
        then show ?thesis using Some by (intro exI [of _ "[x]"]) auto
      qed
    qed
  qed
qed

section \<open>The verdict of a chain\<close>

lemma best_loop_chain:
  assumes "chain fl f xs" and "list_all2 (\<lambda>x v. run (insn x) d = Some (Some v)) xs vs"
  shows "\<exists>best. best_loop fl d f b = Some (Some best) \<and> best \<in> set (b # vs) \<and>
    (\<forall>v\<in>set (b # vs). sint (action best) \<le> sint (action v))"
  using assms(2,1)
proof (induction xs vs arbitrary: f b rule: list_all2_induct)
  case Nil
  then show ?case by (subst best_loop.simps) simp
next
  case (Cons x xs v vs)
  let ?b = "if sint (action v) < sint (action b) then v else b"
  have "chain fl (prev x) xs" using Cons by simp
  from Cons(3) [OF this, of ?b] obtain best where best: "best_loop fl d (prev x) ?b = Some (Some best)"
    "best \<in> set (?b # vs)" "\<forall>u\<in>set (?b # vs). sint (action best) \<le> sint (action u)" by blast
  then have "best_loop fl d f b = Some (Some best)" using Cons by (subst best_loop.simps) simp
  moreover have "best \<in> set (b # v # vs)" "\<forall>u\<in>set (b # v # vs). sint (action best) \<le> sint (action u)"
    using best(2,3) by (auto split: if_splits)
  ultimately show ?case by blast
qed

lemma seccomp_data_length: "length (args r) = 6 \<Longrightarrow> length (seccomp_data r) = 64"
proof -
  assume a: "length (args r) = 6"
  have b: "length (le_bytes n w) = n" for n w by (simp add: le_bytes_def)
  have "length (concat (map (le_bytes 8) ws)) = 8 * length ws" for ws by (induction ws) (simp_all add: b)
  then show ?thesis using a by (simp add: seccomp_data_def b)
qed

text \<open>C20: In a process with filters every system call gets an answer: each filter of the chain comes to a
  verdict, and what happens to the call is decided by one of these verdicts (or by \<open>allow\<close> for an empty
  chain) whose action is the most restrictive of all, in the signed order the kernel uses.\<close>

theorem sc_check_most_restrictive:
  assumes inv: "sc_inv st" and p: "procs st ! i = Some p" and mode: "sc_mode p \<noteq> 1" and regs: "length (args r) = 6"
  shows "\<exists>xs vs best. chain (filts st) (sf p) xs \<and>
    list_all2 (\<lambda>x v. run (insn x) (seccomp_data r) = Some (Some v)) xs vs \<and>
    sc_check (filts st) p r = Some (Some (sc_act best r p)) \<and>
    best \<in> set (RET_ALLOW # vs) \<and> (\<forall>v\<in>set (RET_ALLOW # vs). sint (action best) \<le> sint (action v))"
proof -
  let ?fl = "filts st" and ?d = "seccomp_data r"
  obtain xs where xs: "chain ?fl (sf p) xs" using chain_exists inv by (auto simp: sc_inv_def)
  have "\<exists>v. run (insn x) ?d = Some (Some v)" if mem: "x \<in> set xs" for x
  proof -
    have "chain ?fl f ys \<Longrightarrow> x \<in> set ys \<Longrightarrow> \<exists>g. ?fl g = Some x" for f ys by (induction ys arbitrary: f) auto
    then obtain g where "?fl g = Some x" using xs mem by blast
    then have "valid (insn x)" "length (insn x) \<le> 4096" using inv by (auto simp: sc_inv_def checked_def)
    then show ?thesis using run_loop_valid [of "insn x" ?d 0] seccomp_data_length [OF regs] by (auto simp: run_def valid_def)
  qed
  then have "list_all2 (\<lambda>x v. run (insn x) ?d = Some (Some v)) xs (map (\<lambda>x. the (the (run (insn x) ?d))) xs)"
    by (auto simp: list.rel_map intro!: list.rel_refl_strong) (metis option.sel)
  then obtain vs where vs: "list_all2 (\<lambda>x v. run (insn x) ?d = Some (Some v)) xs vs" by blast
  obtain best where best: "best_loop ?fl ?d (sf p) RET_ALLOW = Some (Some best)" "best \<in> set (RET_ALLOW # vs)"
    "\<forall>v\<in>set (RET_ALLOW # vs). sint (action best) \<le> sint (action v)" using best_loop_chain [OF xs vs] by blast
  then have "sc_check ?fl p r = Some (Some (sc_act best r p))" using mode by (simp add: sc_check_def)
  then show ?thesis using xs vs best(2,3) by blast
qed

section \<open>Installing filters\<close>

lemma held_update:
  "i < length ps \<Longrightarrow> held (ps[i := q]) f + of_bool (holds f (ps ! i)) = held ps f + of_bool (holds f q)"
  unfolding held_def by (rule length_filter_update)

lemma load_Inr:
  assumes "load user_ok m addr u = Inr (nf, x)"
  shows "nf = snd addr" "nf \<noteq> 0" "refs x = 1" "valid (insn x)" "length (insn x) \<le> 4096"
  using assms by (auto simp: load_def Let_def split: if_splits)

text \<open>C35: Installing a filter, with or without carrying it to all threads, always returns, and afterwards the
  count of every filter is again the number of processes and newer filters that hold it, no process or
  filter refers to one that was freed, chains end, and every filter in use has passed \<open>valid\<close>. The address
  that \<open>kmalloc\<close> gives is not in use.\<close>

theorem sc_seccomp_inv:
  assumes inv: "sc_inv st" and fresh: "filts st (snd addr) = None"
  shows "\<exists>r st'. sc_seccomp user_ok m addr op fl uargs st = Some (r, st') \<and> sc_inv st'"
proof -
  obtain p where p: "procs st ! cur st = Some p" and len: "cur st < length (procs st)" and
    c: "counted (held (procs st)) (filts st)" and rk: "ranked (filts st)" and ck: "checked (filts st)"
    using inv by (auto simp: sc_inv_def)
  have same: "held ((procs st)[cur st := Some q]) = held (procs st)" if "sf q = sf p" for q
    using held_update [OF len, of "Some q"] p that by (auto simp: fun_eq_iff)
  have mode: "sc_inv (set_proc (cur st) (p\<lparr>sc_mode := v\<rparr>) st)" for v
    using c rk ck len same by (simp add: sc_inv_def set_proc_def)
  show ?thesis
  proof (cases "\<exists>nf x. op = 1 \<and> fl AND NOT 0x1f = 0 \<and> fl AND 8 = 0 \<and> sc_mode p \<noteq> 1 \<and> load user_ok m addr uargs = Inr (nf, x)")
    case False
    then show ?thesis using p inv mode
      by (cases "load user_ok m addr uargs") (auto simp: sc_seccomp_def Let_def)
  next
    case True
    then obtain nf x where g: "op = 1" "fl AND NOT 0x1f = 0" "fl AND 8 = 0" "sc_mode p \<noteq> 1"
      and l: "load user_ok m addr uargs = Inr (nf, x)" by blast
    note nf = load_Inr [OF l]
    let ?x = "x\<lparr>prev := sf p\<rparr>" and ?p = "p\<lparr>sf := nf, sc_mode := 2\<rparr>"
    let ?fl = "(filts st)(nf \<mapsto> ?x)" and ?ps = "(procs st)[cur st := Some ?p]"
    have out: "filts st nf = None" using fresh nf(1) by simp
    then have h0: "linked (filts st) nf = {}" "held (procs st) nf = 0"
      using countedD(5,6) [OF c nf(2)] by blast+
    have hp: "0 < held (procs st) (sf p)"
      using p len by (auto simp: held_def length_greater_0_conv filter_empty_conv intro!: bexI [of _ "Some p"]) (metis nth_mem)
    then have sn: "sf p \<noteq> nf" using h0 by auto
    have "counted ((held (procs st))(sf p := held (procs st) (sf p) - 1, nf := 1)) ?fl"
      using nf by (intro counted_push [OF c out nf(2) hp]) simp_all
    moreover have "(held (procs st))(sf p := held (procs st) (sf p) - 1, nf := 1) = held ?ps"
    proof
      fix f
      show "((held (procs st))(sf p := held (procs st) (sf p) - 1, nf := 1)) f = held ?ps f"
        using held_update [OF len, of "Some ?p" f] p h0 sn hp by (cases "f = nf"; cases "f = sf p") auto
    qed
    ultimately have c1: "counted (held ?ps) ?fl" by simp
    have rk1: "ranked ?fl" using sn by (intro ranked_push [OF rk out h0(1)]) simp
    have ck1: "checked ?fl" using ck nf(4,5) by (auto simp: checked_def)
    show ?thesis
    proof (cases "fl AND 1 = 0")
      case True
      then show ?thesis using p g l c1 rk1 ck1 len by (simp add: sc_seccomp_def sc_inv_def set_proc_def)
    next
      case False
      have "0 < held ([] @ ?ps) nf" using held_update [OF len, of "Some ?p" nf] p sn by simp
      then obtain qs fl' where t: "tsync (cur st) (tgid p) nf 0 ?ps ?fl = Some (qs, fl')" "counted (held qs) fl'"
        "substore ?fl fl'" "length qs = length ?ps" "\<forall>j<length ?ps. 0 + j = cur st \<longrightarrow> qs ! j = ?ps ! j"
        using tsync_ok [of "[]" ?ps ?fl nf "cur st" "tgid p" 0] c1 nf(2) by auto
      then show ?thesis
        using p g l len ranked_sub [OF rk1 t(3)] checked_sub [OF ck1 t(3)] False
        by (simp add: sc_seccomp_def sc_inv_def set_proc_def)
    qed
  qed
qed

section \<open>Examples\<close>

text \<open>A filter that loads the number of the call and allows it, in a table with one process.\<close>

definition ex_prog :: "sock_filter list" where
  "ex_prog = [\<lparr>code = 0x20, jt = 0, jf = 0, kk = 0\<rparr>, \<lparr>code = 0x06, jt = 0, jf = 0, kk = RET_ALLOW\<rparr>]"

definition ex_proc :: sproc where
  "ex_proc = \<lparr>alive = True, tgid = 1, sf = 64, sc_mode = 2, nnp = True, sys_nr = 0, sys_ip = 0, sys_err = 0,
     sys_sig = False, sig_mask = 0, sig_pending = 0, sa31 = 0\<rparr>"

definition ex_sc :: sc_state where
  "ex_sc = \<lparr>filts = [64 \<mapsto> \<lparr>refs = 1, insn = ex_prog, prev = 0\<rparr>], procs = [Some ex_proc], cur = 0\<rparr>"

definition ex_regs :: regs where
  "ex_regs = \<lparr>rax = 39, rip = 0x400000, args = replicate 6 0\<rparr>"

lemma ex_prog_ok: "valid ex_prog" "length ex_prog \<le> 4096"
proof -
  have "valid_insn 2 0 (ex_prog ! 0)" "valid_insn 2 1 (ex_prog ! 1)" "op_class (code (last ex_prog)) = RET"
    by (simp_all add: ex_prog_def valid_insn_def Let_def op_class_def op_defs)
  then show "valid ex_prog" by (auto simp: valid_def ex_prog_def less_Suc_eq numeral_2_eq_2)
qed (simp add: ex_prog_def)

lemma ex_sc_inv: "sc_inv ex_sc"
proof -
  have l: "linked [64 \<mapsto> \<lparr>refs = 1, insn = ex_prog, prev = 0\<rparr>] f = (if f = 0 then {64} else {})" for f
    by (auto simp: linked_def split: if_splits)
  show ?thesis
    by (auto simp: sc_inv_def ex_sc_def counted_def l ranked_def checked_def ex_prog_ok ex_proc_def split: if_splits)
qed

lemma run_valid_witness: "valid ex_prog \<and> (\<exists>x. run ex_prog (replicate 64 0) = Some (Some x))"
  using run_valid [OF ex_prog_ok, of "replicate 64 0"] ex_prog_ok by simp

lemma sc_check_most_restrictive_witness:
  "sc_inv ex_sc \<and> (\<exists>best. sc_check (filts ex_sc) ex_proc ex_regs = Some (Some (sc_act best ex_regs ex_proc)))"
  using sc_check_most_restrictive [OF ex_sc_inv, of 0 ex_proc ex_regs] ex_sc_inv
  by (auto simp: ex_sc_def ex_proc_def ex_regs_def)

lemma sc_seccomp_inv_witness:
  "sc_inv ex_sc \<and> filts ex_sc 128 = None \<and>
   (\<exists>r st'. sc_seccomp (\<lambda>a n. True) (\<lambda>a. if a = 0 then 1 else if a = 8 then 100 else if a = 100 then 6 else 0) (96, 128) 1 1 0 ex_sc
      = Some (r, st') \<and> sc_inv st')"
proof -
  have f: "filts ex_sc (snd (96 :: nat, 128)) = None" by (simp add: ex_sc_def)
  show ?thesis
    using sc_seccomp_inv [OF ex_sc_inv f, of "\<lambda>a n. True"
        "\<lambda>a. if a = 0 then 1 else if a = 8 then 100 else if a = 100 then 6 else 0" 1 1 0] ex_sc_inv f by auto
qed

end
