(* ===== verification/Clock.thy ===== *)
theory Clock
  imports Kernel_Prelude "HOL-Library.Signed_Division"
begin

text \<open>
  \<open>src/src/core/clock.c\<close>: the wall clock and the battery-backed clock of the machine. The wall clock is the
  uptime plus an offset; the other one is the CMOS chip behind ports 0x70 and 0x71, whose registers keep
  what is written to them. Dates are converted to days since 1970 and back with integer arithmetic only.
  Not modelled: the spin lock, the wait for the end of an update of the chip (the registers of the model are
  those after the wait), and the queue that the interrupt wakes.
\<close>

section \<open>Dates\<close>

text \<open>\<open>int\<close> arithmetic of C: division truncates.\<close>

definition to_u32 :: "int \<Rightarrow> nat" where "to_u32 x = nat (x mod 2 ^ 32)"

definition to_s64 :: "int \<Rightarrow> int" where "to_s64 x = (x + 2 ^ 63) mod 2 ^ 64 - 2 ^ 63"

definition days_from_civil :: "int \<Rightarrow> int \<Rightarrow> int \<Rightarrow> nat" where
  "days_from_civil y0 m d =
     (let y = y0 - of_bool (m \<le> 2);
          era = y sdiv 400;
          yoe = y - era * 400;
          doy = (153 * (m + (if 2 < m then - 3 else 9)) + 2) sdiv 5 + d - 1;
          doe = yoe * 365 + yoe sdiv 4 - yoe sdiv 100 + doy
      in to_u32 (era * 146097 + doe - 719468))"

definition civil_days :: "int \<Rightarrow> int \<Rightarrow> int \<Rightarrow> nat" where
  "civil_days y m d = days_from_civil y m d"

definition civil_from_days :: "nat \<Rightarrow> int \<times> int \<times> int" where
  "civil_from_days z =
     (let zz = int z + 719468;
          era = zz sdiv 146097;
          doe = zz - era * 146097;
          yoe = (doe - doe sdiv 1460 + doe sdiv 36524 - doe sdiv 146096) sdiv 365;
          doy = doe - (365 * yoe + yoe sdiv 4 - yoe sdiv 100);
          mp = (5 * doy + 2) sdiv 153;
          d = doy - (153 * mp + 2) sdiv 5 + 1;
          m = (if mp < 10 then mp + 3 else mp - 9);
          y = yoe + era * 400 + of_bool (m \<le> 2)
      in (y, m, d))"

section \<open>The chip\<close>

record chip =
  sel :: u8
  reg :: "u8 \<Rightarrow> u8"

definition out70 :: "u8 \<Rightarrow> chip \<Rightarrow> chip" where "out70 r c = c\<lparr>sel := r\<rparr>"
definition out71 :: "u8 \<Rightarrow> chip \<Rightarrow> chip" where "out71 v c = c\<lparr>reg := (reg c)(sel c := v)\<rparr>"

definition cmos :: "u8 \<Rightarrow> chip \<Rightarrow> u8 \<times> chip" where
  "cmos r c = (let c1 = out70 r c in (reg c1 (sel c1), c1))"

definition cmos_write :: "u8 \<Rightarrow> u8 \<Rightarrow> chip \<Rightarrow> chip" where
  "cmos_write r v c = out71 v (out70 r c)"

definition bcd :: "int \<Rightarrow> int" where "bcd v = drop_bit 4 v * 10 + (v AND 0x0F)"

text \<open>The seven registers that \<open>rtc_read_epoch\<close> reads one after the other, and what it makes of them.\<close>

fun cmos_all :: "u8 list \<Rightarrow> chip \<Rightarrow> int list \<times> chip" where
  "cmos_all [] c = ([], c)"
| "cmos_all (r # rs) c = (let (v, c1) = cmos r c; (vs, c2) = cmos_all rs c1 in (uint v # vs, c2))"

definition rtc_decode :: "int \<Rightarrow> int \<Rightarrow> int \<Rightarrow> int \<Rightarrow> int \<Rightarrow> int \<Rightarrow> int \<Rightarrow> nat" where
  "rtc_decode s0 mi0 h0 d0 mo0 y0 regb =
     (let pm = h0 AND 0x80 \<noteq> 0;
          h1 = h0 AND 0x7F;
          cv = (if regb AND 4 = 0 then bcd else (\<lambda>v. v));
          s = cv s0; mi = cv mi0; h2 = cv h1; d = cv d0; mo = cv mo0; y = cv y0;
          h = (if regb AND 2 = 0 then h2 smod 12 + (if pm then 12 else 0) else h2)
      in to_u32 (int (civil_days (2000 + y) mo d) * 86400 + (h * 3600 + mi * 60 + s)))"

definition rtc_read_epoch :: "chip \<Rightarrow> nat \<times> chip" where
  "rtc_read_epoch c =
     (case cmos_all [0x00, 0x02, 0x04, 0x07, 0x08, 0x09, 0x0B] c of
        ([s, mi, h, d, mo, y, regb], c1) \<Rightarrow> (rtc_decode s mi h d mo y regb, c1)
      | (_, c1) \<Rightarrow> (0, c1))"

definition to_bcd :: "int \<Rightarrow> int" where "to_bcd v = push_bit 4 (v sdiv 10) OR (v smod 10)"

definition rtc_fields :: "nat \<Rightarrow> int list" where
  "rtc_fields t =
     (let (y, mo, d) = civil_from_days (t div 86400)
      in [int (t mod 60), int (t mod 3600 div 60), int (t mod 86400 div 3600), d, mo, y smod 100])"

fun cmos_write_all :: "(u8 \<times> int) list \<Rightarrow> chip \<Rightarrow> chip" where
  "cmos_write_all [] c = c"
| "cmos_write_all ((r, v) # rs) c = cmos_write_all rs (cmos_write r (word_of_int v) c)"

definition rtc_write_epoch :: "nat \<Rightarrow> chip \<Rightarrow> chip" where
  "rtc_write_epoch t c0 =
     (let (regb, c1) = cmos 0x0B c0;
          wr = rtc_fields t;
          wr = (if regb AND 4 = 0 then map to_bcd wr else wr);
          c2 = (if regb AND 2 = 0 then cmos_write 0x0B (regb OR 2) c1 else c1);
          (b, c3) = cmos 0x0B (out70 0x0B c2);
          c4 = out71 (b OR 0x80) c3;
          c5 = cmos_write_all (zip [0x00, 0x02, 0x04, 0x07, 0x08, 0x09] wr) c4;
          (b', c6) = cmos 0x0B (out70 0x0B c5)
      in out71 (b' AND NOT 0x80) c6)"

section \<open>The clock\<close>

record clock =
  wall_off :: int
  rtc_ups :: u32
  rtc_uie :: bool
  irq8 :: bool
  chp :: chip

text \<open>\<open>tsc\<close> is the answer of \<open>tsc_us\<close>, 0 before calibration; \<open>pit\<close> is \<open>pit_uptime_ms\<close>.\<close>

definition uptime_us :: "nat \<Rightarrow> nat \<Rightarrow> nat" where
  "uptime_us tsc pit = (if tsc = 0 then pit * 1000 else tsc)"

text \<open>The interrupt register is read first; the flag says whether \<open>rtc_wq\<close> is woken.\<close>

definition rtc_isr :: "u8 \<Rightarrow> clock \<Rightarrow> clock \<times> bool" where
  "rtc_isr c st = (if c AND 0x10 \<noteq> 0 then (st\<lparr>rtc_ups := rtc_ups st + 1\<rparr>, True) else (st, False))"

definition now_us :: "nat \<Rightarrow> nat \<Rightarrow> clock \<Rightarrow> nat" where
  "now_us tsc pit st = nat ((int (uptime_us tsc pit) + wall_off st) mod 2 ^ 64)"

definition clock_init :: "nat \<Rightarrow> nat \<Rightarrow> clock \<Rightarrow> clock" where
  "clock_init tsc pit st =
     (let (e, c) = rtc_read_epoch (chp st)
      in st\<lparr>chp := c, wall_off := to_s64 (int e * 1000000 - to_s64 (int (uptime_us tsc pit)))\<rparr>)"

definition clock_rtc_uie :: "bool \<Rightarrow> clock \<Rightarrow> clock" where
  "clock_rtc_uie on st =
     (let c1 = out70 0x0B (chp st); b = reg c1 (sel c1);
          c2 = cmos_write 0x0B (if on then b OR 0x10 else b AND NOT 0x10) c1;
          c3 = snd (cmos 0x0C c2)
      in st\<lparr>chp := c3, rtc_uie := on,
            irq8 := (if on \<and> \<not> rtc_uie st then True else if \<not> on then False else irq8 st)\<rparr>)"

definition clock_rtc_ups :: "clock \<Rightarrow> u32" where "clock_rtc_ups st = rtc_ups st"

definition clock_rtc_get :: "clock \<Rightarrow> int list \<times> clock" where
  "clock_rtc_get st =
     (let (t, c) = rtc_read_epoch (chp st); (y, mo, d) = civil_from_days (t div 86400)
      in ([int (t mod 60), int (t mod 3600 div 60), int (t mod 86400 div 3600), d, mo - 1, y - 1900,
           int ((t div 86400 + 4) mod 7), int (sub32 (civil_days y mo d) (civil_days y 1 1)), 0],
          st\<lparr>chp := c\<rparr>))"

definition clock_rtc_set :: "int list \<Rightarrow> clock \<Rightarrow> int \<times> clock" where
  "clock_rtc_set tm st =
     (if tm ! 0 < 0 \<or> 59 < tm ! 0 \<or> tm ! 1 < 0 \<or> 59 < tm ! 1 \<or> tm ! 2 < 0 \<or> 23 < tm ! 2 \<or>
         tm ! 3 < 1 \<or> 31 < tm ! 3 \<or> tm ! 4 < 0 \<or> 11 < tm ! 4 \<or> tm ! 5 < 100 \<or> 199 < tm ! 5
      then (- 1, st)
      else (let t = to_u32 (int (civil_days (tm ! 5 + 1900) (tm ! 4 + 1) (tm ! 3)) * 86400
                            + tm ! 2 * 3600 + tm ! 1 * 60 + tm ! 0)
            in (0, st\<lparr>chp := rtc_write_epoch t (chp st)\<rparr>)))"

definition clock_set :: "nat \<Rightarrow> nat \<Rightarrow> nat \<Rightarrow> nat \<Rightarrow> clock \<Rightarrow> clock" where
  "clock_set tsc pit sec nsec st =
     st\<lparr>wall_off := to_s64 (int sec * 1000000 + int (nsec div 1000) - to_s64 (int (uptime_us tsc pit))),
        chp := rtc_write_epoch sec (chp st)\<rparr>"

definition clock_now :: "nat \<Rightarrow> nat \<Rightarrow> clock \<Rightarrow> nat \<times> nat" where
  "clock_now tsc pit st =
     (let us = now_us tsc pit st in (us div 1000000 mod 2 ^ 32, (us mod 1000000 * 1000) mod 2 ^ 32))"

definition clock_now_us :: "nat \<Rightarrow> nat \<Rightarrow> clock \<Rightarrow> nat \<times> nat" where
  "clock_now_us tsc pit st = (let us = now_us tsc pit st in (us div 1000000 mod 2 ^ 32, us mod 1000000))"

definition clock_epoch :: "nat \<Rightarrow> nat \<Rightarrow> clock \<Rightarrow> nat" where
  "clock_epoch tsc pit st = now_us tsc pit st div 1000000 mod 2 ^ 32"

end
