(* ===== verification/Clock_Correct.thy ===== *)
theory Clock_Correct
  imports Clock
begin

text \<open>
  The date arithmetic of \<open>Clock\<close> is the Gregorian calendar, in both directions, and the chip and the wall
  clock give back the time that was set.
\<close>

section \<open>Years of an era\<close>

text \<open>\<open>ystart y\<close> is the first day of year \<open>y\<close> (from March) of a 400-year era.\<close>

definition ystart :: "int \<Rightarrow> int" where "ystart y = 365 * y + y div 4 - y div 100"

definition yoe_of :: "int \<Rightarrow> int" where
  "yoe_of doe = (doe - doe div 1460 + doe div 36524 - doe div 146096) div 365"

lemma sdiv_pos: "0 \<le> a \<Longrightarrow> 0 < b \<Longrightarrow> a sdiv b = a div (b :: int)"
  by (simp add: signed_divide_int_def zsgn_def)

lemma smod_pos: "0 \<le> a \<Longrightarrow> 0 < b \<Longrightarrow> a smod b = a mod (b :: int)"
  by (cases "a = 0") (simp_all add: signed_modulo_int_def zsgn_def sdiv_pos)

lemma yoe_mono_step: "0 \<le> x \<Longrightarrow> yoe_of x \<le> yoe_of (x + 1)"
proof -
  assume "0 \<le> x"
  have a: "(x + 1) div 1460 \<le> x div 1460 + 1" by linarith
  have b: "x div 36524 \<le> (x + 1) div 36524" by linarith
  have c: "(x + 1) div 146096 \<le> x div 146096 + ((x + 1) div 36524 - x div 36524)"
  proof -
    have "p div 4 \<le> q div 4 + (p - q)" if "q \<le> p" "p \<le> q + 1" for p q :: int
      using that by presburger
    moreover have "(x + 1) div 36524 \<le> x div 36524 + 1" by linarith
    ultimately show ?thesis using b by (simp add: zdiv_zmult2_eq [of 4 _ "36524", simplified])
  qed
  have "x - A + B - C \<le> x + 1 - A' + B' - C'" if "A' \<le> A + 1" "C' \<le> C + (B' - B)" for A B C A' B' C' :: int
    using that by simp
  from this [OF a c] show ?thesis unfolding yoe_of_def by (rule zdiv_mono1) simp
qed

lemma yoe_mono: "0 \<le> x \<Longrightarrow> x \<le> y \<Longrightarrow> yoe_of x \<le> yoe_of y"
proof -
  assume "0 \<le> x" "x \<le> y"
  from \<open>x \<le> y\<close> show ?thesis
  proof (induction y rule: int_ge_induct)
    case (step i)
    then show ?case using yoe_mono_step [of i] \<open>0 \<le> x\<close> by simp
  qed simp
qed

lemma yoe_ends_all: "list_all (\<lambda>y. yoe_of (ystart y) = y \<and> yoe_of (ystart (y + 1) - 1) = y) [0..398]"
  by code_simp

lemma yoe_end_399: "yoe_of (ystart 399) = 399" "yoe_of 146096 = 399"
  by (simp_all add: yoe_of_def ystart_def)

lemma yoe_ends:
  assumes "0 \<le> y" "y < 399"
  shows "yoe_of (ystart y) = y" "yoe_of (ystart (y + 1) - 1) = y"
  using yoe_ends_all assms by (auto simp: list_all_iff)

lemma ystart_mono: "y \<le> z \<Longrightarrow> ystart y \<le> ystart z"
proof -
  assume "y \<le> z"
  then have "z div 100 \<le> (y + (z - y) * 100) div 100" by (intro zdiv_mono1) auto
  then have a: "z div 100 \<le> y div 100 + (z - y)" by simp
  from \<open>y \<le> z\<close> have b: "y div 4 \<le> z div 4" by (rule zdiv_mono1) simp
  have "365 * y + A - B \<le> 365 * z + A' - B'" if "A \<le> A'" "B' \<le> B + (z - y)" for A B A' B' :: int
    using that \<open>y \<le> z\<close> by linarith
  from this [OF b a] show ?thesis by (simp only: ystart_def)
qed

lemma ystart_pos: "0 \<le> y \<Longrightarrow> 0 \<le> ystart y"
  using ystart_mono [of 0 y] by (simp add: ystart_def)

definition leap :: "int \<Rightarrow> bool" where
  "leap y \<longleftrightarrow> 4 dvd y \<and> (\<not> 100 dvd y \<or> 400 dvd y)"

definition ylen :: "int \<Rightarrow> int" where "ylen y = 365 + of_bool (leap (y + 1))"

lemma div_succ:
  fixes y k :: int
  assumes "0 < k"
  shows "(y + 1) div k = y div k + of_bool (k dvd y + 1)"
proof (cases "y mod k = k - 1")
  case True
  then have "y + 1 = y div k * k + k" using div_mult_mod_eq [of y k] by linarith
  then have e: "y + 1 = (y div k + 1) * k" by (simp only: distrib_right mult_1)
  then have "k dvd y + 1" by simp
  moreover have "(y + 1) div k = y div k + 1" unfolding e using assms by simp
  ultimately show ?thesis by simp
next
  case False
  have e: "y + 1 = k * (y div k) + (y mod k + 1)" by (simp add: algebra_simps)
  have r: "0 \<le> y mod k + 1" "y mod k + 1 < k" using assms False pos_mod_bound [OF assms, of y] pos_mod_sign [OF assms, of y] by linarith+
  have d: "(y + 1) div k = y div k" using int_div_pos_eq [OF e r] .
  have "(y + 1) mod k = y mod k + 1" using int_mod_pos_eq [OF e r] .
  then have "(y + 1) mod k \<noteq> 0" using pos_mod_sign [OF assms, of y] by linarith
  then have "\<not> k dvd y + 1" by (simp add: dvd_eq_mod_eq_0)
  with d show ?thesis by simp
qed

lemma ystart_succ:
  assumes "0 \<le> y" "y < 399"
  shows "ystart (y + 1) = ystart y + ylen y"
proof -
  have "\<not> 400 dvd y + 1" using assms zdvd_not_zless [of "y + 1" 400] by simp
  moreover have "4 dvd y + 1" if "100 dvd y + 1" using that dvd_trans [of 4 100 "y + 1"] by simp
  ultimately show ?thesis by (auto simp: ystart_def ylen_def leap_def div_succ)
qed

lemma yoe_exact:
  assumes "0 \<le> y" "y \<le> 399" "0 \<le> doy" "doy < ylen y"
  shows "yoe_of (ystart y + doy) = y"
proof (cases "y < 399")
  case True
  have "yoe_of (ystart y) \<le> yoe_of (ystart y + doy)" using assms ystart_pos by (intro yoe_mono) auto
  moreover have "yoe_of (ystart y + doy) \<le> yoe_of (ystart (y + 1) - 1)"
    using assms ystart_pos [of y] ystart_succ [OF _ True] by (intro yoe_mono) auto
  ultimately show ?thesis using yoe_ends [OF _ True] assms by simp
next
  case False
  then have "y = 399" using assms by simp
  then have "yoe_of (ystart 399) \<le> yoe_of (ystart y + doy)" "yoe_of (ystart y + doy) \<le> yoe_of 146096"
    using assms by (auto intro!: yoe_mono simp: ystart_def ylen_def leap_def)
  then show ?thesis using yoe_end_399 \<open>y = 399\<close> by simp
qed

text \<open>Every day of an era lies in one of its years.\<close>

lemma year_of_day:
  assumes "0 \<le> doe" "doe < 146097"
  obtains y doy where "0 \<le> y" "y \<le> 399" "0 \<le> doy" "doy < ylen y" "doe = ystart y + doy"
proof -
  have "\<exists>y\<ge>0. y \<le> int n \<and> ystart y \<le> doe \<and> (y < int n \<longrightarrow> doe < ystart (y + 1))" for n
  proof (induction n)
    case 0
    then show ?case using assms by (intro exI [of _ 0]) (simp add: ystart_def)
  next
    case (Suc n)
    then obtain y where y: "0 \<le> y" "y \<le> int n" "ystart y \<le> doe" "y < int n \<longrightarrow> doe < ystart (y + 1)" by blast
    show ?case
    proof (cases "y = int n \<and> ystart (y + 1) \<le> doe")
      case True
      then show ?thesis using y by (intro exI [of _ "y + 1"]) auto
    next
      case False
      then show ?thesis using y by (intro exI [of _ y]) auto
    qed
  qed
  from this [of 399] obtain y where y: "0 \<le> y" "y \<le> 399" "ystart y \<le> doe" "y < 399 \<longrightarrow> doe < ystart (y + 1)"
    by auto
  have "doe - ystart y < ylen y"
  proof (cases "y < 399")
    case True
    then show ?thesis using y ystart_succ [of y] by simp
  next
    case False
    then have "y = 399" using y by simp
    then show ?thesis using assms by (simp add: ystart_def ylen_def leap_def)
  qed
  with y show ?thesis using that [of y "doe - ystart y"] by simp
qed

section \<open>The calendar\<close>

definition mlen :: "int \<Rightarrow> int \<Rightarrow> int" where
  "mlen y m = (if m = 2 then 28 + of_bool (leap y) else if m \<in> {4, 6, 9, 11} then 30 else 31)"

definition date_ok :: "int \<times> int \<times> int \<Rightarrow> bool" where
  "date_ok = (\<lambda>(y, m, d). 1 \<le> m \<and> m \<le> 12 \<and> 1 \<le> d \<and> d \<le> mlen y m)"

definition next_date :: "int \<times> int \<times> int \<Rightarrow> int \<times> int \<times> int" where
  "next_date = (\<lambda>(y, m, d). if d < mlen y m then (y, m, d + 1) else if m < 12 then (y, m + 1, 1) else (y + 1, 1, 1))"

text \<open>A date as the code sees it: year from March, month from March.\<close>

definition myear :: "int \<Rightarrow> int \<Rightarrow> int" where "myear y m = y - of_bool (m \<le> 2)"
definition mmonth :: "int \<Rightarrow> int" where "mmonth m = (if 2 < m then m - 3 else m + 9)"
definition mstart :: "int \<Rightarrow> int" where "mstart p = (153 * p + 2) div 5"

definition day_number :: "int \<Rightarrow> int \<Rightarrow> int \<Rightarrow> int" where
  "day_number y m d = myear y m div 400 * 146097 + (ystart (myear y m mod 400) + (mstart (mmonth m) + d - 1))"

lemma months: "1 \<le> m \<Longrightarrow> m \<le> 12 \<Longrightarrow> m \<in> {1, 2, 3, 4, 5, 6, 7, 8, 9, 10, 11, 12}" for m :: int
  by simp presburger

lemma leap_mod: "leap (y mod 400 + 1) = leap (y + 1)"
proof -
  have "k dvd y mod 400 + 1 \<longleftrightarrow> k dvd y + 1" if "k dvd 400" for k
    using that by (simp add: dvd_eq_mod_eq_0 mod_simps flip: mod_add_left_eq [of "y mod 400"] add: mod_mod_cancel)
  then show ?thesis by (simp add: leap_def)
qed

lemma day_of_year:
  assumes "date_ok (y, m, d)"
  shows "0 \<le> mstart (mmonth m) + d - 1" "mstart (mmonth m) + d - 1 < ylen (myear y m)"
    and "(5 * (mstart (mmonth m) + d - 1) + 2) div 153 = mmonth m"
proof -
  have d: "1 \<le> d" "d \<le> mlen y m" and m: "m \<in> {1, 2, 3, 4, 5, 6, 7, 8, 9, 10, 11, 12}"
    using assms months [of m] by (auto simp: date_ok_def)
  have *: "0 \<le> mstart (mmonth m) + d - 1 \<and> mstart (mmonth m) + d - 1 < ylen (myear y m) \<and>
     153 * mmonth m \<le> 5 * (mstart (mmonth m) + d - 1) + 2 \<and> 5 * (mstart (mmonth m) + d - 1) + 2 < 153 * mmonth m + 153"
    using m d by (elim insertE emptyE) (simp_all add: mlen_def mstart_def mmonth_def myear_def ylen_def of_bool_def split: if_splits)
  then show "0 \<le> mstart (mmonth m) + d - 1" "mstart (mmonth m) + d - 1 < ylen (myear y m)" by auto
  show "(5 * (mstart (mmonth m) + d - 1) + 2) div 153 = mmonth m"
    by (rule int_div_pos_eq [of _ _ _ "5 * (mstart (mmonth m) + d - 1) + 2 - 153 * mmonth m"]) (use * in auto)
qed

lemma month_of_day:
  assumes "0 \<le> doy" "doy < ylen y"
  obtains m d where "date_ok (y + of_bool (m \<le> 2), m, d)" "doy = mstart (mmonth m) + d - 1"
proof -
  have "doy < 366" using assms by (simp add: ylen_def of_bool_def split: if_splits)
  define p where "p = (5 * doy + 2) div 153"
  have p: "153 * p \<le> 5 * doy + 2" "5 * doy + 2 < 153 * p + 153" unfolding p_def by linarith+
  then have "p + 1 \<in> {1, 2, 3, 4, 5, 6, 7, 8, 9, 10, 11, 12}"
    using assms \<open>doy < 366\<close> by (intro months) linarith+
  then have "date_ok (y + of_bool (m \<le> 2), m, d) \<and> doy = mstart (mmonth m) + d - 1"
    if "m = (if p < 10 then p + 3 else p - 9)" "d = doy - mstart p + 1" for m d
    using that p assms
    by (elim insertE emptyE)
      (simp_all add: eq_diff_eq [symmetric] date_ok_def mlen_def mstart_def mmonth_def ylen_def)
  then show ?thesis using that by blast
qed

lemma yoe_sdiv:
  assumes "0 \<le> doe"
  shows "(doe - doe sdiv 1460 + doe sdiv 36524 - doe sdiv 146096) sdiv 365 = yoe_of doe"
proof -
  have e: "doe sdiv 1460 = doe div 1460" "doe sdiv 36524 = doe div 36524" "doe sdiv 146096 = doe div 146096"
    by (rule sdiv_pos [OF assms], simp)+
  have a: "doe div 1460 \<le> doe" using zdiv_mono2 [of doe 1 1460] assms by simp
  have b: "doe div 146096 \<le> doe div 36524" by (rule zdiv_mono2 [OF assms]) simp_all
  have "0 \<le> doe - A + B - C" if "A \<le> doe" "C \<le> B" for A B C :: int using that by simp
  from this [OF a b] show ?thesis unfolding e yoe_of_def by (rule sdiv_pos) simp
qed

lemma civil_of_number:
  assumes ok: "date_ok (y, m, d)" and y: "0 \<le> myear y m" and z: "int z + 719468 = day_number y m d"
  shows "civil_from_days z = (y, m, d)"
proof -
  let ?Y = "myear y m mod 400" and ?doy = "mstart (mmonth m) + d - 1"
  let ?doe = "ystart ?Y + ?doy"
  have Y: "0 \<le> ?Y" "?Y \<le> 399" "ylen ?Y = ylen (myear y m)"
    using pos_mod_bound [of 400 "myear y m"] by (simp_all add: ylen_def leap_mod)
  note doy = day_of_year [OF ok]
  have doe: "0 \<le> ?doe" "?doe < 146097"
  proof -
    show "0 \<le> ?doe" using ystart_pos [OF Y(1)] doy(1) by simp
    have "ystart ?Y + ylen ?Y \<le> 146097"
    proof (cases "?Y < 399")
      case True
      then show ?thesis using ystart_succ [OF Y(1) True] ystart_mono [of "?Y + 1" 399] by (simp add: ystart_def)
    next
      case False
      then have "?Y = 399" using Y by simp
      then show ?thesis by (simp add: ystart_def ylen_def leap_def)
    qed
    then show "?doe < 146097" using doy(2) Y(3) by simp
  qed
  have zz: "int z + 719468 = 146097 * (myear y m div 400) + ?doe" using z by (simp add: day_number_def)
  have era: "(int z + 719468) div 146097 = myear y m div 400" using int_div_pos_eq [OF zz doe] .
  have yoe: "yoe_of ?doe = ?Y" using yoe_exact [OF Y(1,2)] doy Y by simp
  have m: "m \<in> {1, 2, 3, 4, 5, 6, 7, 8, 9, 10, 11, 12}" using ok months by (simp add: date_ok_def)
  have mp: "0 \<le> mmonth m" using m by (auto simp: mmonth_def)
  have s1: "(int z + 719468) sdiv 146097 = myear y m div 400" using era by (simp add: sdiv_pos)
  have s2: "int z + 719468 - myear y m div 400 * 146097 = ?doe" using zz by simp
  have s3: "(?doe - ?doe sdiv 1460 + ?doe sdiv 36524 - ?doe sdiv 146096) sdiv 365 = ?Y"
    using yoe_sdiv [OF doe(1)] yoe by (rule trans)
  have s4: "?doe - (365 * ?Y + ?Y sdiv 4 - ?Y sdiv 100) = ?doy" using Y by (simp add: sdiv_pos ystart_def)
  have s5: "(5 * ?doy + 2) sdiv 153 = mmonth m" using doy by (simp add: sdiv_pos)
  have s6: "?doy - (153 * mmonth m + 2) sdiv 5 + 1 = d"
    using mp by (simp add: sdiv_pos mstart_def)
  have s7: "(if mmonth m < 10 then mmonth m + 3 else mmonth m - 9) = m" using m by (auto simp: mmonth_def)
  have s8: "?Y + myear y m div 400 * 400 + of_bool (m \<le> 2) = y" by (simp add: myear_def)
  show ?thesis unfolding civil_from_days_def Let_def s1 s2 s3 s4 s5 s6 s7 s8 ..
qed

text \<open>Every number of days since 1970 is a date.\<close>

lemma number_of_civil:
  obtains y m d where "civil_from_days z = (y, m, d)" "date_ok (y, m, d)" "0 \<le> myear y m"
    "day_number y m d = int z + 719468"
proof -
  let ?zz = "int z + 719468"
  obtain Y doy where Y: "0 \<le> Y" "Y \<le> 399" "0 \<le> doy" "doy < ylen Y" "?zz mod 146097 = ystart Y + doy"
    using year_of_day [of "?zz mod 146097"] by auto
  let ?E = "?zz div 146097"
  have E: "0 \<le> ?E" by simp
  have "ylen (Y + ?E * 400) = ylen Y" using leap_mod [of "Y + ?E * 400"] leap_mod [of Y] by (simp add: ylen_def)
  then obtain m d where md: "date_ok (Y + ?E * 400 + of_bool (m \<le> 2), m, d)" "doy = mstart (mmonth m) + d - 1"
    using month_of_day [of doy "Y + ?E * 400"] Y by auto
  let ?y = "Y + ?E * 400 + of_bool (m \<le> 2)"
  have my: "myear ?y m = Y + ?E * 400" by (simp add: myear_def)
  have my2: "(Y + ?E * 400) div 400 = ?E" "(Y + ?E * 400) mod 400 = Y" using Y by auto
  have "?E * 146097 + (ystart Y + (mstart (mmonth m) + d - 1)) = ?zz"
    using div_mult_mod_eq [of ?zz 146097] unfolding Y(5) md(2) .
  then have n: "day_number ?y m d = ?zz" unfolding day_number_def my my2 .
  have "0 \<le> myear ?y m" using my Y E by simp
  then show ?thesis using that [OF civil_of_number [OF md(1) _ n [symmetric]] md(1) _ n] by simp
qed

lemma days_from_civil_number:
  assumes "date_ok (y, m, d)" "0 \<le> myear y m"
  shows "days_from_civil y m d = to_u32 (day_number y m d - 719468)"
proof -
  have e: "(153 * (m + (if 2 < m then - 3 else 9)) + 2) sdiv 5 = mstart (mmonth m)"
    using assms by (simp add: date_ok_def mstart_def mmonth_def sdiv_pos)
  have e2: "y - of_bool (m \<le> 2) = myear y m" by (simp add: myear_def)
  have e3: "myear y m sdiv 400 = myear y m div 400" using assms by (simp add: sdiv_pos)
  have e4: "myear y m - myear y m div 400 * 400 = myear y m mod 400" by (simp add: minus_div_mult_eq_mod)
  have e5: "myear y m mod 400 * 365 + myear y m mod 400 sdiv 4 - myear y m mod 400 sdiv 100 = ystart (myear y m mod 400)"
    by (simp add: sdiv_pos ystart_def)
  show ?thesis unfolding days_from_civil_def Let_def e e2 e3 e4 e5 day_number_def by (simp add: algebra_simps)
qed

lemma days_from_civil_from_days:
  assumes "z < 2 ^ 32" "civil_from_days z = (y, m, d)"
  shows "days_from_civil y m d = z"
proof -
  obtain "date_ok (y, m, d)" "0 \<le> myear y m" "day_number y m d = int z + 719468"
    using number_of_civil [of z] assms(2) by (metis prod.inject)
  then show ?thesis using assms(1) by (simp add: days_from_civil_number to_u32_def)
qed

lemma civil_from_days_from_civil:
  assumes "date_ok (y, m, d)" "0 \<le> myear y m" "719468 \<le> day_number y m d" "day_number y m d < 719468 + 2 ^ 32"
  shows "civil_from_days (days_from_civil y m d) = (y, m, d)"
  using assms by (intro civil_of_number) (simp_all add: days_from_civil_number to_u32_def)

lemma era_succ:
  "(y + 1) div 400 * 146097 + ystart ((y + 1) mod 400) = y div 400 * 146097 + ystart (y mod 400) + ylen y"
proof -
  have l: "ylen (y mod 400) = ylen y" by (simp add: ylen_def leap_mod)
  have b: "0 \<le> y mod 400" "y mod 400 \<le> 399" using pos_mod_bound [of 400 y] by simp_all
  have e: "y + 1 = 400 * (y div 400) + (y mod 400 + 1)" by simp
  show ?thesis
  proof (cases "y mod 400 = 399")
    case True
    then have e2: "y + 1 = (y div 400 + 1) * 400" using e by simp
    then have "(y + 1) div 400 = y div 400 + 1" by simp
    moreover have "(y + 1) mod 400 = 0" by (subst e2) simp
    ultimately have "(y + 1) div 400 = y div 400 + 1" "(y + 1) mod 400 = 0" .
    then show ?thesis using True l by (simp add: ystart_def ylen_def leap_def)
  next
    case False
    then have r: "0 \<le> y mod 400 + 1" "y mod 400 + 1 < 400" "y mod 400 < 399" using b by linarith+
    have "(y + 1) div 400 = y div 400" using int_div_pos_eq [OF e r(1,2)] .
    moreover have "(y + 1) mod 400 = y mod 400 + 1" using int_mod_pos_eq [OF e r(1,2)] .
    ultimately show ?thesis using ystart_succ [OF b(1) r(3)] l by simp
  qed
qed

lemma next_date_number:
  assumes ok: "date_ok (y, m, d)" and n: "next_date (y, m, d) = (y', m', d')"
  shows "date_ok (y', m', d') \<and> day_number y' m' d' = day_number y m d + 1"
proof (cases "d < mlen y m")
  case True
  then show ?thesis using assms by (auto simp: next_date_def date_ok_def day_number_def)
next
  case False
  then have d: "d = mlen y m" using ok by (simp add: date_ok_def)
  have m: "m \<in> {1, 2, 3, 4, 5, 6, 7, 8, 9, 10, 11, 12}" using ok months by (simp add: date_ok_def)
  show ?thesis
  proof (cases "m = 2")
    case True
    then have "mlen y m = ylen (y - 1) - 337" "y' = y" "m' = 3" "d' = 1"
      using n d False by (auto simp: mlen_def ylen_def next_date_def)
    then show ?thesis
      using True d era_succ [of "y - 1"]
      by (simp add: date_ok_def day_number_def mlen_def mstart_def mmonth_def myear_def)
  next
    case F2: False
    then show ?thesis
      using m d n False
      by (elim insertE emptyE)
        (auto simp: next_date_def date_ok_def day_number_def mlen_def mstart_def mmonth_def myear_def)
  qed
qed

lemma next_date_civil: "civil_from_days (z + 1) = next_date (civil_from_days z)"
proof -
  obtain y m d where z: "civil_from_days z = (y, m, d)" "date_ok (y, m, d)" "0 \<le> myear y m"
    "day_number y m d = int z + 719468" using number_of_civil .
  obtain y' m' d' where n: "next_date (y, m, d) = (y', m', d')" by (metis surj_pair)
  have "0 \<le> myear y' m'" using n z(2,3) by (auto simp: next_date_def myear_def date_ok_def of_bool_def split: if_splits)
  then show ?thesis
    using next_date_number [OF z(2) n] z civil_of_number [of y' m' d' "z + 1"] by (simp add: n)
qed

section \<open>The chip\<close>

lemma bcd_to_bcd_all: "list_all (\<lambda>v. bcd (to_bcd v) = v \<and> 0 \<le> to_bcd v \<and> to_bcd v < 256) [0..99]"
  by code_simp

lemma bcd_to_bcd: "0 \<le> v \<Longrightarrow> v < 100 \<Longrightarrow> bcd (to_bcd v) = v \<and> 0 \<le> to_bcd v \<and> to_bcd v < 256"
  using bcd_to_bcd_all by (simp add: list_all_iff)

lemma hours_all:
  "list_all (\<lambda>h. to_bcd h AND 0x80 = 0 \<and> to_bcd h AND 0x7F = to_bcd h \<and> h AND 0x80 = 0 \<and> h AND 0x7F = h) [0..23]"
  by code_simp

lemma hours:
  "0 \<le> h \<Longrightarrow> h < 24 \<Longrightarrow> to_bcd h AND 0x80 = 0 \<and> to_bcd h AND 0x7F = to_bcd h \<and> h AND 0x80 = 0 \<and> h AND 0x7F = h"
  using hours_all by (simp add: list_all_iff)

lemma uint_byte: "0 \<le> v \<Longrightarrow> v < 256 \<Longrightarrow> uint (word_of_int v :: u8) = v"
  by (simp add: uint_word_of_int_eq take_bit_int_eq_self)

lemma and_2_bit: "w AND 2 = 0 \<longleftrightarrow> \<not> bit w 1" "w AND 4 = 0 \<longleftrightarrow> \<not> bit w 2" for w :: u8
  using and_exp_eq_0_iff_not_bit [of w 1] and_exp_eq_0_iff_not_bit [of w 2] by simp_all

text \<open>What the chip holds after a write: the six fields and the mode, with 24 hours set.\<close>

lemma rtc_write_regs:
  fixes c :: chip
  assumes "rtc_fields t = [s, mi, h, d, mo, y]"
  defines "cv \<equiv> (if reg c 0x0B AND 4 = 0 then to_bcd else (\<lambda>v. v))" and "c' \<equiv> rtc_write_epoch t c"
  shows "reg c' 0x00 = word_of_int (cv s)" "reg c' 0x02 = word_of_int (cv mi)" "reg c' 0x04 = word_of_int (cv h)"
    "reg c' 0x07 = word_of_int (cv d)" "reg c' 0x08 = word_of_int (cv mo)" "reg c' 0x09 = word_of_int (cv y)"
    "bit (reg c' 0x0B) 2 = bit (reg c 0x0B) 2" "bit (reg c' 0x0B) 1"
proof -
  note defs = c'_def cv_def rtc_write_epoch_def assms(1) cmos_def cmos_write_def out70_def out71_def Let_def
  show "reg c' 0x00 = word_of_int (cv s)" "reg c' 0x02 = word_of_int (cv mi)" "reg c' 0x04 = word_of_int (cv h)"
    "reg c' 0x07 = word_of_int (cv d)" "reg c' 0x08 = word_of_int (cv mo)" "reg c' 0x09 = word_of_int (cv y)"
    by (simp_all add: defs)
  show "bit (reg c' 0x0B) 2 = bit (reg c 0x0B) 2" "bit (reg c' 0x0B) 1"
    by (simp_all add: defs bit_simps and_2_bit)
qed

lemma rtc_read_regs:
  "fst (rtc_read_epoch c) = rtc_decode (uint (reg c 0x00)) (uint (reg c 0x02)) (uint (reg c 0x04)) (uint (reg c 0x07))
     (uint (reg c 0x08)) (uint (reg c 0x09)) (uint (reg c 0x0B))"
  by (simp add: rtc_read_epoch_def cmos_def out70_def Let_def)

lemma uint_and_bit: "uint (w :: u8) AND 2 = 0 \<longleftrightarrow> \<not> bit w 1" "uint (w :: u8) AND 4 = 0 \<longleftrightarrow> \<not> bit w 2"
  using and_exp_eq_0_iff_not_bit [of "uint w" 1] and_exp_eq_0_iff_not_bit [of "uint w" 2]
  by (simp_all add: bit_uint_iff)

lemma rtc_read_write:
  assumes f: "rtc_fields t = [s, mi, h, d, mo, y]"
    and r: "0 \<le> s" "s < 100" "0 \<le> mi" "mi < 100" "0 \<le> h" "h < 24" "0 \<le> y" "y < 100" "0 \<le> d" "d < 100" "0 \<le> mo" "mo < 100"
  shows "fst (rtc_read_epoch (rtc_write_epoch t c)) = to_u32 (int (civil_days (2000 + y) mo d) * 86400 + (h * 3600 + mi * 60 + s))"
proof (cases "bit (reg c 0x0B) 2")
  case True
  then show ?thesis
    using r hours [OF r(5,6)]
    by (simp add: rtc_read_regs rtc_write_regs [OF f] uint_byte rtc_decode_def uint_and_bit and_2_bit Let_def del: One_nat_def)
next
  case False
  then show ?thesis
    using r hours [OF r(5,6)] bcd_to_bcd [OF r(1,2)] bcd_to_bcd [OF r(3,4)] bcd_to_bcd [OF r(5)]
      bcd_to_bcd [OF r(7,8)] bcd_to_bcd [OF r(9,10)] bcd_to_bcd [OF r(11,12)]
    by (simp add: rtc_read_regs rtc_write_regs [OF f] uint_byte rtc_decode_def uint_and_bit and_2_bit Let_def del: One_nat_def)
qed

lemma rtc_roundtrip_ok:
  assumes t: "t < 2 ^ 32" and ymd: "civil_from_days (t div 86400) = (y, mo, d)" and y: "2000 \<le> y" "y \<le> 2099"
  shows "fst (rtc_read_epoch (rtc_write_epoch t c)) = t"
proof -
  let ?s = "int (t mod 60)" and ?mi = "int (t mod 3600 div 60)" and ?h = "int (t mod 86400 div 3600)" and ?y = "y - 2000"
  have "y smod 100 = ?y" using y by (simp add: smod_pos) presburger
  then have f: "rtc_fields t = [?s, ?mi, ?h, d, mo, ?y]" by (simp add: rtc_fields_def ymd)
  note w = rtc_write_regs [OF f, of c]
  have "date_ok (y, mo, d)" using number_of_civil [of "t div 86400"] ymd by (metis prod.inject)
  then have dm: "0 \<le> d" "d < 100" "0 \<le> mo" "mo < 100" by (auto simp: date_ok_def mlen_def of_bool_def split: if_splits)
  have r: "0 \<le> ?s" "?s < 100" "0 \<le> ?mi" "?mi < 100" "0 \<le> ?h" "?h < 24" "0 \<le> ?y" "?y < 100"
    using y by auto
  have z: "civil_days (2000 + ?y) mo d = t div 86400"
    using days_from_civil_from_days [OF _ ymd] t by (simp add: civil_days_def)
  have "t mod 86400 mod 3600 = t mod 3600" "t mod 3600 mod 60 = t mod 60" by (simp_all add: mod_mod_cancel)
  then have "t div 86400 * 86400 + (t mod 86400 div 3600 * 3600 + t mod 3600 div 60 * 60 + t mod 60) = t"
    using div_mult_mod_eq [of t 86400] div_mult_mod_eq [of "t mod 86400" 3600] div_mult_mod_eq [of "t mod 3600" 60]
    by linarith
  then have tt: "int (t div 86400) * 86400 + (?h * 3600 + ?mi * 60 + ?s) = int t" by linarith
  have "fst (rtc_read_epoch (rtc_write_epoch t c)) = to_u32 (int (civil_days (2000 + ?y) mo d) * 86400 + (?h * 3600 + ?mi * 60 + ?s))"
    by (rule rtc_read_write [OF f r dm])
  then show ?thesis unfolding z tt using t by (simp add: to_u32_def)
qed

section \<open>The wall clock\<close>

lemma to_s64_mod: "(a + to_s64 b) mod 2 ^ 64 = (a + b) mod 2 ^ 64" "(a - to_s64 b) mod 2 ^ 64 = (a - b) mod 2 ^ 64"
proof -
  have m: "to_s64 b mod 2 ^ 64 = b mod 2 ^ 64" by (simp add: to_s64_def mod_simps)
  show "(a + to_s64 b) mod 2 ^ 64 = (a + b) mod 2 ^ 64" using m by (rule mod_add_cong [OF refl])
  show "(a - to_s64 b) mod 2 ^ 64 = (a - b) mod 2 ^ 64" using m by (rule mod_diff_cong [OF refl])
qed

lemma now_us_set:
  assumes "tsc \<noteq> 0" "tsc \<le> tsc'" "sec * 1000000 + nsec div 1000 + (tsc' - tsc) < 2 ^ 32 * 1000000"
  shows "now_us tsc' pit (clock_set tsc pit sec nsec st) = sec * 1000000 + nsec div 1000 + (tsc' - tsc)"
proof -
  let ?s = "int sec * 1000000 + int (nsec div 1000)"
  have "(int tsc' + to_s64 (?s - to_s64 (int tsc))) mod 2 ^ 64 = (int tsc' + ?s - to_s64 (int tsc)) mod 2 ^ 64"
    by (simp only: to_s64_mod add_diff_eq)
  also have "\<dots> = (int tsc' + ?s - int tsc) mod 2 ^ 64" by (simp only: to_s64_mod)
  also have "int tsc' + ?s - int tsc = int (sec * 1000000 + nsec div 1000 + (tsc' - tsc))" using assms(2) by simp
  finally show ?thesis
    using assms by (simp add: now_us_def clock_set_def uptime_us_def nat_mod_distrib del: of_nat_add of_nat_mult)
qed

section \<open>Properties\<close>

text \<open>C36: The dates of \<open>civil_from_days\<close> are the Gregorian calendar: day 0 is 1 January 1970 and every day is followed
  by the next date; \<open>days_from_civil\<close> gives back the number of the day.\<close>

theorem civil_is_calendar:
  "civil_from_days 0 = (1970, 1, 1) \<and>
   civil_from_days (z + 1) = next_date (civil_from_days z) \<and>
   (case civil_from_days z of (y, m, d) \<Rightarrow> days_from_civil y m d = z mod 2 ^ 32)"
proof -
  have "civil_from_days 0 = (1970, 1, 1)"
    by (rule civil_of_number) (simp_all add: date_ok_def mlen_def myear_def day_number_def mmonth_def mstart_def ystart_def)
  moreover have "case civil_from_days z of (y, m, d) \<Rightarrow> days_from_civil y m d = z mod 2 ^ 32"
  proof -
    obtain y m d where "civil_from_days z = (y, m, d)" "date_ok (y, m, d)" "0 \<le> myear y m"
      "day_number y m d = int z + 719468" using number_of_civil .
    then show ?thesis by (simp add: days_from_civil_number to_u32_def nat_mod_distrib)
  qed
  ultimately show ?thesis using next_date_civil by blast
qed

text \<open>C37: Setting the clock sets both clocks: the wall clock reads the set time plus the time that has passed, to the
  microsecond, and the chip gives the set second back, whichever of its modes (BCD or binary, 12 or 24 hours) it was in,
  for every second of the years 2000 to 2099.\<close>

theorem clock_set_both:
  assumes "sec < 2 ^ 32" and "fst (civil_from_days (sec div 86400)) \<in> {2000..2099}"
    and "tsc \<noteq> 0" "tsc \<le> tsc'" "sec * 1000000 + nsec div 1000 + (tsc' - tsc) < 2 ^ 32 * 1000000"
  shows "(let (s, u) = clock_now_us tsc' pit (clock_set tsc pit sec nsec st)
          in s * 1000000 + u = sec * 1000000 + nsec div 1000 + (tsc' - tsc)) \<and>
         fst (rtc_read_epoch (chp (clock_set tsc pit sec nsec st))) = sec"
proof -
  obtain y m d where ymd: "civil_from_days (sec div 86400) = (y, m, d)" by (metis surj_pair)
  then have "fst (rtc_read_epoch (chp (clock_set tsc pit sec nsec st))) = sec"
    using rtc_roundtrip_ok [OF assms(1) ymd] assms(2) by (simp add: clock_set_def)
  moreover have "now_us tsc' pit (clock_set tsc pit sec nsec st) div 1000000 < 2 ^ 32"
    using now_us_set [OF assms(3-5)] assms(5) by (simp add: less_mult_imp_div_less)
  ultimately show ?thesis using now_us_set [OF assms(3-5)] by (simp add: clock_now_us_def Let_def)
qed

definition ex_clock :: clock where
  "ex_clock = \<lparr>wall_off = 0, rtc_ups = 0, rtc_uie = False, irq8 = False, chp = \<lparr>sel = 0, reg = (\<lambda>_. 0)\<rparr>\<rparr>"

lemma clock_set_both_witness:
  "fst (civil_from_days (1700000000 div 86400)) = 2023 \<and>
   fst (rtc_read_epoch (chp (clock_set 5000000 0 1700000000 0 ex_clock))) = 1700000000"
proof -
  have "civil_from_days (1700000000 div 86400) = (2023, 11, 14)"
    by (rule civil_of_number) (simp_all add: date_ok_def mlen_def myear_def day_number_def mmonth_def mstart_def ystart_def)
  then show ?thesis
    using clock_set_both [of 1700000000 5000000 6000000 0 0 ex_clock] by simp
qed

end
