(* ===== verification/Swap.thy ===== *)
theory Swap
  imports Kernel_Prelude
begin

text \<open>
  \<open>src/src/core/swap.c\<close>: swap areas on whole disks, in the format of \<open>mkswap\<close>. An area keeps one byte for
  each of its 4 KiB slots: 0 for a free slot, the number of page table entries that refer to it, or 255
  for the header and bad pages. A slot is named by its area and its page. The disk, the memory for the
  map and the draining of an area by the memory manager are arguments.
\<close>

record area =
  on :: bool
  disk :: int
  prio :: int
  pages :: nat
  used :: nat
  nxt :: nat
  smap :: "nat list option"

abbreviation SWAP_AREAS :: nat where "SWAP_AREAS \<equiv> 4"

definition swap_boot :: "area list" where
  "swap_boot = replicate SWAP_AREAS \<lparr>on = False, disk = 0, prio = 0, pages = 0, used = 0, nxt = 0, smap = None\<rparr>"

definition le32 :: "(nat \<Rightarrow> u8) \<Rightarrow> nat \<Rightarrow> nat" where "le32 p a = le_nat p a 4"

definition swap_area_of :: "int \<Rightarrow> area list \<Rightarrow> nat option" where
  "swap_area_of d ar = first_idx (\<lambda>s. on s \<and> disk s = d) ar"

section \<open>Switching areas on and off\<close>

text \<open>A write at an index outside the map is \<open>None\<close>.\<close>

definition mark :: "nat \<Rightarrow> nat list \<Rightarrow> nat list option" where
  "mark b m = (if b < length m then Some (m[b := 255]) else None)"

fun mark_bad :: "(nat \<Rightarrow> u8) \<Rightarrow> nat \<Rightarrow> nat list \<Rightarrow> nat list \<Rightarrow> nat list option" where
  "mark_bad hdr lst [] m = Some m"
| "mark_bad hdr lst (i # js) m =
     (let b = le32 hdr (1536 + i * 4) in
      if b \<noteq> 0 \<and> b \<le> lst then Option.bind (mark b m) (mark_bad hdr lst js) else mark_bad hdr lst js m)"

definition swap_sig :: "u8 list" where
  "swap_sig = map of_nat [0x53, 0x57, 0x41, 0x50, 0x53, 0x50, 0x41, 0x43, 0x45, 0x32]"

text \<open>The number of the last page: what the header says, cut down to the size of the disk.\<close>

definition last_page :: "(nat \<Rightarrow> u8) \<Rightarrow> nat \<Rightarrow> nat" where
  "last_page hdr sectors =
     (let last = le32 hdr 1028; dpages = sectors div 8
      in if dpages < add32 last 1 then sub64 dpages 1 mod 2 ^ 32 else last)"

text \<open>\<open>hdr\<close> is the first page of the disk, if it can be read; \<open>mem\<close> says that \<open>kmalloc\<close> has room for the
  map; a request of 0 bytes it never meets. \<open>None\<close> is a write outside the map.\<close>

definition swap_on ::
  "(int \<Rightarrow> bool) \<Rightarrow> (nat \<Rightarrow> u8) option \<Rightarrow> nat \<Rightarrow> bool \<Rightarrow> int \<Rightarrow> int \<Rightarrow> area list \<Rightarrow> (int \<times> area list) option" where
  "swap_on present rd sectors mem d pr ar =
     (if \<not> present d then Some (- 19, ar)
      else if swap_area_of d ar \<noteq> None then Some (- 16, ar)
      else case first_idx (\<lambda>s. \<not> on s \<and> smap s = None) ar of
        None \<Rightarrow> Some (- 24, ar)
      | Some a \<Rightarrow>
        (case rd of
           None \<Rightarrow> Some (- 5, ar)
         | Some hdr \<Rightarrow>
           if map hdr [4086..<4096] \<noteq> swap_sig \<or> le32 hdr 1024 \<noteq> 1 then Some (- 22, ar)
           else let last = last_page hdr sectors in
             if last < 10 then Some (- 22, ar)
             else if add32 last 1 = 0 \<or> \<not> mem then Some (- 12, ar)
             else Option.bind (mark 0 (replicate (add32 last 1) 0)) (\<lambda>m0.
                  Option.bind (mark_bad hdr last [0..<min (le32 hdr 1032) 512] m0) (\<lambda>m.
                    Some (0, ar[a := \<lparr>on = True, disk = d, prio = pr, pages = add32 last 1, used = 0, nxt = 1,
                                      smap = Some m\<rparr>])))))"

text \<open>\<open>drain\<close> is \<open>vmm_swap_drain\<close>: its answer, and what it leaves of the areas after its calls of \<open>swap_put\<close>.\<close>

definition swap_off :: "(nat \<Rightarrow> area list \<Rightarrow> int \<times> area list) \<Rightarrow> int \<Rightarrow> area list \<Rightarrow> int \<times> area list" where
  "swap_off drain d ar =
     (case swap_area_of d ar of
        None \<Rightarrow> (- 22, ar)
      | Some a \<Rightarrow>
          let (r, ar1) = drain a (ar[a := (ar ! a)\<lparr>on := False\<rparr>]) in
          if r < 0 then (- 12, ar1[a := (ar1 ! a)\<lparr>on := True\<rparr>])
          else (0, ar1[a := (ar1 ! a)\<lparr>smap := None\<rparr>]))"

definition swap_active :: "area list \<Rightarrow> nat" where
  "swap_active ar = (\<Sum>s\<leftarrow>ar. of_bool (on s))"

section \<open>Slots\<close>

fun pick :: "nat \<Rightarrow> area list \<Rightarrow> (nat \<times> int) option \<Rightarrow> (nat \<times> int) option" where
  "pick i [] best = best"
| "pick i (s # ss) best =
     pick (Suc i) ss
       (if on s \<and> used s < sub32 (pages s) 1 \<and> (case best of None \<Rightarrow> True | Some (_, p) \<Rightarrow> p < prio s)
        then Some (i, prio s) else best)"

text \<open>The first free slot from \<open>next\<close> on, around the end.\<close>

definition free_from :: "area \<Rightarrow> nat list \<Rightarrow> nat option" where
  "free_from s m =
     map_option (\<lambda>n. add32 (nxt s) n mod pages s)
       (first_idx (\<lambda>n. m ! (add32 (nxt s) n mod pages s) = 0) [0..<pages s])"

definition slot_of :: "nat \<Rightarrow> nat \<Rightarrow> nat" where "slot_of a i = (a * 2 ^ 28) OR i"

definition swap_alloc :: "area list \<Rightarrow> nat option \<times> area list" where
  "swap_alloc ar =
     (case pick 0 ar None of
        None \<Rightarrow> (None, ar)
      | Some (a, _) \<Rightarrow>
          let s = ar ! a; m = the (smap s) in
          case free_from s m of
            None \<Rightarrow> (None, ar)
          | Some i \<Rightarrow> (Some (slot_of a i),
                       ar[a := s\<lparr>smap := Some (m[i := 1]), used := add32 (used s) 1, nxt := add32 i 1\<rparr>]))"

definition slot_area :: "nat \<Rightarrow> nat" where "slot_area slot = slot div 2 ^ 28"
definition slot_page :: "nat \<Rightarrow> nat" where "slot_page slot = slot mod 2 ^ 28"

text \<open>\<open>None\<close> for a slot whose area is outside the table.\<close>

definition swap_dup :: "nat \<Rightarrow> area list \<Rightarrow> area list option" where
  "swap_dup slot ar =
     (let a = slot_area slot; i = slot_page slot in
      if length ar \<le> a then None
      else let s = ar ! a in
        Some (case smap s of
                Some m \<Rightarrow> if i < pages s \<and> m ! i \<noteq> 0 \<and> m ! i < 254 then ar[a := s\<lparr>smap := Some (m[i := m ! i + 1])\<rparr>] else ar
              | None \<Rightarrow> ar))"

definition swap_put :: "nat \<Rightarrow> area list \<Rightarrow> area list option" where
  "swap_put slot ar =
     (let a = slot_area slot; i = slot_page slot in
      if length ar \<le> a then None
      else let s = ar ! a in
        Some (case smap s of
                Some m \<Rightarrow>
                  if i < pages s \<and> m ! i \<noteq> 0 \<and> m ! i < 254
                  then ar[a := s\<lparr>smap := Some (m[i := m ! i - 1]),
                                 used := (if m ! i - 1 = 0 then sub32 (used s) 1 else used s)\<rparr>]
                  else ar
              | None \<Rightarrow> ar))"

section \<open>Input and output, totals\<close>

text \<open>The transfers are \<open>n\<close> slots of 8 sectors each; \<open>ata_write\<close> and \<open>ata_read\<close> act on the disks.\<close>

definition swap_write :: "(int \<Rightarrow> nat \<Rightarrow> nat \<Rightarrow> 'b \<Rightarrow> 'd \<Rightarrow> int \<times> 'd) \<Rightarrow> nat \<Rightarrow> nat \<Rightarrow> 'b \<Rightarrow> area list \<Rightarrow> 'd \<Rightarrow> int \<times> 'd" where
  "swap_write ata_write slot n buf ar dk =
     ata_write (disk (ar ! slot_area slot)) (slot_page slot * 8 mod 2 ^ 32) (n * 8) buf dk"

definition swap_read :: "(int \<Rightarrow> nat \<Rightarrow> nat \<Rightarrow> 'd \<Rightarrow> int \<times> 'b) \<Rightarrow> nat \<Rightarrow> area list \<Rightarrow> 'd \<Rightarrow> int \<times> 'b" where
  "swap_read ata_read slot ar dk = ata_read (disk (ar ! slot_area slot)) (slot_page slot * 8 mod 2 ^ 32) 8 dk"

definition swap_total :: "area list \<Rightarrow> nat" where
  "swap_total ar = (\<Sum>s\<leftarrow>ar. if on s then sub32 (pages s) 1 else 0) mod 2 ^ 64"

definition swap_free :: "area list \<Rightarrow> nat" where
  "swap_free ar = (\<Sum>s\<leftarrow>ar. if on s then sub32 (sub32 (pages s) 1) (used s) else 0) mod 2 ^ 64"

definition swap_info :: "(int \<Rightarrow> string) \<Rightarrow> int \<Rightarrow> area list \<Rightarrow> (string \<times> nat \<times> nat \<times> int) option" where
  "swap_info ata_drive_name i ar =
     (if i < 0 \<or> int SWAP_AREAS \<le> i \<or> \<not> on (ar ! nat i) then None
      else let s = ar ! nat i in
        Some (''/dev/'' @ ata_drive_name (disk s), sub32 (pages s) 1 * 4, used s * 4, prio s))"

end
