(* ===== verification/Swap_Correct.thy ===== *)
theory Swap_Correct
  imports Swap
begin

text \<open>
  The areas of \<open>Swap\<close> after any sequence of calls: the use counts are exact and a slot is handed out only
  while nobody holds it. Whatever the header says, switching an area on writes inside its map only. Bad pages in
  the area of highest priority hide the room in the others.
\<close>

section \<open>The invariant\<close>

definition in_use :: "nat list \<Rightarrow> nat" where
  "in_use m = length (filter (\<lambda>x. x \<noteq> 0 \<and> x \<noteq> 255) m)"

definition map_ok :: "area \<Rightarrow> nat list \<Rightarrow> bool" where
  "map_ok s m \<longleftrightarrow> length m = pages s \<and> 11 \<le> pages s \<and> pages s \<le> 2 ^ 28 \<and> m ! 0 = 255 \<and>
     (\<forall>x\<in>set m. x \<le> 255) \<and> used s = in_use m \<and> nxt s \<le> pages s"

definition area_ok :: "area \<Rightarrow> bool" where
  "area_ok s \<longleftrightarrow> (case smap s of Some m \<Rightarrow> map_ok s m | None \<Rightarrow> \<not> on s)"

definition swap_inv :: "area list \<Rightarrow> bool" where
  "swap_inv ar \<longleftrightarrow> length ar = SWAP_AREAS \<and> (\<forall>s\<in>set ar. area_ok s) \<and>
     (\<forall>i j. i < j \<and> j < SWAP_AREAS \<and> on (ar ! i) \<and> on (ar ! j) \<longrightarrow> disk (ar ! i) \<noteq> disk (ar ! j))"

text \<open>One area replaced by another of the same disk that is on at most when the old one was.\<close>

lemma swap_inv_update:
  assumes "swap_inv ar" "a < length ar" "area_ok s" "on s \<Longrightarrow> on (ar ! a)" "disk s = disk (ar ! a)"
  shows "swap_inv (ar[a := s])"
  using assms unfolding swap_inv_def
  by (auto simp: nth_list_update dest!: set_update_subset_insert [THEN subsetD] split: if_splits)

lemma swap_inv_nth: "swap_inv ar \<Longrightarrow> a < length ar \<Longrightarrow> area_ok (ar ! a)"
  by (simp add: swap_inv_def)

lemma in_use_update:
  assumes "i < length m"
  shows "in_use (m[i := x]) + of_bool (m ! i \<noteq> 0 \<and> m ! i \<noteq> 255) = in_use m + of_bool (x \<noteq> 0 \<and> x \<noteq> 255)"
  using length_filter_update [OF assms, of "\<lambda>x. x \<noteq> 0 \<and> x \<noteq> 255" x] by (simp add: in_use_def)

lemma in_use_lt: "m ! 0 = 255 \<Longrightarrow> m \<noteq> [] \<Longrightarrow> in_use m < length m"
  unfolding in_use_def by (rule length_filter_less [of 255]) (auto simp: in_set_conv_nth)

lemma set_update_le: "\<forall>x\<in>set m. x \<le> (b :: nat) \<Longrightarrow> y \<le> b \<Longrightarrow> \<forall>x\<in>set (m[i := y]). x \<le> b"
  by (auto dest!: set_update_subset_insert [THEN subsetD])

section \<open>The operations keep it\<close>

lemma swap_boot_inv: "swap_inv swap_boot"
  by (auto simp: swap_inv_def swap_boot_def area_ok_def)

lemma map_ok_dup:
  assumes "map_ok s m" "i < pages s" "m ! i \<noteq> 0" "m ! i < 254"
  shows "map_ok (s\<lparr>smap := Some (m[i := m ! i + 1])\<rparr>) (m[i := m ! i + 1])"
proof -
  have "i \<noteq> 0" using assms by (cases i) (auto simp: map_ok_def)
  then show ?thesis
    using assms in_use_update [of i m "m ! i + 1"] set_update_le [of m 255 "m ! i + 1" i] by (simp add: map_ok_def)
qed

lemma map_ok_put:
  assumes "map_ok s m" "i < pages s" "m ! i \<noteq> 0" "m ! i < 254"
  shows "map_ok (s\<lparr>smap := Some (m[i := m ! i - 1]), used := (if m ! i - 1 = 0 then sub32 (used s) 1 else used s)\<rparr>)
    (m[i := m ! i - 1])"
proof -
  have "i \<noteq> 0" using assms by (cases i) (auto simp: map_ok_def)
  moreover have "in_use m < 2 ^ 32" using assms(1) length_filter_le [of "\<lambda>x. x \<noteq> 0 \<and> x \<noteq> 255" m] by (simp add: map_ok_def in_use_def)
  moreover have "m ! i - 1 \<noteq> 255" using assms by simp
  ultimately show ?thesis
    using assms in_use_update [of i m "m ! i - 1"] set_update_le [of m 255 "m ! i - 1" i] by (auto simp: map_ok_def)
qed

lemma swap_map_inv:
  assumes "swap_inv ar" "a < length ar" "smap s = Some m" "map_ok s m" "on s = on (ar ! a)" "disk s = disk (ar ! a)"
  shows "swap_inv (ar[a := s])"
  using assms by (intro swap_inv_update) (auto simp: area_ok_def)

lemma swap_inv_map: "swap_inv ar \<Longrightarrow> a < length ar \<Longrightarrow> smap (ar ! a) = Some m \<Longrightarrow> map_ok (ar ! a) m"
  using swap_inv_nth [of ar a] by (simp add: area_ok_def)

lemma swap_dup_inv:
  assumes "swap_inv ar" "swap_dup slot ar = Some ar'"
  shows "swap_inv ar'"
proof (cases "smap (ar ! slot_area slot)")
  case (Some m)
  have a: "slot_area slot < length ar" using assms(2) by (auto simp: swap_dup_def Let_def split: if_splits)
  show ?thesis
    using assms(2) a Some swap_map_inv [OF assms(1) a _ map_ok_dup [OF swap_inv_map [OF assms(1) a Some]]] assms(1)
    by (auto simp: swap_dup_def Let_def split: if_splits)
qed (use assms in \<open>auto simp: swap_dup_def Let_def split: if_splits\<close>)

lemma swap_put_inv:
  assumes "swap_inv ar" "swap_put slot ar = Some ar'"
  shows "swap_inv ar'"
proof (cases "smap (ar ! slot_area slot)")
  case (Some m)
  have a: "slot_area slot < length ar" using assms(2) by (auto simp: swap_put_def Let_def split: if_splits)
  let ?s = "ar ! slot_area slot" and ?i = "slot_page slot"
  show ?thesis
  proof (cases "?i < pages ?s \<and> m ! ?i \<noteq> 0 \<and> m ! ?i < 254")
    case True
    then have "swap_inv (ar[slot_area slot := ?s\<lparr>smap := Some (m[?i := m ! ?i - 1]),
        used := (if m ! ?i - 1 = 0 then sub32 (used ?s) 1 else used ?s)\<rparr>])"
      by (intro swap_map_inv [OF assms(1) a _ map_ok_put [OF swap_inv_map [OF assms(1) a Some]]]) auto
    moreover have "ar' = ar[slot_area slot := ?s\<lparr>smap := Some (m[?i := m ! ?i - 1]),
        used := (if m ! ?i - 1 = 0 then sub32 (used ?s) 1 else used ?s)\<rparr>]"
      using assms(2) True a Some by (simp add: swap_put_def Let_def)
    ultimately show ?thesis by (simp only:)
  next
    case False
    then show ?thesis using assms a Some by (simp add: swap_put_def Let_def split: if_splits)
  qed
qed (use assms in \<open>auto simp: swap_put_def Let_def split: if_splits\<close>)

text \<open>Finding a free slot.\<close>

lemma free_from_Some:
  assumes "map_ok s m" "free_from s m = Some i"
  shows "i < pages s" "m ! i = 0"
  using assms by (auto simp: free_from_def first_idx_Some map_ok_def)

lemma free_from_None:
  assumes "map_ok s m" "free_from s m = None" "i < pages s"
  shows "m ! i \<noteq> 0"
proof -
  have p: "pages s \<le> 2 ^ 28" "nxt s \<le> pages s" "0 < pages s" using assms(1) by (auto simp: map_ok_def)
  define n where "n = (i + (pages s - nxt s)) mod pages s"
  have n: "n < pages s" using p by (simp add: n_def)
  have "(nxt s + n) mod pages s = i"
    using p assms(3) by (simp add: n_def mod_simps)
  moreover have "add32 (nxt s) n = nxt s + n" using n p by (intro add32_exact) simp
  ultimately have "add32 (nxt s) n mod pages s = i" by simp
  then show ?thesis using assms(2) n by (force simp: free_from_def first_idx_None)
qed

lemma map_ok_alloc:
  assumes "map_ok s m" "free_from s m = Some i"
  shows "map_ok (s\<lparr>smap := Some (m[i := 1]), used := add32 (used s) 1, nxt := add32 i 1\<rparr>) (m[i := 1])"
proof -
  note f = free_from_Some [OF assms]
  have "i \<noteq> 0" using f assms(1) by (cases i) (auto simp: map_ok_def)
  moreover have "in_use m < 2 ^ 28" using assms(1) in_use_lt [of m] by (cases m) (auto simp: map_ok_def)
  ultimately show ?thesis
    using assms(1) f in_use_update [of i m 1] set_update_le [of m 255 1 i] by (auto simp: map_ok_def)
qed

text \<open>The area that \<open>swap_alloc\<close> takes.\<close>

definition has_room :: "area \<Rightarrow> bool" where "has_room s \<longleftrightarrow> on s \<and> used s < sub32 (pages s) 1"

lemma pick_spec:
  "case pick i ss best of
     None \<Rightarrow> best = None \<and> (\<forall>s\<in>set ss. \<not> has_room s)
   | Some (a, p) \<Rightarrow> (best = Some (a, p) \<or> (\<exists>j<length ss. a = i + j \<and> has_room (ss ! j) \<and> p = prio (ss ! j))) \<and>
       (\<forall>s\<in>set ss. has_room s \<longrightarrow> prio s \<le> p) \<and> (case best of Some (_, q) \<Rightarrow> q \<le> p | None \<Rightarrow> True)"
proof (induction i ss best rule: pick.induct)
  case (1 i best)
  then show ?case by (auto split: option.splits)
next
  case (2 i s ss best)
  let ?b = "if on s \<and> used s < sub32 (pages s) 1 \<and> (case best of None \<Rightarrow> True | Some (_, p) \<Rightarrow> p < prio s)
        then Some (i, prio s) else best"
  have l: "(\<exists>j<length (s # ss). a = i + j \<and> has_room ((s # ss) ! j) \<and> p = prio ((s # ss) ! j)) \<longleftrightarrow>
     a = i \<and> has_room s \<and> p = prio s \<or> (\<exists>j<length ss. a = Suc i + j \<and> has_room (ss ! j) \<and> p = prio (ss ! j))" for a p
    by (auto simp: Ex_less_Suc2)
  show ?case
    using 2 unfolding l pick.simps by (cases best) (auto simp: has_room_def split: option.splits if_splits)
qed

lemma swap_alloc_cases:
  assumes "swap_inv ar"
  obtains (none) "pick 0 ar None = None" "swap_alloc ar = (None, ar)" "\<forall>s\<in>set ar. \<not> has_room s"
  | (taken) a m where "a < length ar" "has_room (ar ! a)" "\<forall>s\<in>set ar. has_room s \<longrightarrow> prio s \<le> prio (ar ! a)"
      "smap (ar ! a) = Some m" "map_ok (ar ! a) m" "free_from (ar ! a) m = None" "swap_alloc ar = (None, ar)"
  | (found) a m i where "a < length ar" "has_room (ar ! a)" "\<forall>s\<in>set ar. has_room s \<longrightarrow> prio s \<le> prio (ar ! a)"
      "smap (ar ! a) = Some m" "map_ok (ar ! a) m" "free_from (ar ! a) m = Some i"
      "swap_alloc ar = (Some (slot_of a i),
         ar[a := (ar ! a)\<lparr>smap := Some (m[i := 1]), used := add32 (used (ar ! a)) 1, nxt := add32 i 1\<rparr>])"
proof (cases "pick 0 ar None")
  case None
  then show ?thesis using none pick_spec [where i = 0 and ss = ar and best = None] by (simp add: swap_alloc_def)
next
  case (Some ap)
  obtain a p where ap: "ap = (a, p)" by (cases ap)
  have r: "a < length ar" "has_room (ar ! a)" "\<forall>s\<in>set ar. has_room s \<longrightarrow> prio s \<le> prio (ar ! a)"
    using pick_spec [where i = 0 and ss = ar and best = None] Some ap by auto
  then obtain m where m: "smap (ar ! a) = Some m" "map_ok (ar ! a) m"
    using swap_inv_nth [OF assms r(1)] by (auto simp: area_ok_def has_room_def split: option.splits)
  show ?thesis
  proof (cases "free_from (ar ! a) m")
    case None
    then show ?thesis using taken [OF r m] Some ap m by (simp add: swap_alloc_def)
  next
    case (Some i)
    then show ?thesis using found [OF r m] \<open>pick 0 ar None = Some ap\<close> ap m by (simp add: swap_alloc_def Let_def)
  qed
qed

lemma swap_alloc_inv: "swap_inv ar \<Longrightarrow> swap_inv (snd (swap_alloc ar))"
  by (rule swap_alloc_cases [of ar]) (auto intro!: swap_map_inv map_ok_alloc [simplified])

lemma mark_bad_spec:
  "mark_bad hdr lst js m = Some m' \<Longrightarrow> length m' = length m \<and> set m' \<subseteq> insert 255 (set m) \<and> (m ! 0 = 255 \<longrightarrow> m' ! 0 = 255)"
proof (induction hdr lst js m rule: mark_bad.induct)
  case (2 hdr lst i js m)
  let ?b = "le32 hdr (1536 + i * 4)"
  show ?case
  proof (cases "?b \<noteq> 0 \<and> ?b \<le> lst")
    case True
    then have b: "?b < length m" "mark_bad hdr lst js (m[?b := 255]) = Some m'"
      using "2.prems" by (auto simp: Let_def mark_def bind_eq_Some_conv split: if_splits)
    moreover have "set (m[?b := 255]) \<subseteq> insert 255 (set m)" by (rule set_update_subset_insert)
    ultimately show ?thesis using "2.IH"(1) [OF refl True, of "m[?b := 255]"] by (auto simp: mark_def nth_list_update)
  next
    case False
    then show ?thesis using 2 by (auto simp: Let_def)
  qed
qed auto

lemma swap_on_inv:
  assumes inv: "swap_inv ar" and on: "swap_on present rd sectors mem d pr ar = Some (r, ar')"
    and sane: "\<And>hdr. rd = Some hdr \<Longrightarrow> last_page hdr sectors < 2 ^ 28"
  shows "swap_inv ar'"
proof (cases "ar' = ar")
  case False
  then obtain a hdr m where fi: "first_idx (\<lambda>s. \<not> on s \<and> smap s = None) ar = Some a" and rd: "rd = Some hdr"
    and none: "swap_area_of d ar = None" and last: "10 \<le> last_page hdr sectors"
    and m: "mark_bad hdr (last_page hdr sectors) [0..<min (le32 hdr 1032) 512]
        ((replicate (add32 (last_page hdr sectors) 1) 0)[0 := 255]) = Some m"
    and ar': "ar' = ar[a := \<lparr>on = True, disk = d, prio = pr, pages = add32 (last_page hdr sectors) 1, used = 0, nxt = 1,
        smap = Some m\<rparr>]"
    using on by (auto simp: swap_on_def Let_def mark_def bind_eq_Some_conv not_less split: if_splits option.splits)
  have p: "add32 (last_page hdr sectors) 1 = last_page hdr sectors + 1" using sane [OF rd] by simp
  have "length m = last_page hdr sectors + 1" "set m \<subseteq> {0, 255}" "m ! 0 = 255"
    using mark_bad_spec [OF m] set_update_subset_insert [of "replicate (last_page hdr sectors + 1) (0::nat)" 0 255]
    unfolding p by (auto split: if_splits)
  moreover from this have "in_use m = 0" by (auto simp: in_use_def filter_empty_conv)
  ultimately have ok: "area_ok (ar' ! a)"
    using last sane [OF rd] first_idx_SomeD [OF fi] unfolding ar' p by (auto simp: area_ok_def map_ok_def)
  have "\<forall>s\<in>set ar. on s \<longrightarrow> disk s \<noteq> d" using none by (simp add: swap_area_of_def first_idx_None)
  then show ?thesis
    using inv ok first_idx_SomeD [OF fi] unfolding ar' swap_inv_def
    by (auto simp: nth_list_update dest!: set_update_subset_insert [THEN subsetD] split: if_splits)
qed (use inv in simp)

text \<open>While an area is drained, page table entries give their slots back.\<close>

fun puts :: "nat list \<Rightarrow> area list \<Rightarrow> area list" where
  "puts [] ar = ar"
| "puts (x # xs) ar = (case swap_put x ar of Some ar1 \<Rightarrow> puts xs ar1 | None \<Rightarrow> puts xs ar)"

lemma swap_put_keeps:
  "swap_put x ar = Some ar' \<Longrightarrow> length ar' = length ar \<and> (\<forall>a<length ar. on (ar' ! a) = on (ar ! a) \<and> disk (ar' ! a) = disk (ar ! a) \<and>
     (smap (ar' ! a) = None \<longleftrightarrow> smap (ar ! a) = None))"
  by (auto simp: swap_put_def Let_def nth_list_update split: if_splits option.splits)

lemma puts_inv:
  "swap_inv ar \<Longrightarrow> swap_inv (puts xs ar) \<and> (\<forall>a<length ar. on (puts xs ar ! a) = on (ar ! a) \<and> disk (puts xs ar ! a) = disk (ar ! a) \<and>
     (smap (puts xs ar ! a) = None \<longleftrightarrow> smap (ar ! a) = None))"
proof (induction xs arbitrary: ar)
  case (Cons x xs)
  show ?case
  proof (cases "swap_put x ar")
    case (Some ar1)
    then show ?thesis using Cons.IH [OF swap_put_inv [OF Cons.prems Some]] swap_put_keeps [OF Some] by simp
  qed (use Cons in simp)
qed simp

lemma swap_inv_same:
  assumes "swap_inv ar" "length ar' = length ar" "\<forall>s\<in>set ar'. area_ok s"
    "\<And>b. b < length ar \<Longrightarrow> on (ar' ! b) = on (ar ! b) \<and> disk (ar' ! b) = disk (ar ! b)"
  shows "swap_inv ar'"
  using assms unfolding swap_inv_def by auto

lemma swap_off_inv:
  assumes inv: "swap_inv ar" and drain: "drain = (\<lambda>a ar. (r, puts xs ar))"
  shows "swap_inv (snd (swap_off drain d ar))"
proof (cases "swap_area_of d ar")
  case None
  then show ?thesis using inv by (simp add: swap_off_def)
next
  case (Some a)
  then have a: "a < length ar" "on (ar ! a)" using first_idx_SomeD by (auto simp: swap_area_of_def)
  let ?ar = "ar[a := (ar ! a)\<lparr>on := False\<rparr>]"
  have "area_ok ((ar ! a)\<lparr>on := False\<rparr>)"
    using swap_inv_nth [OF inv a(1)] by (auto simp: area_ok_def map_ok_def split: option.splits)
  then have i: "swap_inv ?ar" using inv a by (intro swap_inv_update) auto
  have len: "length (puts xs ?ar) = length ar" using puts_inv [OF i, of xs] inv by (simp add: swap_inv_def)
  have k: "on (puts xs ?ar ! b) = on (?ar ! b)" "disk (puts xs ?ar ! b) = disk (?ar ! b)"
    "smap (puts xs ?ar ! b) = None \<longleftrightarrow> smap (?ar ! b) = None" if "b < length ar" for b
    using puts_inv [OF i, of xs] that by auto
  have ok: "area_ok (puts xs ?ar ! a)" using puts_inv [OF i, of xs] a swap_inv_nth len by simp
  have "smap (ar ! a) \<noteq> None" using swap_inv_nth [OF inv a(1)] a(2) by (auto simp: area_ok_def split: option.splits)
  then have up: "area_ok ((puts xs ?ar ! a)\<lparr>on := True\<rparr>)"
    using ok k(3) [OF a(1)] a by (auto simp: area_ok_def map_ok_def split: option.splits)
  have down: "area_ok ((puts xs ?ar ! a)\<lparr>smap := None\<rparr>)" using k(1) [OF a(1)] a by (simp add: area_ok_def)
  show ?thesis
  proof (cases "r < 0")
    case True
    have "swap_inv ((puts xs ?ar)[a := (puts xs ?ar ! a)\<lparr>on := True\<rparr>])"
    proof (rule swap_inv_same [OF inv])
      show "\<forall>s\<in>set ((puts xs ?ar)[a := (puts xs ?ar ! a)\<lparr>on := True\<rparr>]). area_ok s"
        using puts_inv [OF i, of xs] up by (auto simp: swap_inv_def dest!: set_update_subset_insert [THEN subsetD])
    qed (use len k a in \<open>auto simp: nth_list_update\<close>)
    then show ?thesis using Some True by (simp add: swap_off_def drain Let_def)
  next
    case False
    have "swap_inv ((puts xs ?ar)[a := (puts xs ?ar ! a)\<lparr>smap := None\<rparr>])"
      using puts_inv [OF i, of xs] down a len by (intro swap_inv_update) auto
    then show ?thesis using Some False by (simp add: swap_off_def drain Let_def)
  qed
qed

section \<open>Reachable states\<close>

text \<open>Everything the rest of the kernel does to the areas, with headers that name fewer than \<open>2 ^ 28\<close> pages (1 TiB), the
  most that a slot number can hold.\<close>

inductive swap_reach :: "area list \<Rightarrow> bool" where
  boot: "swap_reach swap_boot"
| on: "swap_reach ar \<Longrightarrow> (\<And>hdr. rd = Some hdr \<Longrightarrow> last_page hdr sectors < 2 ^ 28) \<Longrightarrow>
     swap_on present rd sectors mem d pr ar = Some (r, ar') \<Longrightarrow> swap_reach ar'"
| off: "swap_reach ar \<Longrightarrow> swap_reach (snd (swap_off (\<lambda>a ar. (r, puts xs ar)) d ar))"
| alloc: "swap_reach ar \<Longrightarrow> swap_reach (snd (swap_alloc ar))"
| dup: "swap_reach ar \<Longrightarrow> swap_dup slot ar = Some ar' \<Longrightarrow> swap_reach ar'"
| put: "swap_reach ar \<Longrightarrow> swap_put slot ar = Some ar' \<Longrightarrow> swap_reach ar'"

lemma swap_reach_inv_ok: "swap_reach ar \<Longrightarrow> swap_inv ar"
  by (induction rule: swap_reach.induct)
    (auto intro: swap_boot_inv swap_on_inv swap_off_inv [OF _ refl] swap_alloc_inv swap_dup_inv swap_put_inv)

text \<open>The references to a slot, and a slot number taken apart again.\<close>

definition slot_refs :: "area list \<Rightarrow> nat \<Rightarrow> nat option" where
  "slot_refs ar slot = (if slot_area slot < length ar then map_option (\<lambda>m. m ! slot_page slot) (smap (ar ! slot_area slot)) else None)"

lemma slot_of_add: "i < 2 ^ 28 \<Longrightarrow> slot_of a i = a * 2 ^ 28 + i"
proof -
  assume "i < 2 ^ 28"
  then have i: "take_bit 28 i = i" by (rule take_bit_nat_eq_self)
  have "push_bit 28 a AND i = 0"
    by (subst i [symmetric], rule bit_eqI) (auto simp: bit_simps)
  then have "push_bit 28 a + i = push_bit 28 a OR i" by (rule disjunctive_add_eq_or)
  then show ?thesis by (simp add: slot_of_def push_bit_eq_mult)
qed

lemma slot_parts: "i < 2 ^ 28 \<Longrightarrow> slot_area (slot_of a i) = a \<and> slot_page (slot_of a i) = i"
  by (simp add: slot_of_add slot_area_def slot_page_def)

lemma slot_of_parts: "slot_of (slot_area x) (slot_page x) = x"
  by (subst slot_of_add) (simp_all add: slot_area_def slot_page_def)

lemma in_use_count: "in_use m + count_list m 255 + count_list m 0 = length m"
  by (induction m) (auto simp: in_use_def)

lemma taken_bad_pages:
  assumes "has_room s" "map_ok s m" "free_from s m = None"
  shows "0 \<notin> set m \<and> count_list m 255 > 1"
proof -
  have z: "0 \<notin> set m" using free_from_None [OF assms(2,3)] assms(2) by (auto simp: in_set_conv_nth map_ok_def)
  then have "count_list m 0 = 0" by (simp add: count_list_0_iff)
  then show ?thesis using z assms(1,2) in_use_count [of m] by (auto simp: map_ok_def has_room_def)
qed

lemma slot_refs_update:
  assumes "a < length ar" "smap (ar ! a) = Some m" "i < length m" "i < 2 ^ 28" "smap s = Some (m[i := v])"
  shows "slot_refs (ar[a := s]) x = (if x = slot_of a i then Some v else slot_refs ar x)"
proof (cases "slot_area x = a")
  case True
  then have "x = slot_of a i \<longleftrightarrow> slot_page x = i" using slot_parts [OF assms(4), of a] slot_of_parts [of x] by auto
  then show ?thesis using True assms by (auto simp: slot_refs_def)
next
  case False
  then have "x \<noteq> slot_of a i" using slot_parts [OF assms(4), of a] by auto
  then show ?thesis using False by (simp add: slot_refs_def)
qed

section \<open>Properties\<close>

text \<open>C18: In every reachable state the areas that are on have their map, the map has a byte for every page with the
  header marked, the count of used slots is the number of slots that somebody refers to, and no disk is used twice.\<close>

theorem swap_reach_inv: "swap_reach ar \<Longrightarrow> swap_inv ar"
  by (rule swap_reach_inv_ok)

text \<open>C9: A slot that \<open>swap_alloc\<close> hands out had no reference and now has one, every other slot keeps its references, and
  the slot is in an area with room of the highest priority. It answers that swap is full only when no area has room or
  the one it looked at has no free slot although its count says so, which takes bad pages.\<close>

theorem swap_alloc_exact:
  assumes "swap_reach ar" and "swap_alloc ar = (r, ar')"
  shows "case r of
     Some slot \<Rightarrow> slot_refs ar slot = Some 0 \<and> slot_refs ar' slot = Some 1 \<and>
       (\<forall>x. x \<noteq> slot \<longrightarrow> slot_refs ar' x = slot_refs ar x) \<and>
       (\<forall>s\<in>set ar. has_room s \<longrightarrow> prio s \<le> prio (ar ! slot_area slot))
   | None \<Rightarrow> ar' = ar \<and>
       ((\<forall>s\<in>set ar. \<not> has_room s) \<or>
        (\<exists>s\<in>set ar. has_room s \<and> (\<exists>m. smap s = Some m \<and> 0 \<notin> set m \<and> count_list m 255 > 1)))"
  using swap_reach_inv_ok [OF assms(1)]
proof (cases rule: swap_alloc_cases)
  case none
  then show ?thesis using assms(2) by simp
next
  case (taken a m)
  then show ?thesis using assms(2) taken_bad_pages [of "ar ! a" m] by (auto intro!: bexI [of _ "ar ! a"])
next
  case (found a m i)
  note f = free_from_Some [OF found(5,6)]
  have i: "i < length m" "i < 2 ^ 28" using f found(5) by (auto simp: map_ok_def)
  have r: "r = Some (slot_of a i)" "slot_refs ar' x = (if x = slot_of a i then Some 1 else slot_refs ar x)" for x
    using assms(2) found(7) slot_refs_update [OF found(1,4) i, of _ 1] by auto
  moreover have "slot_refs ar (slot_of a i) = Some 0"
    using slot_parts [OF i(2), of a] found(1,4) f by (simp add: slot_refs_def)
  ultimately show ?thesis using found(3) slot_parts [OF i(2), of a] by simp
qed





text \<open>The room of another area is not seen when the area of highest priority has bad pages and is full.\<close>

definition ex_bad :: "area list" where
  "ex_bad = (swap_boot[0 := \<lparr>on = True, disk = 0, prio = 5, pages = 12, used = 10, nxt = 1, smap = Some [255, 255, 1, 1, 1, 1, 1, 1, 1, 1, 1, 1]\<rparr>])
              [1 := \<lparr>on = True, disk = 1, prio = 1, pages = 12, used = 0, nxt = 1, smap = Some [255, 0, 0, 0, 0, 0, 0, 0, 0, 0, 0, 0]\<rparr>]"

abbreviation area_off :: area where
  "area_off \<equiv> \<lparr>on = False, disk = 0, prio = 0, pages = 0, used = 0, nxt = 0, smap = None\<rparr>"

lemma swap_boot_list: "swap_boot = [area_off, area_off, area_off, area_off]"
  by (simp add: swap_boot_def eval_nat_numeral)

lemma in_use_simps [simp]: "in_use [] = 0" "in_use (x # xs) = in_use xs + (if x = 0 \<or> x = 255 then 0 else 1)"
  by (auto simp: in_use_def)

lemma bad_pages_hide_room: "swap_inv ex_bad \<and> has_room (ex_bad ! 1) \<and> fst (swap_alloc ex_bad) = None"
proof -
  have "pick 0 ex_bad None = Some (0, 5)"
    by (simp add: ex_bad_def swap_boot_list sub32_def)
  moreover have "free_from (ex_bad ! 0) [255, 255, 1, 1, 1, 1, 1, 1, 1, 1, 1, 1] = None"
    by (simp add: ex_bad_def free_from_def add32_def swap_boot_list upt_rec)
  ultimately have "fst (swap_alloc ex_bad) = None" by (simp add: swap_alloc_def ex_bad_def swap_boot_list)
  moreover have "has_room (ex_bad ! 1)" by (simp add: ex_bad_def swap_boot_list has_room_def)
  moreover have "swap_inv ex_bad"
    by (simp add: swap_inv_def ex_bad_def swap_boot_list area_ok_def map_ok_def)
      (auto simp: less_Suc_eq numeral_eq_Suc)
  ultimately show ?thesis by simp
qed

text \<open>A machine with a header of 11 pages on its first disk.\<close>

definition ex_hdr :: "nat \<Rightarrow> nat \<Rightarrow> u8" where
  "ex_hdr lst a = (if 4086 \<le> a \<and> a < 4096 then swap_sig ! (a - 4086) else if a = 1024 then 1
     else if 1028 \<le> a \<and> a < 1032 then of_nat (lst div 256 ^ (a - 1028)) else 0)"

definition ex_on :: "area list" where
  "ex_on = swap_boot[0 := \<lparr>on = True, disk = 0, prio = 3, pages = 11, used = 0, nxt = 1,
     smap = Some [255, 0, 0, 0, 0, 0, 0, 0, 0, 0, 0]\<rparr>]"

lemma ex_hdr_sig: "map (ex_hdr lst) [4086..<4096] = swap_sig"
  by (simp add: ex_hdr_def swap_sig_def upt_rec)

lemma le_nat_4: "le_nat m a 4 = unat (m a) + unat (m (a + 1)) * 256 + unat (m (a + 2)) * 65536 + unat (m (a + 3)) * 16777216"
  by (simp add: le_nat_def lessThan_nat_numeral)

lemma ex_hdr_fields:
  "le32 (ex_hdr lst) 1024 = 1" "le32 (ex_hdr 10) 1028 = 10" "le32 (ex_hdr (2 ^ 32 - 1)) 1028 = 2 ^ 32 - 1" "le32 (ex_hdr lst) 1032 = 0"
  by (simp_all add: le32_def le_nat_4 ex_hdr_def)

lemma ex_reach: "swap_reach ex_on"
proof (rule swap_reach.on [OF swap_reach.boot])
  have l: "last_page (ex_hdr 10) 8000 = 10" by (simp add: last_page_def ex_hdr_fields)
  then show "last_page hdr 8000 < 2 ^ 28" if "Some (ex_hdr 10) = Some hdr" for hdr using that by simp
  have "(replicate 11 (0::nat))[0 := 255] = [255, 0, 0, 0, 0, 0, 0, 0, 0, 0, 0]" by (simp add: eval_nat_numeral)
  then show "swap_on (\<lambda>d. True) (Some (ex_hdr 10)) 8000 True 0 3 swap_boot = Some (0, ex_on)"
    by (simp only: swap_on_def option.case Let_def l ex_hdr_sig ex_hdr_fields)
      (simp add: swap_area_of_def swap_boot_list mark_def ex_on_def)
qed

lemma swap_reach_inv_witness: "swap_reach ex_on \<and> swap_inv ex_on"
  using swap_reach_inv [OF ex_reach] ex_reach by simp

lemma swap_alloc_exact_witness: "slot_refs ex_on 1 = Some 0 \<and> slot_refs (snd (swap_alloc ex_on)) 1 = Some 1"
proof -
  have "pick 0 ex_on None = Some (0, 3)" by (simp add: ex_on_def swap_boot_list sub32_def)
  moreover have "free_from (ex_on ! 0) [255, 0, 0, 0, 0, 0, 0, 0, 0, 0, 0] = Some 1"
    by (simp add: ex_on_def free_from_def swap_boot_list upt_rec)
  ultimately have "swap_alloc ex_on = (Some 1, snd (swap_alloc ex_on))"
    by (simp add: swap_alloc_def Let_def ex_on_def swap_boot_list slot_of_def)
  from swap_alloc_exact [OF ex_reach this] show ?thesis by simp
qed


end
