(* ===== verification/Disk.thy ===== *)
theory Disk
  imports KString
begin

text \<open>
  Disks and partitions: the table of partitions and the dispatch of transfers in
  \<open>src/src/drivers/ata.c\<close>, and the scan of MBR, extended and GPT partition tables in \<open>src/src/fs/part.c\<close>.
  Disks 0 to 15 are the drives of the five families of hardware, whose drivers are the argument \<open>devs\<close>;
  disks 16 to 47 are partitions of them. Sectors are functions from offsets to bytes.
\<close>

abbreviation DISK_AHCI_BASE :: int where "DISK_AHCI_BASE \<equiv> 4"
abbreviation DISK_VIRTIO_BASE :: int where "DISK_VIRTIO_BASE \<equiv> 8"
abbreviation DISK_NVME_BASE :: int where "DISK_NVME_BASE \<equiv> 12"
abbreviation DISK_USB_BASE :: int where "DISK_USB_BASE \<equiv> 14"
abbreviation DISK_PART_BASE :: int where "DISK_PART_BASE \<equiv> 16"
abbreviation DISK_MAX :: int where "DISK_MAX \<equiv> 48"

section \<open>The table of partitions\<close>

record part =
  pused :: bool
  parent :: int
  num :: int
  pstart :: nat
  plen :: nat
  pname :: string

text \<open>The drives: which are there, their sizes and their transfers of \<open>count\<close> sectors from \<open>lba\<close> on.\<close>

record 'd devs =
  dev_present :: "int \<Rightarrow> bool"
  dev_sectors :: "int \<Rightarrow> nat"
  dev_read :: "int \<Rightarrow> nat \<Rightarrow> nat \<Rightarrow> (nat \<Rightarrow> u8) option"
  dev_write :: "int \<Rightarrow> nat \<Rightarrow> nat \<Rightarrow> (nat \<Rightarrow> u8) \<Rightarrow> 'd \<Rightarrow> 'd option"
  ahci_disk_count :: nat

definition is_part :: "int \<Rightarrow> bool" where "is_part idx \<longleftrightarrow> DISK_PART_BASE \<le> idx \<and> idx < DISK_MAX"

abbreviation part_at :: "part list \<Rightarrow> int \<Rightarrow> part" where "part_at ps idx \<equiv> ps ! nat (idx - DISK_PART_BASE)"

definition drive_names :: "string list" where
  "drive_names = [''hda'', ''hdb'', ''hdc'', ''hdd'', ''sda'', ''sdb'', ''sdc'', ''sdd'', ''vda'', ''vdb'', ''vdc'', ''vdd'']"

definition ata_drive_name :: "'d devs \<Rightarrow> part list \<Rightarrow> int \<Rightarrow> string" where
  "ata_drive_name D ps idx =
     (if is_part idx then pname (part_at ps idx)
      else if DISK_USB_BASE \<le> idx \<and> idx < DISK_PART_BASE
        then ''sd'' @ [char_of ((97 + ahci_disk_count D + nat (idx - DISK_USB_BASE)) mod 256)]
      else if DISK_NVME_BASE \<le> idx \<and> idx < DISK_USB_BASE
        then (if idx = DISK_NVME_BASE then ''nvme0n1'' else ''nvme0n2'')
      else if 0 \<le> idx \<and> idx < DISK_NVME_BASE then drive_names ! nat idx else ''?'')"

definition ata_part_add :: "'d devs \<Rightarrow> int \<Rightarrow> nat \<Rightarrow> nat \<Rightarrow> int \<Rightarrow> part list \<Rightarrow> int option \<times> part list" where
  "ata_part_add D par start len n ps =
     (case first_idx (\<lambda>p. \<not> pused p) ps of
        None \<Rightarrow> (None, ps)
      | Some i \<Rightarrow>
          (Some (DISK_PART_BASE + int i),
           ps[i := \<lparr>pused = True, parent = par, num = n, pstart = start, plen = len,
                    pname = ata_drive_name D ps par @ (if DISK_NVME_BASE \<le> par \<and> par < DISK_USB_BASE then ''p'' else '''')
                            @ the (itoa n 10)\<rparr>]))"

definition ata_part_clear :: "int \<Rightarrow> part list \<Rightarrow> part list" where
  "ata_part_clear par ps = map (\<lambda>p. if pused p \<and> parent p = par then p\<lparr>pused := False\<rparr> else p) ps"

definition ata_part_info :: "int \<Rightarrow> part list \<Rightarrow> (int \<times> nat \<times> int) option" where
  "ata_part_info idx ps =
     (if \<not> is_part idx \<or> \<not> pused (part_at ps idx) then None
      else let p = part_at ps idx in Some (parent p, pstart p, num p))"

definition ata_rdev :: "'d devs \<Rightarrow> part list \<Rightarrow> int \<Rightarrow> int" where
  "ata_rdev D ps idx0 =
     (let pn = (if DISK_PART_BASE \<le> idx0 then num (part_at ps idx0) else 0);
          idx = (if DISK_PART_BASE \<le> idx0 then parent (part_at ps idx0) else idx0)
      in if DISK_USB_BASE \<le> idx then push_bit 8 8 OR ((int (ahci_disk_count D) + idx - DISK_USB_BASE) * 16 + pn)
         else if DISK_NVME_BASE \<le> idx then push_bit 8 259 OR ((idx - DISK_NVME_BASE) * 16 + pn)
         else if DISK_VIRTIO_BASE \<le> idx then push_bit 8 253 OR ((idx - DISK_VIRTIO_BASE) * 16 + pn)
         else if DISK_AHCI_BASE \<le> idx then push_bit 8 8 OR ((idx - DISK_AHCI_BASE) * 16 + pn)
         else push_bit 8 3 OR (idx * 64 + pn))"

definition ata_drive_present :: "'d devs \<Rightarrow> part list \<Rightarrow> int \<Rightarrow> bool" where
  "ata_drive_present D ps idx = (if is_part idx then pused (part_at ps idx) else 0 \<le> idx \<and> idx < DISK_PART_BASE \<and> dev_present D idx)"

definition ata_drive_sectors :: "'d devs \<Rightarrow> part list \<Rightarrow> int \<Rightarrow> nat" where
  "ata_drive_sectors D ps idx =
     (if is_part idx then plen (part_at ps idx) else if 0 \<le> idx \<and> idx < DISK_PART_BASE then dev_sectors D idx else 0)"

text \<open>A transfer of a partition is one of its parent; \<open>None\<close> is a partition of itself. The inner option is the error.\<close>

partial_function (option) ata_read :: "'d devs \<Rightarrow> part list \<Rightarrow> int \<Rightarrow> nat \<Rightarrow> nat \<Rightarrow> (nat \<Rightarrow> u8) option option" where
  "ata_read D ps idx lba count =
     (if is_part idx then
        (let p = part_at ps idx in
         if \<not> pused p \<or> plen p < add32 lba count then Some None
         else ata_read D ps (parent p) (add32 (pstart p) lba) count)
      else if idx < 0 \<or> DISK_PART_BASE \<le> idx then Some None
      else Some (dev_read D idx lba count))"

partial_function (option) ata_write ::
  "'d devs \<Rightarrow> part list \<Rightarrow> int \<Rightarrow> nat \<Rightarrow> nat \<Rightarrow> (nat \<Rightarrow> u8) \<Rightarrow> 'd \<Rightarrow> 'd option option" where
  "ata_write D ps idx lba count buf dk =
     (if is_part idx then
        (let p = part_at ps idx in
         if \<not> pused p \<or> plen p < add32 lba count then Some None
         else ata_write D ps (parent p) (add32 (pstart p) lba) count buf dk)
      else if idx < 0 \<or> DISK_PART_BASE \<le> idx then Some None
      else Some (dev_write D idx lba count buf dk))"

section \<open>Partition tables\<close>

definition r32 :: "(nat \<Rightarrow> u8) \<Rightarrow> nat \<Rightarrow> nat" where "r32 p a = le_nat p a 4"

text \<open>One sector of a physical disk \<open>d\<close>.\<close>

definition sector :: "'d devs \<Rightarrow> int \<Rightarrow> nat \<Rightarrow> (nat \<Rightarrow> u8) option" where
  "sector D d lba = (if 0 \<le> d \<and> d < DISK_PART_BASE then dev_read D d lba 1 else None)"

definition bytes_are :: "(nat \<Rightarrow> u8) \<Rightarrow> nat \<Rightarrow> string \<Rightarrow> bool" where
  "bytes_are s a t = (map (\<lambda>i. s (a + i)) [0..<length t] = map of_char t)"

text \<open>\<open>if (ata_part_add(..) >= 0) n++\<close>.\<close>

definition add_count :: "'d devs \<Rightarrow> int \<Rightarrow> nat \<Rightarrow> nat \<Rightarrow> int \<Rightarrow> nat \<times> part list \<Rightarrow> nat \<times> part list" where
  "add_count D d st len k acc =
     (case ata_part_add D d st len k (snd acc) of (Some _, ps) \<Rightarrow> (fst acc + 1, ps) | (None, ps) \<Rightarrow> (fst acc, ps))"

text \<open>The entry at \<open>p\<close> of a sector of a GPT: the partition, if there is one; \<open>None\<close> is a read outside the sector.\<close>

definition gpt_entry :: "nat \<Rightarrow> (nat \<Rightarrow> u8) \<Rightarrow> nat \<Rightarrow> (nat \<times> nat) option option" where
  "gpt_entry tot e p =
     (if 512 < p + 16 then None
      else if list_all (\<lambda>k. e (p + k) = 0) [0..<16] then Some None
      else if 512 < p + 48 then None
      else let st = r32 e (p + 32); en = r32 e (p + 40) in
        if r32 e (p + 36) \<noteq> 0 \<or> r32 e (p + 44) \<noteq> 0 \<or> en < st \<or> tot \<le> en then Some None
        else Some (Some (st, add32 (sub32 en st) 1)))"

text \<open>The loop over the entries, with the sector that was read last.\<close>

fun gpt_loop ::
  "'d devs \<Rightarrow> int \<Rightarrow> nat \<Rightarrow> nat \<Rightarrow> nat \<Rightarrow> nat list \<Rightarrow> (nat \<Rightarrow> u8) \<Rightarrow> nat \<times> part list \<Rightarrow> (nat \<times> part list) option" where
  "gpt_loop D d tot lba sz [] e acc = Some acc"
| "gpt_loop D d tot lba sz (i # js) e acc =
     (case (if i = 0 \<or> i * sz mod 512 = 0 then sector D d (add32 lba (i * sz div 512)) else Some e) of
        None \<Rightarrow> Some acc
      | Some e1 \<Rightarrow>
          (case gpt_entry tot e1 (i * sz mod 512) of
             None \<Rightarrow> None
           | Some r \<Rightarrow> gpt_loop D d tot lba sz js e1
               (case r of None \<Rightarrow> acc | Some (st, len) \<Rightarrow> add_count D d st len (int i + 1) acc)))"

definition scan_gpt :: "'d devs \<Rightarrow> int \<Rightarrow> nat \<Rightarrow> part list \<Rightarrow> (nat \<times> part list) option" where
  "scan_gpt D d tot ps =
     (case sector D d 1 of
        None \<Rightarrow> Some (0, ps)
      | Some h \<Rightarrow>
          if \<not> bytes_are h 0 ''EFI PART'' then Some (0, ps)
          else let lba = r32 h 72; cnt = r32 h 80; sz = r32 h 84 in
            if sz < 128 \<or> 512 < sz \<or> 256 < cnt then Some (0, ps)
            else gpt_loop D d tot lba sz [0..<cnt] (\<lambda>_. 0) (0, ps))"

text \<open>The chain of extended boot records from \<open>eb\<close> on: at most 32 of them.\<close>

fun ebr_loop :: "'d devs \<Rightarrow> int \<Rightarrow> nat \<Rightarrow> nat \<Rightarrow> nat list \<Rightarrow> nat \<Rightarrow> nat \<times> part list \<Rightarrow> nat \<times> part list" where
  "ebr_loop D d tot eb [] cur acc = acc"
| "ebr_loop D d tot eb (k # ks) cur acc =
     (case sector D d cur of
        None \<Rightarrow> acc
      | Some b \<Rightarrow>
          if b 510 \<noteq> 0x55 \<or> b 511 \<noteq> 0xAA then acc
          else let ls = r32 b (446 + 8); ll = r32 b (446 + 12);
                   acc1 = (if b (446 + 4) \<noteq> 0 \<and> ll \<noteq> 0 \<and> add32 (add32 cur ls) ll \<le> tot
                           then add_count D d (add32 cur ls) ll (5 + int k) acc else acc);
                   ns = r32 b (462 + 8) in
            if b (462 + 4) = 0 \<or> ns = 0 then acc1 else ebr_loop D d tot eb ks (add32 eb ns) acc1)"

definition is_extended :: "u8 \<Rightarrow> bool" where "is_extended ty \<longleftrightarrow> ty = 5 \<or> ty = 0x0f \<or> ty = 0x85"

definition mbr_entry :: "'d devs \<Rightarrow> int \<Rightarrow> nat \<Rightarrow> (nat \<Rightarrow> u8) \<Rightarrow> nat \<Rightarrow> nat \<times> part list \<Rightarrow> nat \<times> part list" where
  "mbr_entry D d tot s i acc =
     (let p = 446 + i * 16; st = r32 s (p + 8); len = r32 s (p + 12); ty = s (p + 4) in
      if ty = 0 \<or> len = 0 \<or> tot < add32 st len \<or> add32 st len < st then acc
      else if is_extended ty then ebr_loop D d tot st [0..<32] st acc
      else add_count D d st len (int i + 1) acc)"

fun mbr_loop :: "'d devs \<Rightarrow> int \<Rightarrow> nat \<Rightarrow> (nat \<Rightarrow> u8) \<Rightarrow> nat list \<Rightarrow> nat \<times> part list \<Rightarrow> nat \<times> part list" where
  "mbr_loop D d tot s [] acc = acc"
| "mbr_loop D d tot s (i # js) acc = mbr_loop D d tot s js (mbr_entry D d tot s i acc)"

text \<open>The first of the four entries that ends the test: not an MBR, or a protective one.\<close>

fun mbr_kind :: "(nat \<Rightarrow> u8) \<Rightarrow> nat list \<Rightarrow> bool option" where
  "mbr_kind s [] = None"
| "mbr_kind s (i # js) =
     (let p = 446 + i * 16 in
      if s p AND 0x7f \<noteq> 0 then Some False else if s (p + 4) = 0xEE then Some True else mbr_kind s js)"

definition part_scan :: "'d devs \<Rightarrow> int \<Rightarrow> part list \<Rightarrow> (nat \<times> part list) option" where
  "part_scan D d ps =
     (let tot = ata_drive_sectors D ps d in
      case sector D d 0 of
        None \<Rightarrow> Some (0, ps)
      | Some s \<Rightarrow>
          if s 510 \<noteq> 0x55 \<or> s 511 \<noteq> 0xAA then Some (0, ps)
          else if bytes_are s 54 ''FAT'' \<or> bytes_are s 82 ''FAT32'' then Some (0, ps)
          else (case mbr_kind s [0..<4] of
                  Some False \<Rightarrow> Some (0, ps)
                | Some True \<Rightarrow> scan_gpt D d tot ps
                | None \<Rightarrow> Some (mbr_loop D d tot s [0..<4] (0, ps))))"

fun part_scan_each :: "'d devs \<Rightarrow> int list \<Rightarrow> part list \<Rightarrow> part list option" where
  "part_scan_each D [] ps = Some ps"
| "part_scan_each D (i # js) ps =
     (if ata_drive_present D ps i then Option.bind (part_scan D i ps) (\<lambda>(_, ps1). part_scan_each D js ps1)
      else part_scan_each D js ps)"

definition part_scan_all :: "'d devs \<Rightarrow> part list \<Rightarrow> part list option" where
  "part_scan_all D ps = part_scan_each D [0..DISK_PART_BASE - 1] ps"

end
