(* ===== verification/Disk_Correct.thy ===== *)
theory Disk_Correct
  imports Disk
begin

text \<open>
  What the scan of a disk leaves in the table of partitions lies inside the disk, with the one exception of logical
  partitions whose end wraps around 32 bits; and what a read of a partition transfers, the case included where the sum
  in the test of its bounds wraps.
\<close>

section \<open>The scan\<close>

definition part_ok :: "'d devs \<Rightarrow> part \<Rightarrow> bool" where
  "part_ok D p \<longleftrightarrow> 0 \<le> parent p \<and> parent p < DISK_PART_BASE \<and> 0 < plen p \<and> pstart p + plen p \<le> dev_sectors D (parent p)"

text \<open>A logical partition that the test of \<open>part_scan\<close> lets pass because its end wraps.\<close>

definition part_wraps :: "'d devs \<Rightarrow> part \<Rightarrow> bool" where
  "part_wraps D p \<longleftrightarrow> 0 \<le> parent p \<and> parent p < DISK_PART_BASE \<and> 0 < plen p \<and> 5 \<le> num p \<and> num p \<le> 36 \<and> 2 ^ 32 \<le> pstart p + plen p \<and> pstart p + plen p - 2 ^ 32 \<le> dev_sectors D (parent p)"

definition parts_ok :: "'d devs \<Rightarrow> part list \<Rightarrow> bool" where
  "parts_ok D ps \<longleftrightarrow> (\<forall>p\<in>set ps. pused p \<longrightarrow> part_ok D p \<or> part_wraps D p)"

definition drive_ok :: "'d devs \<Rightarrow> int \<Rightarrow> bool" where
  "drive_ok D d \<longleftrightarrow> 0 \<le> d \<and> d < DISK_PART_BASE \<and> dev_sectors D d < 2 ^ 32"

text \<open>What every step of the scan keeps.\<close>

definition keeps_ok :: "'d devs \<Rightarrow> nat \<times> part list \<Rightarrow> nat \<times> part list \<Rightarrow> bool" where
  "keeps_ok D acc acc' \<longleftrightarrow> (parts_ok D (snd acc) \<longrightarrow> parts_ok D (snd acc') \<and> length (snd acc') = length (snd acc))"

lemma keeps_ok_refl [simp, intro!]: "keeps_ok D acc acc" by (simp add: keeps_ok_def)

lemma keeps_ok_trans: "keeps_ok D a b \<Longrightarrow> keeps_ok D b c \<Longrightarrow> keeps_ok D a c" by (simp add: keeps_ok_def)

lemma add_count_ok:
  assumes "drive_ok D d" "0 < len" "st + len \<le> dev_sectors D d"
  shows "keeps_ok D acc (add_count D d st len k acc)"
  using assms
  by (auto simp: keeps_ok_def drive_ok_def add_count_def ata_part_add_def parts_ok_def part_ok_def split: option.splits
      dest!: set_update_subset_insert [THEN subsetD])

lemma add_count_wraps:
  assumes "drive_ok D d" "0 < len" "5 \<le> k" "k \<le> 36" "2 ^ 32 \<le> st + len" "st + len - 2 ^ 32 \<le> dev_sectors D d"
  shows "keeps_ok D acc (add_count D d st len k acc)"
  using assms
  by (auto simp: keeps_ok_def drive_ok_def add_count_def ata_part_add_def parts_ok_def part_wraps_def split: option.splits
      dest!: set_update_subset_insert [THEN subsetD])

lemma gpt_entry_inside:
  "drive_ok D d \<Longrightarrow> gpt_entry (dev_sectors D d) e p = Some (Some (st, len)) \<Longrightarrow> 0 < len \<and> st + len \<le> dev_sectors D d"
  by (auto simp: drive_ok_def gpt_entry_def Let_def split: if_splits)

lemma gpt_loop_ok:
  assumes d: "drive_ok D d"
  shows "gpt_loop D d (dev_sectors D d) lba sz js e acc = Some acc' \<Longrightarrow> keeps_ok D acc acc'"
proof (induction js arbitrary: e acc)
  case (Cons i js)
  show ?case
  proof (cases "if i = 0 \<or> i * sz mod 512 = 0 then sector D d (add32 lba (i * sz div 512)) else Some e")
    case None
    then show ?thesis using Cons.prems by auto
  next
    case (Some e1)
    then obtain r where r: "gpt_entry (dev_sectors D d) e1 (i * sz mod 512) = Some r"
      "gpt_loop D d (dev_sectors D d) lba sz js e1
         (case r of None \<Rightarrow> acc | Some (st, len) \<Rightarrow> add_count D d st len (int i + 1) acc) = Some acc'"
      using Cons.prems by (auto split: option.splits)
    have "keeps_ok D acc (case r of None \<Rightarrow> acc | Some (st, len) \<Rightarrow> add_count D d st len (int i + 1) acc)"
    proof (cases r)
      case (Some x)
      obtain st len where x: "x = (st, len)" by (cases x)
      then show ?thesis using Some r(1) gpt_entry_inside [OF d, of e1 _ st len] add_count_ok [OF d, of len st acc] by simp
    qed simp
    then show ?thesis using Cons.IH [OF r(2)] keeps_ok_trans by blast
  qed
qed simp

lemma scan_gpt_ok:
  "drive_ok D d \<Longrightarrow> scan_gpt D d (dev_sectors D d) ps = Some acc \<Longrightarrow> keeps_ok D (0, ps) acc"
  by (auto simp: scan_gpt_def Let_def split: option.splits if_splits intro: gpt_loop_ok)

lemma add32_cases: "a < 2 ^ 32 \<Longrightarrow> b < 2 ^ 32 \<Longrightarrow> add32 a b = (if a + b < 2 ^ 32 then a + b else a + b - 2 ^ 32)"
  by (simp add: add32_def mod_if)

lemma r32_lt: "r32 b a < 2 ^ 32"
  using le_nat_lt [of b a 4] by (simp add: r32_def)

lemma ebr_loop_ok:
  assumes d: "drive_ok D d"
  shows "\<forall>k\<in>set ks. k < 32 \<Longrightarrow> keeps_ok D acc (ebr_loop D d (dev_sectors D d) eb ks cur acc)"
proof (induction ks arbitrary: cur acc)
  case (Cons k ks)
  show ?case
  proof (cases "sector D d cur")
    case (Some b)
    let ?st = "add32 cur (r32 b 454)" and ?ll = "r32 b 458"
    have st: "?st < 2 ^ 32" by (simp add: add32_def)
    let ?acc = "if b 450 \<noteq> 0 \<and> ?ll \<noteq> 0 \<and> add32 ?st ?ll \<le> dev_sectors D d then add_count D d ?st ?ll (5 + int k) acc else acc"
    have "keeps_ok D acc ?acc"
    proof (cases "?st + ?ll < 2 ^ 32")
      case True
      then show ?thesis using add_count_ok [OF d, of ?ll ?st acc] by simp
    next
      case False
      then show ?thesis
        using add_count_wraps [OF d, of ?ll "5 + int k" ?st acc] add32_cases [OF st r32_lt, of b 458] Cons.prems by simp
    qed
    then show ?thesis
      using Some Cons.prems keeps_ok_trans [OF _ Cons.IH, of acc ?acc] by (auto simp: Let_def)
  qed simp
qed simp

lemma sum_fits:
  assumes "len \<noteq> 0" "\<not> n < add32 st len" "\<not> add32 st len < st" "st < 2 ^ 32" "len < 2 ^ 32"
  shows "0 < len \<and> st + len \<le> n"
proof (cases "st + len < 2 ^ 32")
  case False
  then have "(st + len - 2 ^ 32) mod 2 ^ 32 = st + len - 2 ^ 32" using assms by (intro mod_less) linarith
  then have "add32 st len = st + len - 2 ^ 32" using False le_mod_geq [of "2 ^ 32" "st + len"] by (simp add: add32_def)
  then show ?thesis using assms False by linarith
qed (use assms in simp)

lemma mbr_entry_ok:
  assumes d: "drive_ok D d"
  shows "keeps_ok D acc (mbr_entry D d (dev_sectors D d) s i acc)"
proof -
  show ?thesis
    using sum_fits [OF _ _ _ r32_lt r32_lt] ebr_loop_ok [OF assms, of "[0..<32]"] add_count_ok [OF d] by (simp add: mbr_entry_def Let_def)
qed

lemma mbr_loop_ok:
  assumes d: "drive_ok D d"
  shows "keeps_ok D acc (mbr_loop D d (dev_sectors D d) s js acc)"
proof (induction js arbitrary: acc)
  case (Cons i js)
  show ?case unfolding mbr_loop.simps by (rule keeps_ok_trans [OF mbr_entry_ok [OF assms] Cons.IH])
qed simp

lemma part_scan_ok:
  assumes d: "drive_ok D d" and "part_scan D d ps = Some acc"
  shows "keeps_ok D (0, ps) acc"
proof -
  have "ata_drive_sectors D ps d = dev_sectors D d" using d by (simp add: drive_ok_def ata_drive_sectors_def is_part_def)
  then show ?thesis
    using assms(2) mbr_loop_ok [OF d, of "(0, ps)"] scan_gpt_ok [OF d]
    by (auto simp: part_scan_def Let_def split: option.splits if_splits bool.splits)
qed

lemma part_scan_each_ok:
  "\<forall>d\<in>set ds. drive_ok D d \<Longrightarrow> part_scan_each D ds ps = Some ps' \<Longrightarrow> keeps_ok D (n, ps) (n', ps')"
proof (induction ds arbitrary: ps)
  case (Cons d ds)
  then show ?case
    using part_scan_ok [of D d ps]
    by (fastforce simp: keeps_ok_def bind_eq_Some_conv split: if_splits)
qed (simp add: keeps_ok_def)

section \<open>Transfers\<close>



section \<open>The scan stays inside its sectors\<close>

text \<open>The scan reads outside a sector only for a GPT on a disk whose entries do not divide a sector.\<close>

definition gpt_odd :: "'d devs \<Rightarrow> int \<Rightarrow> bool" where
  "gpt_odd D d \<longleftrightarrow> (case sector D d 1 of None \<Rightarrow> False | Some h \<Rightarrow>
     bytes_are h 0 ''EFI PART'' \<and> 128 < r32 h 84 \<and> r32 h 84 < 512 \<and> r32 h 84 \<noteq> 256)"

lemma gpt_entry_defined:
  assumes "sz \<in> {128, 256, 512}"
  shows "gpt_entry tot e (i * sz mod 512) \<noteq> None"
proof -
  have "i * 128 mod 512 = i mod 4 * 128" "i * 256 mod 512 = i mod 2 * 256"
    using mod_mult_mult2 [of i 128 4] mod_mult_mult2 [of i 256 2] by simp_all
  moreover have "i mod 4 < 4" "i mod 2 < 2" by simp_all
  ultimately have "i * 128 mod 512 \<le> 384" "i * 256 mod 512 \<le> 384" by linarith+
  then have "i * sz mod 512 + 128 \<le> 512" using assms by auto
  then show ?thesis by (simp add: gpt_entry_def Let_def)
qed

lemma gpt_loop_defined: "sz \<in> {128, 256, 512} \<Longrightarrow> gpt_loop D d tot lba sz js e acc \<noteq> None"
proof (induction js arbitrary: e acc)
  case (Cons i js)
  show ?case
  proof (cases "if i = 0 \<or> i * sz mod 512 = 0 then sector D d (add32 lba (i * sz div 512)) else Some e")
    case (Some e1)
    obtain r where "gpt_entry tot e1 (i * sz mod 512) = Some r" using gpt_entry_defined [OF Cons.prems] by (metis not_None_eq)
    then show ?thesis using Some Cons.IH [OF Cons.prems] by (simp del: not_None_eq)
  qed (simp del: not_None_eq)
qed simp

lemma scan_gpt_defined:
  assumes "\<not> gpt_odd D d"
  shows "scan_gpt D d tot ps \<noteq> None"
proof (cases "\<exists>h. sector D d 1 = Some h \<and> bytes_are h 0 ''EFI PART'' \<and> 128 \<le> r32 h 84 \<and> r32 h 84 \<le> 512")
  case True
  then obtain h where h: "sector D d 1 = Some h" "bytes_are h 0 ''EFI PART''" "128 \<le> r32 h 84" "r32 h 84 \<le> 512" by blast
  then have "r32 h 84 \<in> {128, 256, 512}" using assms by (auto simp: gpt_odd_def)
  then obtain r where "gpt_loop D d tot (r32 h 72) (r32 h 84) [0..<r32 h 80] (\<lambda>_. 0) (0, ps) = Some r"
    using gpt_loop_defined by (metis not_None_eq)
  then show ?thesis using h by (simp add: scan_gpt_def Let_def)
qed (auto simp: scan_gpt_def Let_def split: option.splits)

lemma part_scan_defined:
  assumes "\<not> gpt_odd D d"
  shows "part_scan D d ps \<noteq> None"
  using scan_gpt_defined [OF assms, of _ ps] by (simp add: part_scan_def Let_def split: option.split bool.split)

lemma part_scan_each_defined: "\<forall>d\<in>set ds. \<not> gpt_odd D d \<Longrightarrow> part_scan_each D ds ps \<noteq> None"
proof (induction ds arbitrary: ps)
  case (Cons d ds)
  then show ?case using part_scan_defined [of D d ps] by (auto simp: split: prod.split)
qed simp

section \<open>Properties\<close>

text \<open>C15: The scan of all disks either returns, keeps the size of the table and leaves in it only partitions that are
  non-empty ranges of sectors inside their disk or logical partitions whose end wraps around 32 bits; or it reads outside
  a sector, and then a disk has a GPT whose entries have a size that the code accepts and that does not divide a sector.
  The number of sectors of a disk has 32 bits.\<close>

theorem part_scan_all_inside:
  assumes "\<forall>d. dev_sectors D d < 2 ^ 32" "parts_ok D ps"
  shows "case part_scan_all D ps of
      Some ps' \<Rightarrow> parts_ok D ps' \<and> length ps' = length ps
    | None \<Rightarrow> \<exists>d\<in>set [0..DISK_PART_BASE - 1]. gpt_odd D d"
proof (cases "part_scan_all D ps")
  case None
  then show ?thesis using part_scan_each_defined [of "[0..DISK_PART_BASE - 1]" D ps] unfolding part_scan_all_def by auto
next
  case (Some ps')
  have "\<forall>d\<in>set [0..DISK_PART_BASE - 1]. drive_ok D d" using assms(1) by (auto simp: drive_ok_def)
  from part_scan_each_ok [OF this, of ps ps' 0 0] Some show ?thesis
    using assms(2) by (simp add: part_scan_all_def keeps_ok_def)
qed


text \<open>One disk of 1000 sectors with an MBR: a partition of 100 sectors from sector 63 on.\<close>

definition ex_mbr :: "nat \<Rightarrow> u8" where
  "ex_mbr a = (if a = 510 then 0x55 else if a = 511 then 0xAA else if a = 450 then 0x83 else if a = 454 then 63 else if a = 458 then 100 else 0)"

definition ex_devs :: "unit devs" where
  "ex_devs = \<lparr>dev_present = (\<lambda>d. d = 0), dev_sectors = (\<lambda>d. 1000),
     dev_read = (\<lambda>d lba n. if lba = 0 then Some ex_mbr else if lba + n \<le> 1000 then Some (\<lambda>a. of_nat (lba + a div 512)) else None),
     dev_write = (\<lambda>d lba n b s. None), ahci_disk_count = 0\<rparr>"

definition no_part :: part where "no_part = \<lparr>pused = False, parent = 0, num = 0, pstart = 0, plen = 0, pname = []\<rparr>"

definition ex_parts :: "part list" where
  "ex_parts = \<lparr>pused = True, parent = 0, num = 1, pstart = 63, plen = 100, pname = ''hda1''\<rparr> # replicate 31 no_part"

lemma ex_mbr_words:
  "r32 ex_mbr 454 = 63" "r32 ex_mbr 458 = 100" "mbr_kind ex_mbr [0..<4] = None" "\<not> bytes_are ex_mbr 54 ''FAT''" "\<not> bytes_are ex_mbr 82 ''FAT32''"
  by (simp_all add: r32_def le_nat_def lessThan_nat_numeral ex_mbr_def upt_rec bytes_are_def)

lemma ex_add: "add_count ex_devs 0 63 100 1 (0, replicate 32 no_part) = (1, ex_parts)"
proof -
  have "the (itoa 1 10) = ''1''" by (simp add: itoa_def utoa_def utoa_digits.simps reverse_def reverse_loop.simps)
  moreover have "replicate 32 no_part = no_part # replicate 31 no_part" by (simp add: numeral_eq_Suc)
  moreover have "ata_drive_name ex_devs ps 0 = ''hda''" for ps by (simp add: ata_drive_name_def is_part_def drive_names_def)
  ultimately show ?thesis
    by (simp add: add_count_def ata_part_add_def ex_parts_def no_part_def)
qed

lemma ex_scan: "part_scan_all ex_devs (replicate 32 no_part) = Some ex_parts"
proof -
  have "sector ex_devs 0 0 = Some ex_mbr" "ata_drive_sectors ex_devs ps 0 = 1000" for ps
    by (simp_all add: sector_def ex_devs_def ata_drive_sectors_def is_part_def)
  then have "part_scan ex_devs 0 (replicate 32 no_part) = Some (1, ex_parts)"
    using ex_mbr_words ex_add
    by (simp add: part_scan_def upt_rec mbr_entry_def ex_mbr_def [of 510] ex_mbr_def [of 511] ex_mbr_def [of 450]
        ex_mbr_def [of 466] ex_mbr_def [of 482] ex_mbr_def [of 498] is_extended_def add32_def)
  moreover have "part_scan_each ex_devs [1..15] ex_parts = Some ex_parts"
    by (simp add: ata_drive_present_def is_part_def ex_devs_def upto.simps)
  moreover have "[0..15] = 0 # [1..15::int]" by (simp add: upto.simps)
  ultimately show ?thesis unfolding part_scan_all_def by (simp add: ata_drive_present_def is_part_def ex_devs_def)
qed

lemma part_scan_all_inside_witness:
  "part_scan_all ex_devs (replicate 32 no_part) = Some ex_parts \<and> parts_ok ex_devs ex_parts \<and> pstart (ex_parts ! 0) = 63"
proof -
  have "\<forall>d. dev_sectors ex_devs d < 2 ^ 32" "parts_ok ex_devs (replicate 32 no_part)"
    by (simp_all add: ex_devs_def parts_ok_def no_part_def)
  from part_scan_all_inside [OF this] ex_scan show ?thesis by (simp add: ex_parts_def)
qed


end
