(* ===== verification/WaitQ.thy ===== *)
theory WaitQ
  imports Kernel_Prelude
begin

text \<open>
  \<open>src/src/core/wq.c\<close>: wait queues. A queue is the head of a doubly linked list of entries; an entry
  belongs to a waiter (a task that sleeps) or carries a callback, and the entries of a waiter are linked
  a second time through \<open>wnext\<close>. Entries and waiters live in two fixed tables and are named by their
  index here, \<open>None\<close> is NULL; queues and tasks are named by numbers. Not modelled: the spin lock, the
  interrupt flag, and the kick that \<open>task_ready\<close> gives an idle processor.
\<close>

abbreviation NENT :: nat where "NENT \<equiv> 2048"
abbreviation NW :: nat where "NW \<equiv> 128"

datatype tstate = T_FREE | T_READY | T_BLOCKED | T_DEAD

record wq_ent =
  enext :: "nat option"
  eprev :: "nat option"
  wnext :: "nat option"
  eq :: "nat option"
  ew :: "nat option"
  ecb :: "nat option"
  eused :: bool

record wq_w =
  wt :: nat
  fired :: bool
  wused :: bool
  wents :: "nat option"

text \<open>\<open>called\<close> lists the callbacks that ran, the latest first.\<close>

record wq_state =
  ents :: "nat \<Rightarrow> wq_ent"
  wss :: "nat \<Rightarrow> wq_w"
  head :: "nat \<Rightarrow> nat option"
  tst :: "nat \<Rightarrow> tstate"
  wake_ms :: "nat \<Rightarrow> nat"
  called :: "nat list"

definition upd_ent :: "nat \<Rightarrow> (wq_ent \<Rightarrow> wq_ent) \<Rightarrow> wq_state \<Rightarrow> wq_state" where
  "upd_ent e f st = st\<lparr>ents := (ents st)(e := f (ents st e))\<rparr>"

definition upd_w :: "nat \<Rightarrow> (wq_w \<Rightarrow> wq_w) \<Rightarrow> wq_state \<Rightarrow> wq_state" where
  "upd_w w f st = st\<lparr>wss := (wss st)(w := f (wss st w))\<rparr>"

definition wq_boot :: "(nat \<Rightarrow> tstate) \<Rightarrow> wq_state" where
  "wq_boot ts = \<lparr>ents = (\<lambda>_. \<lparr>enext = None, eprev = None, wnext = None, eq = None, ew = None, ecb = None, eused = False\<rparr>),
     wss = (\<lambda>_. \<lparr>wt = 0, fired = False, wused = False, wents = None\<rparr>), head = (\<lambda>_. None), tst = ts,
     wake_ms = (\<lambda>_. 0), called = []\<rparr>"

section \<open>Entries\<close>

definition unlink :: "nat \<Rightarrow> wq_state \<Rightarrow> wq_state" where
  "unlink e st =
     (case eq (ents st e) of
        None \<Rightarrow> st
      | Some q \<Rightarrow>
          let st1 = (case eprev (ents st e) of
                       Some p \<Rightarrow> upd_ent p (\<lambda>x. x\<lparr>enext := enext (ents st e)\<rparr>) st
                     | None \<Rightarrow> st\<lparr>head := (head st)(q := enext (ents st e))\<rparr>);
              st2 = (case enext (ents st1 e) of
                       Some n \<Rightarrow> upd_ent n (\<lambda>x. x\<lparr>eprev := eprev (ents st1 e)\<rparr>) st1
                     | None \<Rightarrow> st1)
          in upd_ent e (\<lambda>x. x\<lparr>eq := None\<rparr>) st2)"

definition drop_ent :: "nat \<Rightarrow> wq_state \<Rightarrow> wq_state" where
  "drop_ent e st = upd_ent e (\<lambda>x. x\<lparr>eused := False\<rparr>) (unlink e st)"

text \<open>\<open>for (e = w->ents; e; e = e->wnext) { unlink(e); e->used = false; }\<close>; \<open>None\<close> is a cyclic list.\<close>

partial_function (option) drop_all :: "nat option \<Rightarrow> wq_state \<Rightarrow> wq_state option" where
  "drop_all eo st =
     (case eo of None \<Rightarrow> Some st
      | Some e \<Rightarrow> let st1 = drop_ent e st in drop_all (wnext (ents st1 e)) st1)"

definition wq_waiter_free :: "nat \<Rightarrow> wq_state \<Rightarrow> wq_state option" where
  "wq_waiter_free w st =
     map_option (upd_w w (\<lambda>x. x\<lparr>wents := None, wused := False\<rparr>)) (drop_all (wents (wss st w)) st)"

text \<open>The waiters of dead tasks are freed; \<open>gc\<close> runs over all of them.\<close>

definition gc_one :: "nat \<Rightarrow> wq_state \<Rightarrow> wq_state option" where
  "gc_one w st =
     (if \<not> wused (wss st w) \<or> tst st (wt (wss st w)) \<noteq> T_FREE \<and> tst st (wt (wss st w)) \<noteq> T_DEAD then Some st
      else wq_waiter_free w st)"

fun gc_list :: "nat list \<Rightarrow> wq_state \<Rightarrow> wq_state option" where
  "gc_list [] st = Some st"
| "gc_list (w # ws) st = Option.bind (gc_one w st) (gc_list ws)"

definition gc :: "wq_state \<Rightarrow> wq_state option" where
  "gc st = gc_list [0..<NW] st"

section \<open>Waiters\<close>

definition free_w :: "wq_state \<Rightarrow> nat option" where
  "free_w st = first_idx (\<lambda>w. \<not> wused (wss st w)) [0..<NW]"

definition free_ent :: "wq_state \<Rightarrow> nat option" where
  "free_ent st = first_idx (\<lambda>e. \<not> eused (ents st e)) [0..<NENT]"

text \<open>A free place, after \<open>gc\<close> if there is none at first: the two passes of the code.\<close>

definition two_pass :: "(wq_state \<Rightarrow> nat option) \<Rightarrow> wq_state \<Rightarrow> (nat option \<times> wq_state) option" where
  "two_pass fr st =
     (case fr st of
        Some i \<Rightarrow> Some (Some i, st)
      | None \<Rightarrow> Option.bind (gc st) (\<lambda>st1.
          case fr st1 of Some i \<Rightarrow> Some (Some i, st1) | None \<Rightarrow> map_option (\<lambda>st2. (None, st2)) (gc st1)))"

definition wq_waiter :: "nat \<Rightarrow> wq_state \<Rightarrow> (nat option \<times> wq_state) option" where
  "wq_waiter task st =
     map_option (\<lambda>(r, st1). case r of
         None \<Rightarrow> (None, st1)
       | Some w \<Rightarrow> (Some w, upd_w w (\<lambda>_. \<lparr>wt = task, fired = False, wused = True, wents = None\<rparr>) st1))
       (two_pass free_w st)"

definition push_ent :: "nat \<Rightarrow> nat \<Rightarrow> wq_state \<Rightarrow> wq_state" where
  "push_ent e q st =
     (let st1 = upd_ent e (\<lambda>x. x\<lparr>eused := True, eq := Some q, eprev := None, enext := head st q\<rparr>) st;
          st2 = (case head st1 q of Some h \<Rightarrow> upd_ent h (\<lambda>x. x\<lparr>eprev := Some e\<rparr>) st1 | None \<Rightarrow> st1)
      in st2\<lparr>head := (head st2)(q := Some e)\<rparr>)"

definition ent_new :: "nat \<Rightarrow> wq_state \<Rightarrow> (nat option \<times> wq_state) option" where
  "ent_new q st =
     map_option (\<lambda>(r, st1). case r of None \<Rightarrow> (None, st1) | Some e \<Rightarrow> (Some e, push_ent e q st1)) (two_pass free_ent st)"

definition wq_add :: "nat \<Rightarrow> nat \<Rightarrow> wq_state \<Rightarrow> (nat option \<times> wq_state) option" where
  "wq_add q w st =
     map_option (\<lambda>(r, st1). case r of
         None \<Rightarrow> (None, st1)
       | Some e \<Rightarrow> (Some e, upd_w w (\<lambda>x. x\<lparr>wents := Some e\<rparr>)
                     (upd_ent e (\<lambda>x. x\<lparr>ew := Some w, ecb := None, wnext := wents (wss st1 w)\<rparr>) st1)))
       (ent_new q st)"

definition wq_add_cb :: "nat \<Rightarrow> nat \<Rightarrow> wq_state \<Rightarrow> (nat option \<times> wq_state) option" where
  "wq_add_cb q cb st =
     map_option (\<lambda>(r, st1). case r of
         None \<Rightarrow> (None, st1)
       | Some e \<Rightarrow> (Some e, upd_ent e (\<lambda>x. x\<lparr>ew := None, ecb := Some cb, wnext := None\<rparr>) st1))
       (ent_new q st)"

definition wq_del :: "nat \<Rightarrow> wq_state \<Rightarrow> wq_state" where
  "wq_del e st = (if eused (ents st e) \<and> ew (ents st e) = None then drop_ent e st else st)"

section \<open>Waking\<close>

definition task_ready :: "nat \<Rightarrow> wq_state \<Rightarrow> wq_state" where
  "task_ready t st =
     (if tst st t \<noteq> T_BLOCKED then st
      else st\<lparr>wake_ms := (wake_ms st)(t := 0), tst := (tst st)(t := T_READY)\<rparr>)"

text \<open>One entry is woken: the callback runs, or the waiter is marked and its task made ready. An entry with neither has
  no meaning in the code, which would read through a null pointer.\<close>

definition wake_ent :: "nat \<Rightarrow> wq_state \<Rightarrow> wq_state" where
  "wake_ent e st =
     (case ecb (ents st e) of
        Some cb \<Rightarrow> st\<lparr>called := cb # called st\<rparr>
      | None \<Rightarrow>
          (case ew (ents st e) of
             Some w \<Rightarrow> task_ready (wt (wss st w)) (upd_w w (\<lambda>x. x\<lparr>fired := True\<rparr>) st)
           | None \<Rightarrow> st))"

partial_function (option) wake_all :: "bool \<Rightarrow> nat option \<Rightarrow> wq_state \<Rightarrow> wq_state option" where
  "wake_all drain eo st =
     (case eo of None \<Rightarrow> Some st
      | Some e \<Rightarrow>
          let st1 = wake_ent e st;
              st2 = (if drain then upd_ent e (\<lambda>x. x\<lparr>eq := None\<rparr>) st1 else st1)
          in wake_all drain (enext (ents st2 e)) st2)"

definition wq_wake :: "nat \<Rightarrow> wq_state \<Rightarrow> wq_state option" where
  "wq_wake q st = (if head st q = None then Some st else wake_all False (head st q) st)"

definition wq_drain :: "nat \<Rightarrow> wq_state \<Rightarrow> wq_state option" where
  "wq_drain q st = map_option (\<lambda>st1. st1\<lparr>head := (head st1)(q := None)\<rparr>) (wake_all True (head st q) st)"

definition wq_waiting :: "nat \<Rightarrow> wq_state \<Rightarrow> bool" where
  "wq_waiting q st \<longleftrightarrow> head st q \<noteq> None"

section \<open>Sleeping\<close>

text \<open>\<open>wq_sleep\<close> up to its loop: whether the task blocks, and the state in which it does or goes on. Task 0 only yields. The
  loop ends when somebody has made the task ready, and \<open>wq_sleep_end\<close> follows.\<close>

definition wq_sleep :: "nat \<Rightarrow> nat \<Rightarrow> nat \<Rightarrow> wq_state \<Rightarrow> bool \<times> wq_state" where
  "wq_sleep now w ms st =
     (let t = wt (wss st w) in
      if t = 0 then (False, upd_w w (\<lambda>x. x\<lparr>fired := False\<rparr>) st)
      else let ms1 = (if ms = 0 \<or> 500 < ms then 500 else ms) in
        if fired (wss st w) then (False, st)
        else let st1 = st\<lparr>wake_ms := (wake_ms st)(t := add32 now ms1)\<rparr> in
          if tst st1 t = T_READY then (True, st1\<lparr>tst := (tst st1)(t := T_BLOCKED)\<rparr>) else (False, st1))"

definition wq_sleep_end :: "nat \<Rightarrow> wq_state \<Rightarrow> wq_state" where
  "wq_sleep_end w st = upd_w w (\<lambda>x. x\<lparr>fired := False\<rparr>) st"

definition wq_wfree :: "nat option \<Rightarrow> wq_state \<Rightarrow> wq_state option" where
  "wq_wfree wp st = (case wp of Some w \<Rightarrow> wq_waiter_free w st | None \<Rightarrow> Some st)"

text \<open>One turn of a wait loop: the new value of the caller's pointer, whether the task blocks, and the state.\<close>

definition wq_wait :: "nat \<Rightarrow> nat \<Rightarrow> nat \<Rightarrow> nat option \<Rightarrow> nat \<Rightarrow> wq_state \<Rightarrow> (nat option \<times> bool \<times> wq_state) option" where
  "wq_wait now task q wp ms st =
     (case wp of
        Some w \<Rightarrow> Some (case wq_sleep now w ms st of (b, st1) \<Rightarrow> (Some w, b, st1))
      | None \<Rightarrow>
          Option.bind (wq_waiter task st) (\<lambda>(wo, st1).
            case wo of
              None \<Rightarrow> Some (None, False, st1)
            | Some w \<Rightarrow>
                Option.bind (wq_add q w st1) (\<lambda>(eo, st2).
                  case eo of
                    Some _ \<Rightarrow> Some (Some w, False, st2)
                  | None \<Rightarrow> map_option (\<lambda>st3. (None, False, st3)) (wq_waiter_free w st2))))"

end
