(* ===== verification/WaitQ_Correct.thy ===== *)
theory WaitQ_Correct
  imports WaitQ
begin

text \<open>
  Every queue of \<open>WaitQ\<close> is, after any operations, a well-formed doubly linked list of exactly the entries
  that point to it, and the entries of a waiter are linked from it. From this follows that a wake-up
  reaches every waiter of the queue and that a task that was woken does not go to sleep.
\<close>

section \<open>Lists in the table\<close>

fun dll :: "(nat \<Rightarrow> wq_ent) \<Rightarrow> nat option \<Rightarrow> nat option \<Rightarrow> nat list \<Rightarrow> bool" where
  "dll E p h [] \<longleftrightarrow> h = None"
| "dll E p h (x # xs) \<longleftrightarrow> h = Some x \<and> eprev (E x) = p \<and> dll E (Some x) (enext (E x)) xs"

fun chain :: "(nat \<Rightarrow> wq_ent) \<Rightarrow> nat option \<Rightarrow> nat list \<Rightarrow> bool" where
  "chain E h [] \<longleftrightarrow> h = None"
| "chain E h (x # xs) \<longleftrightarrow> h = Some x \<and> chain E (wnext (E x)) xs"

lemma dll_cong:
  "(\<And>x. x \<in> set xs \<Longrightarrow> eprev (E' x) = eprev (E x) \<and> enext (E' x) = enext (E x)) \<Longrightarrow> dll E' p h xs = dll E p h xs"
  by (induction xs arbitrary: p h) auto

lemma wait_chain_cong: "(\<And>x. x \<in> set xs \<Longrightarrow> wnext (E' x) = wnext (E x)) \<Longrightarrow> chain E' h xs = chain E h xs"
  by (induction xs arbitrary: h) auto

lemma dll_upd [simp]: "y \<notin> set xs \<Longrightarrow> dll (E(y := v)) p h xs = dll E p h xs"
  by (rule dll_cong) auto

text \<open>An entry in the middle of a list: its neighbours, and the list without it.\<close>

lemma dll_mid:
  assumes "dll E p h (as @ e # bs)"
  shows "eprev (E e) = (if as = [] then p else Some (last as)) \<and> enext (E e) = (case bs of [] \<Rightarrow> None | b # _ \<Rightarrow> Some b) \<and>
    (as = [] \<longrightarrow> h = Some e)"
  using assms
proof (induction as arbitrary: p h)
  case Nil
  then show ?case by (cases bs) auto
qed auto

lemma dll_cut:
  assumes "dll E p h (as @ e # bs)" "distinct (as @ e # bs)"
    and "\<And>x. x \<in> set as \<union> set bs \<Longrightarrow> enext (E' x) = (if as \<noteq> [] \<and> x = last as then enext (E e) else enext (E x))"
    and "\<And>x. x \<in> set as \<union> set bs \<Longrightarrow> eprev (E' x) = (if bs \<noteq> [] \<and> x = hd bs then eprev (E e) else eprev (E x))"
  shows "dll E' p (if as = [] then enext (E e) else h) (as @ bs)"
  using assms
proof (induction as arbitrary: p h)
  case Nil
  show ?case
  proof (cases bs)
    case (Cons b bs')
    have "dll E' (Some b) (enext (E b)) bs' = dll E (Some b) (enext (E b)) bs'"
      using Nil.prems(2-4) Cons by (intro dll_cong) auto
    then show ?thesis using Nil.prems Cons by auto
  qed (use Nil in auto)
next
  case (Cons a as)
  have d: "dll E (Some a) (enext (E a)) (as @ e # bs)" "distinct (as @ e # bs)" "h = Some a" "eprev (E a) = p"
    using Cons.prems by auto
  have "dll E' (Some a) (if as = [] then enext (E e) else enext (E a)) (as @ bs)"
    using Cons.prems(2-4) by (intro Cons.IH [OF d(1,2)]) auto
  moreover have "enext (E' a) = (if as = [] then enext (E e) else enext (E a))" "eprev (E' a) = p"
    using Cons.prems(2) Cons.prems(3) [of a] Cons.prems(4) [of a] d by auto
  ultimately show ?case using d by simp
qed

section \<open>The invariant\<close>

definition members :: "wq_state \<Rightarrow> nat \<Rightarrow> nat set" where
  "members st q = {e. e < NENT \<and> eused (ents st e) \<and> eq (ents st e) = Some q}"

definition owned :: "wq_state \<Rightarrow> nat \<Rightarrow> nat set" where
  "owned st w = {e. e < NENT \<and> eused (ents st e) \<and> ew (ents st e) = Some w}"

definition queue_ok :: "wq_state \<Rightarrow> nat \<Rightarrow> nat list \<Rightarrow> bool" where
  "queue_ok st q xs \<longleftrightarrow> dll (ents st) None (head st q) xs \<and> distinct xs \<and> set xs = members st q"

definition waiter_ok :: "wq_state \<Rightarrow> nat \<Rightarrow> nat list \<Rightarrow> bool" where
  "waiter_ok st w ys \<longleftrightarrow> chain (ents st) (wents (wss st w)) ys \<and> distinct ys \<and> set ys = owned st w"

definition queues_ok :: "wq_state \<Rightarrow> bool" where
  "queues_ok st \<longleftrightarrow> (\<forall>q. \<exists>xs. queue_ok st q xs) \<and>
     (\<forall>e. eq (ents st e) \<noteq> None \<longrightarrow> e < NENT \<and> eused (ents st e))"

definition waiters_ok :: "wq_state \<Rightarrow> bool" where
  "waiters_ok st \<longleftrightarrow> (\<forall>w<NW. wused (wss st w) \<longrightarrow> (\<exists>ys. waiter_ok st w ys)) \<and>
     (\<forall>e w. e < NENT \<and> eused (ents st e) \<and> ew (ents st e) = Some w \<longrightarrow> w < NW \<and> wused (wss st w))"

text \<open>\<open>unlink\<close> in one piece.\<close>

lemma unlink_fields [simp]:
  "wnext (ents (unlink e st) x) = wnext (ents st x)" "ew (ents (unlink e st) x) = ew (ents st x)"
  "ecb (ents (unlink e st) x) = ecb (ents st x)" "eused (ents (unlink e st) x) = eused (ents st x)"
  "wss (unlink e st) = wss st" "tst (unlink e st) = tst st" "called (unlink e st) = called st"
  by (auto simp: unlink_def upd_ent_def Let_def split: option.splits)

lemma unlink_eq: "eq (ents (unlink e st) x) = (if x = e then None else eq (ents st x))"
  by (auto simp: unlink_def upd_ent_def Let_def split: option.splits)

lemma unlink_members: "members (unlink e st) q = members st q - {e}"
  by (auto simp: members_def unlink_eq)

lemma unlink_links:
  assumes "eq (ents st e) = Some q" "eprev (ents st e) \<noteq> Some e" "enext (ents st e) \<noteq> Some e"
  shows "enext (ents (unlink e st) x) = (if eprev (ents st e) = Some x then enext (ents st e) else enext (ents st x))"
    and "eprev (ents (unlink e st) x) = (if enext (ents st e) = Some x then eprev (ents st e) else eprev (ents st x))"
    and "head (unlink e st) r = (if r = q \<and> eprev (ents st e) = None then enext (ents st e) else head st r)"
  using assms by (auto simp: unlink_def upd_ent_def Let_def split: option.splits)

lemma queue_ok_disjoint: "queue_ok st q xs \<Longrightarrow> queue_ok st r ys \<Longrightarrow> q \<noteq> r \<Longrightarrow> set xs \<inter> set ys = {}"
proof -
  assume "queue_ok st q xs" "queue_ok st r ys" "q \<noteq> r"
  then have s: "set xs = members st q" "set ys = members st r" by (simp_all add: queue_ok_def)
  have "members st q \<inter> members st r = {}" using \<open>q \<noteq> r\<close> by (auto simp: members_def)
  then show ?thesis unfolding s .
qed

lemma unlink_queues:
  assumes "queues_ok st"
  shows "queues_ok (unlink e st)"
proof (cases "eq (ents st e)")
  case None
  then show ?thesis using assms by (simp add: unlink_def)
next
  case (Some q)
  obtain xs where xs: "queue_ok st q xs" using assms unfolding queues_ok_def by blast
  have "e \<in> set xs" using assms Some xs by (simp add: queues_ok_def queue_ok_def members_def)
  then obtain as bs where ab: "xs = as @ e # bs" by (auto simp: in_set_conv_decomp)
  have d: "dll (ents st) None (head st q) (as @ e # bs)" "distinct (as @ e # bs)"
    using xs ab by (auto simp: queue_ok_def)
  note mid = dll_mid [OF d(1)]
  have p: "eprev (ents st e) = (if as = [] then None else Some (last as))" using mid by simp
  have n: "enext (ents st e) = (if bs = [] then None else Some (hd bs))" using mid by (cases bs) auto
  have "last as \<noteq> e" if "as \<noteq> []" using d(2) that last_in_set [OF that] by auto
  moreover have "hd bs \<noteq> e" if "bs \<noteq> []" using d(2) that hd_in_set [OF that] by auto
  ultimately have ne: "eprev (ents st e) \<noteq> Some e" "enext (ents st e) \<noteq> Some e" using p n by auto
  note u = unlink_links [OF Some ne]
  have "queue_ok (unlink e st) q (as @ bs)"
  proof -
    have "dll (ents (unlink e st)) None (if as = [] then enext (ents st e) else head st q) (as @ bs)"
      by (rule dll_cut [OF d]) (use p n d(2) in \<open>auto simp: u\<close>)
    then show ?thesis using xs ab p by (auto simp: queue_ok_def u unlink_members)
  qed
  moreover have "queue_ok (unlink e st) r ys" if "r \<noteq> q" "queue_ok st r ys" for r ys
  proof -
    have dj: "set ys \<inter> set xs = {}" using queue_ok_disjoint [OF that(2) xs] that by blast
    have "dll (ents (unlink e st)) None (head st r) ys = dll (ents st) None (head st r) ys"
      using dj ab p n by (intro dll_cong) (auto simp: u split: if_splits)
    then show ?thesis using that dj ab by (auto simp: queue_ok_def u unlink_members)
  qed
  ultimately have "\<exists>zs. queue_ok (unlink e st) r zs" for r
    using assms unfolding queues_ok_def by (cases "r = q") blast+
  then show ?thesis using assms by (auto simp: queues_ok_def unlink_eq split: if_splits)
qed

lemma drop_ent_queues: "queues_ok st \<Longrightarrow> queues_ok (drop_ent e st)"
proof -
  assume "queues_ok st"
  then have q: "queues_ok (unlink e st)" by (rule unlink_queues)
  have "members (drop_ent e st) r = members (unlink e st) r" for r
    by (auto simp: members_def drop_ent_def upd_ent_def unlink_eq)
  moreover have "dll (ents (drop_ent e st)) p h xs = dll (ents (unlink e st)) p h xs" for p h xs
    by (rule dll_cong) (simp add: drop_ent_def upd_ent_def)
  moreover have "head (drop_ent e st) = head (unlink e st)" by (simp add: drop_ent_def upd_ent_def)
  ultimately have "queue_ok (drop_ent e st) r xs = queue_ok (unlink e st) r xs" for r xs by (simp add: queue_ok_def)
  then show ?thesis using q by (auto simp: queues_ok_def drop_ent_def upd_ent_def unlink_eq)
qed

lemma drop_ent_fields [simp]:
  "wnext (ents (drop_ent e st) x) = wnext (ents st x)" "ew (ents (drop_ent e st) x) = ew (ents st x)"
  "ecb (ents (drop_ent e st) x) = ecb (ents st x)" "eused (ents (drop_ent e st) x) = (x \<noteq> e \<and> eused (ents st x))"
  "wss (drop_ent e st) = wss st" "tst (drop_ent e st) = tst st" "called (drop_ent e st) = called st"
  "eq (ents (drop_ent e st) x) = (if x = e then None else eq (ents st x))"
  by (simp_all add: drop_ent_def upd_ent_def unlink_eq)

text \<open>Dropping all entries of a chain.\<close>

definition dropped :: "nat set \<Rightarrow> wq_state \<Rightarrow> wq_state \<Rightarrow> bool" where
  "dropped X st st' \<longleftrightarrow> wss st' = wss st \<and> tst st' = tst st \<and> called st' = called st \<and>
     (\<forall>x. wnext (ents st' x) = wnext (ents st x) \<and> ew (ents st' x) = ew (ents st x) \<and> ecb (ents st' x) = ecb (ents st x) \<and>
          eused (ents st' x) = (x \<notin> X \<and> eused (ents st x)) \<and> eq (ents st' x) = (if x \<in> X then None else eq (ents st x)))"

lemma drop_all_ok:
  "chain (ents st) h ys \<Longrightarrow> queues_ok st \<Longrightarrow> \<exists>st'. drop_all h st = Some st' \<and> queues_ok st' \<and> dropped (set ys) st st'"
proof (induction ys arbitrary: h st)
  case Nil
  then show ?case by (subst drop_all.simps) (simp add: dropped_def)
next
  case (Cons y ys)
  let ?st = "drop_ent y st"
  have "chain (ents ?st) (wnext (ents ?st y)) ys" using Cons.prems(1) wait_chain_cong [of ys "ents ?st" "ents st"] by simp
  from Cons.IH [OF this drop_ent_queues [OF Cons.prems(2)]] obtain st' where
    s: "drop_all (wnext (ents ?st y)) ?st = Some st'" "queues_ok st'" "dropped (set ys) ?st st'" by blast
  have "drop_all h st = Some st'" using Cons.prems(1) s(1) by (subst drop_all.simps) simp
  moreover have "dropped (set (y # ys)) st st'" using s(3) by (auto simp: dropped_def)
  ultimately show ?case using s(2) by blast
qed

section \<open>The operations keep the invariant\<close>

definition wq_inv :: "wq_state \<Rightarrow> bool" where "wq_inv st \<longleftrightarrow> queues_ok st \<and> waiters_ok st"

text \<open>Only some fields matter to each half.\<close>

lemma queues_ok_cong:
  assumes "\<And>x. enext (ents st' x) = enext (ents st x) \<and> eprev (ents st' x) = eprev (ents st x) \<and>
      eq (ents st' x) = eq (ents st x) \<and> eused (ents st' x) = eused (ents st x)" and "head st' = head st"
  shows "queues_ok st' = queues_ok st"
proof -
  have "dll (ents st') p h xs = dll (ents st) p h xs" for p h xs using assms(1) by (intro dll_cong) simp
  then show ?thesis using assms by (simp add: queues_ok_def queue_ok_def members_def)
qed

lemma waiters_ok_cong:
  assumes "\<And>x. wnext (ents st' x) = wnext (ents st x) \<and> ew (ents st' x) = ew (ents st x) \<and> eused (ents st' x) = eused (ents st x)"
    and "\<And>w. wents (wss st' w) = wents (wss st w) \<and> wused (wss st' w) = wused (wss st w)"
  shows "waiters_ok st' = waiters_ok st"
proof -
  have "chain (ents st') h xs = chain (ents st) h xs" for h xs using assms(1) by (intro wait_chain_cong) simp
  then show ?thesis using assms by (simp add: waiters_ok_def waiter_ok_def owned_def)
qed

lemma waiters_okD: "waiters_ok st \<Longrightarrow> e \<in> owned st w \<Longrightarrow> w < NW \<and> wused (wss st w)"
  unfolding waiters_ok_def owned_def by blast

lemma waiter_free_ok:
  assumes inv: "wq_inv st" and w: "w < NW" "wused (wss st w)"
  obtains st' where "wq_waiter_free w st = Some st'" "wq_inv st'" "\<not> wused (wss st' w)" "owned st' w = {}"
    "\<And>v. v \<noteq> w \<Longrightarrow> wss st' v = wss st v" "tst st' = tst st"
proof -
  obtain ys where ys: "waiter_ok st w ys" using inv w unfolding wq_inv_def waiters_ok_def by blast
  then obtain st1 where s: "drop_all (wents (wss st w)) st = Some st1" "queues_ok st1" "dropped (set ys) st st1"
    using drop_all_ok inv unfolding waiter_ok_def wq_inv_def by blast
  have X: "set ys = owned st w" using ys by (simp add: waiter_ok_def)
  let ?st = "upd_w w (\<lambda>x. x\<lparr>wents := None, wused := False\<rparr>) st1"
  have q: "queues_ok ?st" using s(2) queues_ok_cong [of ?st st1] by (simp add: upd_w_def)
  have ow: "owned ?st v = owned st v - owned st w" for v
    using s(3) X by (auto simp: owned_def upd_w_def dropped_def)
  have dj: "owned st v \<inter> owned st w = {}" if "v \<noteq> w" for v using that by (auto simp: owned_def)
  have keep: "waiter_ok ?st v zs" if "v \<noteq> w" "waiter_ok st v zs" for v zs
  proof -
    have "chain (ents ?st) h zs = chain (ents st) h zs" for h
      using s(3) by (intro wait_chain_cong) (simp add: upd_w_def dropped_def)
    then show ?thesis using that s(3) ow dj [OF that(1)] by (auto simp: waiter_ok_def upd_w_def dropped_def)
  qed
  have used: "v \<noteq> w \<and> v < NW \<and> wused (wss st v)" if "e \<in> owned ?st v" for e v
    using that ow waiters_okD [of st e v] inv by (auto simp: wq_inv_def)
  have "waiters_ok ?st"
    unfolding waiters_ok_def
  proof (intro conjI allI impI)
    fix v assume "v < NW" "wused (wss ?st v)"
    then have v: "v \<noteq> w" "wused (wss st v)" using s(3) by (auto simp: upd_w_def dropped_def split: if_splits)
    then obtain zs where "waiter_ok st v zs" using inv \<open>v < NW\<close> unfolding wq_inv_def waiters_ok_def by blast
    then show "\<exists>ys. waiter_ok ?st v ys" using keep [OF v(1)] by blast
  next
    fix e v assume "e < NENT \<and> eused (ents ?st e) \<and> ew (ents ?st e) = Some v"
    then have "e \<in> owned ?st v" by (simp add: owned_def)
    from used [OF this] show "v < NW" "wused (wss ?st v)" using s(3) by (simp_all add: upd_w_def dropped_def)
  qed
  then show ?thesis
    using that [of ?st] s q ow by (auto simp: wq_waiter_free_def wq_inv_def upd_w_def dropped_def)
qed

definition task_dead :: "wq_state \<Rightarrow> nat \<Rightarrow> bool" where
  "task_dead st w \<longleftrightarrow> tst st (wt (wss st w)) = T_FREE \<or> tst st (wt (wss st w)) = T_DEAD"

text \<open>The garbage collection frees waiters of dead tasks only.\<close>

definition collected :: "wq_state \<Rightarrow> wq_state \<Rightarrow> bool" where
  "collected st st' \<longleftrightarrow> wq_inv st' \<and> tst st' = tst st \<and> (\<forall>v. \<not> task_dead st v \<longrightarrow> wss st' v = wss st v)"

lemma gc_one_ok: "wq_inv st \<Longrightarrow> w < NW \<Longrightarrow> \<exists>st'. gc_one w st = Some st' \<and> collected st st'"
proof (cases "wused (wss st w) \<and> task_dead st w")
  case True
  assume a: "wq_inv st" "w < NW"
  obtain st' where "wq_waiter_free w st = Some st'" "wq_inv st'" "\<And>v. v \<noteq> w \<Longrightarrow> wss st' v = wss st v" "tst st' = tst st"
    using waiter_free_ok [OF a] True by metis
  moreover have "v \<noteq> w" if "\<not> task_dead st v" for v using True that by auto
  ultimately show ?thesis using True by (auto simp: gc_one_def collected_def task_dead_def)
next
  case False
  assume "wq_inv st" "w < NW"
  then show ?thesis using False by (auto simp: gc_one_def collected_def task_dead_def)
qed

lemma collected_trans: "collected st st1 \<Longrightarrow> collected st1 st2 \<Longrightarrow> collected st st2"
  by (simp add: collected_def task_dead_def)

lemma gc_list_ok: "wq_inv st \<Longrightarrow> \<forall>w\<in>set ws. w < NW \<Longrightarrow> \<exists>st'. gc_list ws st = Some st' \<and> collected st st'"
proof (induction ws arbitrary: st)
  case (Cons w ws)
  obtain st1 where 1: "gc_one w st = Some st1" "collected st st1" using gc_one_ok [OF Cons.prems(1), of w] Cons.prems(2) by auto
  then obtain st2 where "gc_list ws st1 = Some st2" "collected st1 st2"
    using Cons.IH [of st1] Cons.prems by (auto simp: collected_def)
  then show ?case using 1 collected_trans by auto
qed (simp add: collected_def)

lemma gc_ok: "wq_inv st \<Longrightarrow> \<exists>st'. gc st = Some st' \<and> collected st st'"
  unfolding gc_def by (rule gc_list_ok) auto

lemma two_pass_ok:
  assumes "wq_inv st"
  obtains r st' where "two_pass fr st = Some (r, st')" "collected st st'" "\<forall>i. r = Some i \<longrightarrow> fr st' = Some i"
proof (cases "fr st")
  case None
  obtain st1 where 1: "gc st = Some st1" "collected st st1" using gc_ok [OF assms] by blast
  show ?thesis
  proof (cases "fr st1")
    case None
    obtain st2 where "gc st1 = Some st2" "collected st1 st2" using gc_ok [of st1] 1 by (auto simp: collected_def)
    then show ?thesis using that [of None st2] 1 \<open>fr st = None\<close> None collected_trans by (auto simp: two_pass_def)
  next
    case (Some i)
    then show ?thesis using that [of "Some i" st1] 1 \<open>fr st = None\<close> by (auto simp: two_pass_def)
  qed
next
  case (Some i)
  then show ?thesis using that [of "Some i" st] assms by (auto simp: two_pass_def collected_def)
qed

lemma free_w_Some: "free_w st = Some w \<Longrightarrow> w < NW \<and> \<not> wused (wss st w)"
  unfolding free_w_def by (drule first_idx_SomeD) auto

lemma free_ent_Some: "free_ent st = Some e \<Longrightarrow> e < NENT \<and> \<not> eused (ents st e)"
  unfolding free_ent_def by (drule first_idx_SomeD) auto

lemma new_waiter_inv:
  assumes inv: "wq_inv st" and w: "w < NW" "\<not> wused (wss st w)"
  shows "wq_inv (upd_w w (\<lambda>_. \<lparr>wt = t, fired = False, wused = True, wents = None\<rparr>) st)" (is "wq_inv ?st")
proof -
  have q: "queues_ok ?st" using inv queues_ok_cong [of ?st st] by (simp add: upd_w_def wq_inv_def)
  have ow: "owned ?st v = owned st v" for v by (simp add: owned_def upd_w_def)
  have e: "owned st w = {}" using waiters_okD [of st _ w] inv w by (auto simp: wq_inv_def)
  have "waiters_ok ?st"
    unfolding waiters_ok_def
  proof (intro conjI allI impI)
    fix v assume v: "v < NW" "wused (wss ?st v)"
    show "\<exists>ys. waiter_ok ?st v ys"
    proof (cases "v = w")
      case True
      then show ?thesis using e ow by (intro exI [of _ "[]"]) (simp add: waiter_ok_def upd_w_def owned_def)
    next
      case False
      then obtain ys where "waiter_ok st v ys" using inv v unfolding wq_inv_def waiters_ok_def by (auto simp: upd_w_def)
      then show ?thesis using False by (intro exI [of _ ys]) (simp add: waiter_ok_def upd_w_def owned_def)
    qed
  next
    fix e v assume "e < NENT \<and> eused (ents ?st e) \<and> ew (ents ?st e) = Some v"
    then have "e \<in> owned st v" by (simp add: owned_def upd_w_def)
    then show "v < NW" "wused (wss ?st v)" using waiters_okD [of st e v] inv by (simp_all add: wq_inv_def upd_w_def)
  qed
  then show ?thesis using q by (simp add: wq_inv_def)
qed

lemma push_ent_links:
  assumes "head st q \<noteq> Some e"
  shows "enext (ents (push_ent e q st) x) = (if x = e then head st q else enext (ents st x))"
    and "eprev (ents (push_ent e q st) x) = (if x = e then None else if head st q = Some x then Some e else eprev (ents st x))"
    and "eq (ents (push_ent e q st) x) = (if x = e then Some q else eq (ents st x))"
    and "eused (ents (push_ent e q st) x) = (x = e \<or> eused (ents st x))"
    and "head (push_ent e q st) r = (if r = q then Some e else head st r)"
    and "wss (push_ent e q st) = wss st" "tst (push_ent e q st) = tst st" "called (push_ent e q st) = called st"
    and "wnext (ents (push_ent e q st) x) = wnext (ents st x)" "ew (ents (push_ent e q st) x) = ew (ents st x)"
  using assms by (auto simp: push_ent_def upd_ent_def Let_def split: option.splits)

lemma head_fresh:
  assumes "wq_inv st" "\<not> eused (ents st e)"
  shows "head st q \<noteq> Some e"
proof -
  obtain xs where "queue_ok st q xs" using assms(1) unfolding wq_inv_def queues_ok_def by blast
  then show ?thesis using assms(2) by (cases xs) (auto simp: queue_ok_def members_def)
qed

lemma push_ent_queues:
  assumes ok: "queues_ok st" and e: "e < NENT" "\<not> eused (ents st e)"
  shows "queues_ok (push_ent e q st)"
proof -
  have no: "e \<notin> set xs" if "queue_ok st r xs" for r xs using that e by (simp add: queue_ok_def members_def)
  obtain xs where xs: "queue_ok st q xs" using ok unfolding queues_ok_def by blast
  have h: "head st q = (if xs = [] then None else Some (hd xs))" using xs by (cases xs) (auto simp: queue_ok_def)
  then have he: "head st q \<noteq> Some e" using no [OF xs] by (auto split: if_splits)
  note p = push_ent_links [OF he]
  have none: "eq (ents st e) = None" using ok e unfolding queues_ok_def by blast
  have mem: "members (push_ent e q st) r = (if r = q then insert e (members st q) else members st r)" for r
    using e none by (auto simp: members_def p split: if_splits)
  have "queue_ok (push_ent e q st) q (e # xs)"
  proof (cases xs)
    case Nil
    then show ?thesis using xs h by (simp add: queue_ok_def p mem)
  next
    case (Cons x ys)
    then have "dll (ents (push_ent e q st)) (Some x) (enext (ents st x)) ys = dll (ents st) (Some x) (enext (ents st x)) ys"
      using xs no [OF xs] h by (intro dll_cong) (auto simp: p queue_ok_def)
    then show ?thesis using xs h Cons no [OF xs] by (auto simp: queue_ok_def p mem)
  qed
  moreover have "queue_ok (push_ent e q st) r ys" if "r \<noteq> q" "queue_ok st r ys" for r ys
  proof -
    have "set ys \<inter> set xs = {}" using queue_ok_disjoint [OF that(2) xs] that by blast
    then have "hd xs \<notin> set ys" if "xs \<noteq> []" using hd_in_set [OF that] by blast
    then have "dll (ents (push_ent e q st)) None (head st r) ys = dll (ents st) None (head st r) ys"
      using no [OF that(2)] h by (intro dll_cong) (auto simp: p split: if_splits)
    then show ?thesis using that by (simp add: queue_ok_def p mem)
  qed
  ultimately have "\<exists>zs. queue_ok (push_ent e q st) r zs" for r
    using ok unfolding queues_ok_def by (cases "r = q") blast+
  moreover have "x < NENT \<and> eused (ents (push_ent e q st) x)" if "eq (ents (push_ent e q st) x) \<noteq> None" for x
    using that ok e unfolding queues_ok_def by (auto simp: p split: if_splits)
  ultimately show ?thesis unfolding queues_ok_def by blast
qed

text \<open>An entry that was pushed is given to a waiter or made a callback.\<close>

lemma add_ent_inv:
  assumes inv: "wq_inv st" and e: "e < NENT" "\<not> eused (ents st e)" and w: "w < NW" "wused (wss st w)"
  shows "wq_inv (upd_w w (\<lambda>x. x\<lparr>wents := Some e\<rparr>)
    (upd_ent e (\<lambda>x. x\<lparr>ew := Some w, ecb := None, wnext := wents (wss (push_ent e q st) w)\<rparr>) (push_ent e q st)))" (is "wq_inv ?st")
proof -
  note p = push_ent_links [OF head_fresh [OF inv e(2)]]
  have "queues_ok (push_ent e q st)" using inv e push_ent_queues by (simp add: wq_inv_def)
  then have q: "queues_ok ?st" using queues_ok_cong [of ?st "push_ent e q st"] by (simp add: upd_w_def upd_ent_def)
  have ow: "owned ?st v = (if v = w then insert e (owned st w) else owned st v)" for v
    using e by (auto simp: owned_def upd_w_def upd_ent_def p split: if_splits)
  have no: "e \<notin> owned st v" for v using e by (simp add: owned_def)
  have "waiters_ok ?st"
    unfolding waiters_ok_def
  proof (intro conjI allI impI)
    fix v assume v: "v < NW" "wused (wss ?st v)"
    then have "wused (wss st v)" using w by (auto simp: upd_w_def upd_ent_def p split: if_splits)
    then obtain ys where ys: "waiter_ok st v ys" using inv v(1) unfolding wq_inv_def waiters_ok_def by blast
    have c: "chain (ents ?st) h ys = chain (ents st) h ys" for h
      using ys no by (intro wait_chain_cong) (auto simp: upd_w_def upd_ent_def p waiter_ok_def)
    show "\<exists>ys. waiter_ok ?st v ys"
    proof (cases "v = w")
      case True
      then have "waiter_ok ?st v (e # ys)" using ys no c ow by (simp add: waiter_ok_def upd_w_def upd_ent_def p)
      then show ?thesis ..
    next
      case False
      then have "waiter_ok ?st v ys" using ys c ow by (simp add: waiter_ok_def upd_w_def upd_ent_def p)
      then show ?thesis ..
    qed
  next
    fix x v assume "x < NENT \<and> eused (ents ?st x) \<and> ew (ents ?st x) = Some v"
    then have "x \<in> owned ?st v" by (simp add: owned_def)
    then have "v = w \<or> x \<in> owned st v" using ow by (auto split: if_splits)
    then show "v < NW" "wused (wss ?st v)"
      using waiters_okD [of st x v] inv w by (auto simp: wq_inv_def upd_w_def upd_ent_def p)
  qed
  then show ?thesis using q by (simp add: wq_inv_def)
qed

lemma add_cb_inv:
  assumes inv: "wq_inv st" and e: "e < NENT" "\<not> eused (ents st e)"
  shows "wq_inv (upd_ent e (\<lambda>x. x\<lparr>ew := None, ecb := Some cb, wnext := None\<rparr>) (push_ent e q st))" (is "wq_inv ?st")
proof -
  note p = push_ent_links [OF head_fresh [OF inv e(2)]]
  have "queues_ok (push_ent e q st)" using inv e push_ent_queues by (simp add: wq_inv_def)
  then have q: "queues_ok ?st" using queues_ok_cong [of ?st "push_ent e q st"] by (simp add: upd_ent_def)
  have ow: "owned ?st v = owned st v" for v using e by (auto simp: owned_def upd_ent_def p split: if_splits)
  have "waiter_ok ?st v ys" if "waiter_ok st v ys" for v ys
  proof -
    have "e \<notin> set ys" using that e by (simp add: waiter_ok_def owned_def)
    then have "chain (ents ?st) h ys = chain (ents st) h ys" for h by (intro wait_chain_cong) (auto simp: upd_ent_def p)
    then show ?thesis using that ow by (simp add: waiter_ok_def upd_ent_def p)
  qed
  moreover have "v < NW \<and> wused (wss ?st v)" if "x < NENT" "eused (ents ?st x)" "ew (ents ?st x) = Some v" for x v
  proof -
    have "x \<in> owned ?st v" using that by (simp add: owned_def)
    then show ?thesis using waiters_okD [of st x v] inv ow by (simp add: wq_inv_def upd_ent_def p)
  qed
  ultimately have "waiters_ok ?st"
    using inv unfolding wq_inv_def waiters_ok_def by (simp add: upd_ent_def p) blast
  then show ?thesis using q by (simp add: wq_inv_def)
qed

lemma drop_cb_inv:
  assumes inv: "wq_inv st" and e: "ew (ents st e) = None"
  shows "wq_inv (drop_ent e st)"
proof -
  have ow: "owned (drop_ent e st) v = owned st v" for v using e by (auto simp: owned_def)
  have "waiter_ok (drop_ent e st) v ys = waiter_ok st v ys" for v ys
    using wait_chain_cong [of ys "ents (drop_ent e st)" "ents st"] ow by (simp add: waiter_ok_def)
  moreover have "v < NW \<and> wused (wss st v)" if "x < NENT" "eused (ents (drop_ent e st) x)" "ew (ents (drop_ent e st) x) = Some v" for x v
  proof -
    have "x \<in> owned (drop_ent e st) v" using that by (simp add: owned_def)
    then show ?thesis using waiters_okD [of st x v] inv ow by (simp add: wq_inv_def)
  qed
  ultimately have "waiters_ok (drop_ent e st)"
    using inv unfolding wq_inv_def waiters_ok_def by simp blast
  then show ?thesis using inv drop_ent_queues by (simp add: wq_inv_def)
qed

section \<open>Waking\<close>

text \<open>The waiters and the callbacks of a list of entries.\<close>

definition waits :: "(nat \<Rightarrow> wq_ent) \<Rightarrow> nat list \<Rightarrow> nat set" where
  "waits E xs = {w. \<exists>e\<in>set xs. ecb (E e) = None \<and> ew (E e) = Some w}"

definition cbs :: "(nat \<Rightarrow> wq_ent) \<Rightarrow> nat list \<Rightarrow> nat list" where
  "cbs E xs = List.map_filter (\<lambda>e. ecb (E e)) xs"

text \<open>What waking a list of entries does, and nothing else.\<close>

definition woken :: "bool \<Rightarrow> nat list \<Rightarrow> wq_state \<Rightarrow> wq_state \<Rightarrow> bool" where
  "woken drain xs st st' \<longleftrightarrow>
     ents st' = (\<lambda>x. if drain \<and> x \<in> set xs then (ents st x)\<lparr>eq := None\<rparr> else ents st x) \<and>
     wss st' = (\<lambda>w. if w \<in> waits (ents st) xs then (wss st w)\<lparr>fired := True\<rparr> else wss st w) \<and>
     head st' = head st \<and> called st' = rev (cbs (ents st) xs) @ called st \<and>
     tst st' = (\<lambda>t. if tst st t = T_BLOCKED \<and> t \<in> (\<lambda>w. wt (wss st w)) ` waits (ents st) xs then T_READY else tst st t)"

lemma wake_ent_woken: "woken False [e] st (wake_ent e st)"
  by (auto simp: woken_def wake_ent_def waits_def cbs_def map_filter_def task_ready_def upd_w_def fun_eq_iff split: option.splits)

lemma woken_Cons:
  assumes "woken False [e] st st1" "woken drain xs (if drain then upd_ent e (\<lambda>x. x\<lparr>eq := None\<rparr>) st1 else st1) st'"
  shows "woken drain (e # xs) st st'"
proof -
  let ?st = "if drain then upd_ent e (\<lambda>x. x\<lparr>eq := None\<rparr>) st1 else st1"
  have E: "ents st1 = ents st" using assms(1) by (simp add: woken_def)
  have fl: "ecb (ents ?st x) = ecb (ents st x)" "ew (ents ?st x) = ew (ents st x)" for x by (simp_all add: upd_ent_def E)
  have ws: "waits (ents ?st) xs = waits (ents st) xs" "cbs (ents ?st) xs = cbs (ents st) xs"
    by (simp_all only: waits_def cbs_def fl)
  have cons: "waits (ents st) (e # xs) = waits (ents st) [e] \<union> waits (ents st) xs"
    "cbs (ents st) (e # xs) = cbs (ents st) [e] @ cbs (ents st) xs"
    by (auto simp: waits_def cbs_def map_filter_def)
  have f: "wss ?st = wss st1" "tst ?st = tst st1" "head ?st = head st1" "called ?st = called st1" by (simp_all add: upd_ent_def)
  have wtst: "wt (wss st1 w) = wt (wss st w)" for w using assms(1) by (simp add: woken_def)
  show ?thesis
    unfolding woken_def cons
  proof (intro conjI)
    show "ents st' = (\<lambda>x. if drain \<and> x \<in> set (e # xs) then (ents st x)\<lparr>eq := None\<rparr> else ents st x)"
      using assms(2) E by (auto simp: woken_def upd_ent_def fun_eq_iff)
    show "wss st' = (\<lambda>w. if w \<in> waits (ents st) [e] \<union> waits (ents st) xs then (wss st w)\<lparr>fired := True\<rparr> else wss st w)"
      using assms unfolding woken_def ws f by (auto simp: fun_eq_iff)
    show "head st' = head st" "called st' = rev (cbs (ents st) [e] @ cbs (ents st) xs) @ called st"
      using assms unfolding woken_def ws f by simp_all
    show "tst st' = (\<lambda>t. if tst st t = T_BLOCKED \<and> t \<in> (\<lambda>w. wt (wss st w)) ` (waits (ents st) [e] \<union> waits (ents st) xs)
        then T_READY else tst st t)"
      using assms unfolding woken_def ws f wtst by (auto simp: fun_eq_iff image_Un)
  qed
qed

lemma wake_all_ok:
  "dll (ents st) p h xs \<Longrightarrow> \<exists>st'. wake_all drain h st = Some st' \<and> woken drain xs st st'"
proof (induction xs arbitrary: p h st)
  case Nil
  then show ?case by (subst wake_all.simps) (simp add: woken_def waits_def cbs_def map_filter_def)
next
  case (Cons e xs)
  let ?st = "if drain then upd_ent e (\<lambda>x. x\<lparr>eq := None\<rparr>) (wake_ent e st) else wake_ent e st"
  have w: "woken False [e] st (wake_ent e st)" by (rule wake_ent_woken)
  then have "enext (ents ?st x) = enext (ents st x)" "eprev (ents ?st x) = eprev (ents st x)" for x
    by (simp_all add: woken_def upd_ent_def)
  then have "dll (ents ?st) (Some e) (enext (ents ?st e)) xs"
    using Cons.prems dll_cong [of xs "ents ?st" "ents st"] by simp
  from Cons.IH [OF this] obtain st' where s: "wake_all drain (enext (ents ?st e)) ?st = Some st'" "woken drain xs ?st st'" by blast
  have "wake_all drain h st = Some st'" using Cons.prems s(1) by (subst wake_all.simps) (simp add: Let_def)
  then show ?case using woken_Cons [OF w s(2)] by blast
qed

lemma woken_waiters:
  assumes "woken drain xs st st'" "waiters_ok st"
  shows "waiters_ok st'"
  using assms waiters_ok_cong [of st' st] by (auto simp: woken_def)

lemma wake_inv: "woken False xs st st' \<Longrightarrow> wq_inv st \<Longrightarrow> wq_inv st'"
  using queues_ok_cong [of st' st] woken_waiters [of False xs st st'] by (simp add: woken_def wq_inv_def)

lemma drain_inv:
  assumes w: "woken True xs st st1" and q: "queue_ok st q xs" and inv: "wq_inv st"
  shows "wq_inv (st1\<lparr>head := (head st1)(q := None)\<rparr>)" (is "wq_inv ?st")
proof -
  have E: "ents ?st = (\<lambda>x. if x \<in> set xs then (ents st x)\<lparr>eq := None\<rparr> else ents st x)" "head st1 = head st"
    using w by (simp_all add: woken_def)
  have d: "dll (ents ?st) p h ys = dll (ents st) p h ys" for p h ys using w by (intro dll_cong) (simp add: woken_def)
  have m: "members ?st r = (if r = q then {} else members st r)" for r
  proof -
    have X: "set xs = members st q" using q by (simp add: queue_ok_def)
    have "x \<in> members ?st r \<longleftrightarrow> x \<in> members st r \<and> x \<notin> set xs" for x
      using w by (auto simp: members_def woken_def)
    then have "members ?st r = members st r - members st q" unfolding X by blast
    also have "\<dots> = (if r = q then {} else members st r)" by (auto simp: members_def)
    finally show ?thesis .
  qed
  have "\<exists>zs. queue_ok ?st r zs" for r
  proof (cases "r = q")
    case True
    then show ?thesis by (intro exI [of _ "[]"]) (simp add: queue_ok_def m)
  next
    case False
    obtain zs where "queue_ok st r zs" using inv unfolding wq_inv_def queues_ok_def by blast
    then have "queue_ok ?st r zs" unfolding queue_ok_def d m using False E(2) by simp
    then show ?thesis ..
  qed
  moreover have "x < NENT \<and> eused (ents ?st x)" if "eq (ents ?st x) \<noteq> None" for x
    using that inv w unfolding wq_inv_def queues_ok_def by (auto simp: woken_def split: if_splits)
  ultimately have "queues_ok ?st" unfolding queues_ok_def by blast
  moreover have "waiters_ok ?st" using woken_waiters [OF w] inv waiters_ok_cong [of ?st st1] by (simp add: wq_inv_def)
  ultimately show ?thesis by (simp add: wq_inv_def)
qed

section \<open>Reachable states\<close>

text \<open>Everything the rest of the kernel does to the queues: a waiter is added to a queue by its own live task, entries
  with callbacks are deleted by their owner, and tasks change their state on their own.\<close>

inductive wq_reach :: "wq_state \<Rightarrow> bool" where
  boot: "wq_reach (wq_boot ts)"
| waiter: "wq_reach st \<Longrightarrow> wq_waiter t st = Some (r, st') \<Longrightarrow> wq_reach st'"
| waiter_free: "wq_reach st \<Longrightarrow> w < NW \<Longrightarrow> wused (wss st w) \<Longrightarrow> wq_waiter_free w st = Some st' \<Longrightarrow> wq_reach st'"
| add: "wq_reach st \<Longrightarrow> w < NW \<Longrightarrow> wused (wss st w) \<Longrightarrow> \<not> task_dead st w \<Longrightarrow> wq_add q w st = Some (r, st') \<Longrightarrow> wq_reach st'"
| add_cb: "wq_reach st \<Longrightarrow> wq_add_cb q cb st = Some (r, st') \<Longrightarrow> wq_reach st'"
| del: "wq_reach st \<Longrightarrow> wq_reach (wq_del e st)"
| wake: "wq_reach st \<Longrightarrow> wq_wake q st = Some st' \<Longrightarrow> wq_reach st'"
| drain: "wq_reach st \<Longrightarrow> wq_drain q st = Some st' \<Longrightarrow> wq_reach st'"
| sleep: "wq_reach st \<Longrightarrow> wq_reach (snd (wq_sleep now w ms st))"
| sleep_end: "wq_reach st \<Longrightarrow> wq_reach (wq_sleep_end w st)"
| tasks: "wq_reach st \<Longrightarrow> wq_reach (st\<lparr>tst := ts\<rparr>)"

text \<open>Operations that leave the lists alone.\<close>

lemma wq_inv_same:
  assumes "wq_inv st" "ents st' = ents st" "head st' = head st"
    "\<And>w. wents (wss st' w) = wents (wss st w) \<and> wused (wss st' w) = wused (wss st w)"
  shows "wq_inv st'"
  using assms queues_ok_cong [of st' st] waiters_ok_cong [of st' st] by (simp add: wq_inv_def)

lemma boot_inv: "wq_inv (wq_boot ts)"
  by (auto simp: wq_inv_def queues_ok_def waiters_ok_def queue_ok_def members_def wq_boot_def intro!: exI [of _ "[]"])

lemma waiter_inv: "wq_inv st \<Longrightarrow> \<exists>r st'. wq_waiter t st = Some (r, st') \<and> wq_inv st'"
proof -
  assume "wq_inv st"
  then obtain r st1 where r: "two_pass free_w st = Some (r, st1)" "collected st st1" "\<forall>i. r = Some i \<longrightarrow> free_w st1 = Some i"
    by (rule two_pass_ok [where fr = free_w])
  show ?thesis
  proof (cases r)
    case (Some w)
    then show ?thesis
      using r new_waiter_inv [of st1 w t] free_w_Some [of st1 w] by (simp add: wq_waiter_def collected_def)
  qed (use r in \<open>simp add: wq_waiter_def collected_def\<close>)
qed

lemma ent_new_cases:
  assumes "wq_inv st"
  obtains (none) st1 where "ent_new q st = Some (None, st1)" "collected st st1"
  | (new) e st1 where "ent_new q st = Some (Some e, push_ent e q st1)" "collected st st1" "e < NENT" "\<not> eused (ents st1 e)"
proof -
  obtain r st1 where r: "two_pass free_ent st = Some (r, st1)" "collected st st1" "\<forall>i. r = Some i \<longrightarrow> free_ent st1 = Some i"
    using assms by (rule two_pass_ok [where fr = free_ent])
  show ?thesis
  proof (cases r)
    case None
    then show ?thesis using r none by (simp add: ent_new_def)
  next
    case (Some e)
    then show ?thesis using r new [of e st1] free_ent_Some [of st1 e] by (simp add: ent_new_def)
  qed
qed

lemma add_inv:
  assumes inv: "wq_inv st" and w: "w < NW" "wused (wss st w)" "\<not> task_dead st w"
  shows "\<exists>r st'. wq_add q w st = Some (r, st') \<and> wq_inv st'"
  using inv
proof (cases rule: ent_new_cases [where q = q])
  case (none st1)
  then show ?thesis by (simp add: wq_add_def collected_def)
next
  case (new e st1)
  then have "wused (wss st1 w)" using w by (simp add: collected_def)
  then show ?thesis using new w add_ent_inv [of st1 e w q] by (simp add: wq_add_def collected_def)
qed

lemma add_cb_op_inv: "wq_inv st \<Longrightarrow> \<exists>r st'. wq_add_cb q cb st = Some (r, st') \<and> wq_inv st'"
proof -
  assume "wq_inv st"
  then show ?thesis
  proof (cases rule: ent_new_cases [where q = q])
    case (none st1)
    then show ?thesis by (simp add: wq_add_cb_def collected_def)
  next
    case (new e st1)
    then show ?thesis using add_cb_inv [of st1 e cb q] by (simp add: wq_add_cb_def collected_def)
  qed
qed

lemma wake_op:
  assumes "wq_inv st"
  obtains xs st' where "queue_ok st q xs" "wq_wake q st = Some st'" "woken False xs st st'"
proof -
  obtain xs where xs: "queue_ok st q xs" using assms unfolding wq_inv_def queues_ok_def by blast
  then obtain st' where s: "wake_all False (head st q) st = Some st'" "woken False xs st st'"
    using wake_all_ok [of st None "head st q" xs False] by (auto simp: queue_ok_def)
  have "wq_wake q st = Some st'" using s(1) by (auto simp: wq_wake_def wake_all.simps)
  then show ?thesis using that xs s(2) by blast
qed

lemma drain_op_inv: "wq_inv st \<Longrightarrow> \<exists>st'. wq_drain q st = Some st' \<and> wq_inv st'"
proof -
  assume inv: "wq_inv st"
  obtain xs where xs: "queue_ok st q xs" using inv unfolding wq_inv_def queues_ok_def by blast
  then obtain st1 where s: "wake_all True (head st q) st = Some st1" "woken True xs st st1"
    using wake_all_ok [of st None "head st q" xs True] by (auto simp: queue_ok_def)
  then show ?thesis using drain_inv [OF s(2) xs inv] by (simp add: wq_drain_def)
qed

lemma wq_reach_inv_ok: "wq_reach st \<Longrightarrow> wq_inv st"
proof (induction rule: wq_reach.induct)
  case (waiter st t r st')
  then show ?case using waiter_inv [of st t] by auto
next
  case (waiter_free st w st')
  then show ?case using waiter_free_ok [of st w] by (metis option.inject)
next
  case (add st w q r st')
  then show ?case using add_inv [of st w q] by auto
next
  case (add_cb st q cb r st')
  then show ?case using add_cb_op_inv [of st q cb] by auto
next
  case (wake st q st')
  then show ?case using wake_op [of st q] wake_inv by (metis option.inject)
next
  case (drain st q st')
  then show ?case using drain_op_inv [of st q] by auto
next
  case (sleep st now w ms)
  show ?case by (rule wq_inv_same [OF sleep.IH]) (auto simp: wq_sleep_def upd_w_def Let_def)
next
  case (sleep_end st w)
  show ?case by (rule wq_inv_same [OF sleep_end.IH]) (auto simp: wq_sleep_end_def upd_w_def)
next
  case (tasks st ts)
  show ?case by (rule wq_inv_same [OF tasks.IH]) auto
qed (auto simp: boot_inv wq_del_def intro: drop_cb_inv)

section \<open>Properties\<close>

text \<open>C7: After any sequence of operations every queue is a doubly linked list without repetition of exactly the entries that
  name the queue, and the entries of every waiter in use are exactly those linked from it; an entry never belongs to a
  waiter that is free.\<close>

theorem wq_reach_inv: "wq_reach st \<Longrightarrow> wq_inv st"
  by (rule wq_reach_inv_ok)

text \<open>C19: No wake-up is lost. Waking a queue always returns; every callback on the queue has run, and every waiter on the
  queue is marked, its task is not blocked, and its next \<open>wq_sleep\<close> goes on without blocking.\<close>

theorem wq_wake_reaches_all:
  assumes "wq_reach st"
  shows "\<exists>st'. wq_wake q st = Some st' \<and>
    (\<forall>e\<in>members st q. case ecb (ents st e) of
        Some cb \<Rightarrow> cb \<in> set (called st')
      | None \<Rightarrow> (case ew (ents st e) of
            Some w \<Rightarrow> fired (wss st' w) \<and> tst st' (wt (wss st' w)) \<noteq> T_BLOCKED \<and> \<not> fst (wq_sleep now w ms st')
          | None \<Rightarrow> True))"
proof -
  obtain xs st' where s: "queue_ok st q xs" "wq_wake q st = Some st'" "woken False xs st st'"
    using wake_op [OF wq_reach_inv_ok [OF assms]] .
  have X: "members st q = set xs" using s(1) by (simp add: queue_ok_def)
  have cb: "cb \<in> set (called st')" if "e \<in> set xs" "ecb (ents st e) = Some cb" for e cb
    using s(3) that by (force simp: woken_def cbs_def map_filter_def)
  have fired: "fired (wss st' w) \<and> tst st' (wt (wss st' w)) \<noteq> T_BLOCKED" 
    if "e \<in> set xs" "ecb (ents st e) = None" "ew (ents st e) = Some w" for e w
  proof -
    have "w \<in> waits (ents st) xs" using that by (auto simp: waits_def)
    then show ?thesis using s(3) by (auto simp: woken_def)
  qed
  have "\<not> fst (wq_sleep now w ms st')" if "fired (wss st' w)" for w
    using that by (simp add: wq_sleep_def Let_def)
  then show ?thesis
    unfolding X using s(2) cb fired by (auto split: option.split)
qed

text \<open>Task 5 waits on queue 7.\<close>

lemma first_idx_upt: "P a \<Longrightarrow> a < b \<Longrightarrow> first_idx P [a..<b] = Some 0"
  by (simp add: upt_conv_Cons)

definition ex_wait :: wq_state where
  "ex_wait = (let st = upd_w 0 (\<lambda>_. \<lparr>wt = 5, fired = False, wused = True, wents = None\<rparr>) (wq_boot (\<lambda>_. T_READY)) in
     upd_w 0 (\<lambda>x. x\<lparr>wents := Some 0\<rparr>) (upd_ent 0 (\<lambda>x. x\<lparr>ew := Some 0, ecb := None, wnext := None\<rparr>) (push_ent 0 7 st)))"

lemma ex_wait_reach: "wq_reach ex_wait"
proof -
  let ?b = "wq_boot (\<lambda>_. T_READY)"
  let ?st = "upd_w 0 (\<lambda>_. \<lparr>wt = 5, fired = False, wused = True, wents = None\<rparr>) ?b"
  have "free_w ?b = Some 0" "free_ent ?st = Some 0"
    by (simp_all add: free_w_def free_ent_def wq_boot_def upd_w_def first_idx_upt)
  then have "wq_waiter 5 ?b = Some (Some 0, ?st)" and add: "wq_add 7 0 ?st = Some (Some 0, ex_wait)"
    by (simp_all add: wq_waiter_def wq_add_def ent_new_def two_pass_def ex_wait_def push_ent_def upd_ent_def upd_w_def wq_boot_def Let_def)
  then have "wq_reach ?st" by (intro wq_reach.waiter [OF wq_reach.boot])
  then show ?thesis
    by (rule wq_reach.add [OF _ _ _ _ add]) (simp_all add: upd_w_def wq_boot_def task_dead_def)
qed

lemma wq_reach_inv_witness: "wq_reach ex_wait \<and> wq_inv ex_wait"
  using wq_reach_inv [OF ex_wait_reach] ex_wait_reach by simp

lemma wq_wake_reaches_all_witness:
  "\<exists>st'. wq_wake 7 ex_wait = Some st' \<and> fired (wss st' 0) \<and> \<not> fst (wq_sleep 1000 0 10 st')"
proof -
  have "0 \<in> members ex_wait 7" "ecb (ents ex_wait 0) = None" "ew (ents ex_wait 0) = Some 0"
    by (simp_all add: members_def ex_wait_def upd_ent_def upd_w_def push_ent_def wq_boot_def Let_def)
  then show ?thesis using wq_wake_reaches_all [OF ex_wait_reach, of 7 1000 10] by force
qed

end
