(* ===== verification/Fs.thy ===== *)
theory Fs
  imports KString "HOL-Library.Monad_Syntax"
begin

text \<open>
  \<open>src/src/fs/fs.c\<close>: the tree of files in memory. Nodes are named by their address; the list of the
  children of a directory (\<open>child\<close>, \<open>next\<close> in the code) and the list of the extra names of a hard-linked
  node (\<open>hn\<close>) are lists. \<open>kmalloc\<close> hands out the addresses of \<open>pool\<close> one by one and fails when it is empty;
  \<open>kfree\<close> clears \<open>live\<close>. Mount namespace and root of the current process, the clock and the read-only mounts
  are fields of the state. Calls that leave the file system (page cache, volumes) are entries of \<open>log\<close>.
\<close>

datatype fs_type = FS_FILE | FS_DIR | FS_LINK

record fs_node =
  nname :: string
  ntype :: fs_type
  nparent :: "nat option"
  kids :: "nat list"
  ndata :: "string option"
  nsize :: nat
  ncap :: nat
  nmode :: nat
  ndev :: nat
  unlinked :: bool
  nrefs :: int
  mtime :: nat
  mount_id :: nat
  lazy :: nat
  hl :: "nat option"
  hn :: "nat list"
  xl :: nat
  npc :: bool
  bnd :: bool
  shadow :: bool
  live :: bool

record bind =
  bsrc :: nat
  bdst :: "nat option"
  bns :: nat

datatype fs_event = Pc_Changed nat | Pc_Free nat | Ext2_Dirty nat | Mount_Dirty nat | Lazy_Load nat | Free_Hook nat

record fs =
  nodes :: "nat \<Rightarrow> fs_node"
  root :: nat
  bt :: "bind list"
  recent :: "nat option list"
  recent_i :: nat
  pool :: "nat list"
  now :: nat
  mntns :: nat
  proot :: "nat option"
  ro :: "nat \<Rightarrow> bool"
  log :: "fs_event list"

abbreviation FS_NAME_MAX :: nat where "FS_NAME_MAX \<equiv> 128"
abbreviation NBT :: nat where "NBT \<equiv> 768"

definition upd :: "nat \<Rightarrow> (fs_node \<Rightarrow> fs_node) \<Rightarrow> fs \<Rightarrow> fs" where
  "upd n f st = st\<lparr>nodes := (nodes st)(n := f (nodes st n))\<rparr>"

definition say :: "fs_event \<Rightarrow> fs \<Rightarrow> fs" where "say e st = st\<lparr>log := e # log st\<rparr>"

definition kfree_node :: "nat \<Rightarrow> fs \<Rightarrow> fs" where "kfree_node n st = upd n (\<lambda>x. x\<lparr>live := False\<rparr>) st"

section \<open>Nodes\<close>

definition empty_node :: fs_node where
  "empty_node = \<lparr>nname = '''', ntype = FS_FILE, nparent = None, kids = [], ndata = None, nsize = 0, ncap = 0, nmode = 0,
     ndev = 0, unlinked = False, nrefs = 0, mtime = 0, mount_id = 0, lazy = 0, hl = None, hn = [], xl = 0, npc = False,
     bnd = False, shadow = False, live = True\<rparr>"

text \<open>Permission bits are in decimal: 493 is 0755, 420 is 0644, 438 is 0666, 511 is 0777, 432 is 0660.\<close>

definition node_new :: "string \<Rightarrow> fs_type \<Rightarrow> nat option \<Rightarrow> fs \<Rightarrow> nat option \<times> fs" where
  "node_new name ty par st =
     (case pool st of
        [] \<Rightarrow> (None, st)
      | a # as \<Rightarrow> (Some a, (upd a (\<lambda>_. empty_node\<lparr>nname := take (FS_NAME_MAX - 1) name, ntype := ty, nparent := par,
                       nmode := (if ty = FS_DIR then 493 else 420), mtime := now st\<rparr>) st)\<lparr>pool := as\<rparr>))"

definition link_child :: "nat \<Rightarrow> nat \<Rightarrow> fs \<Rightarrow> fs" where
  "link_child dir c st = upd dir (\<lambda>x. x\<lparr>kids := c # kids x\<rparr>) st"

text \<open>The way up from a node to the first one that \<open>P\<close> accepts; the outer \<open>None\<close> is a cycle.\<close>

partial_function (option) up :: "(nat \<Rightarrow> bool) \<Rightarrow> nat option \<Rightarrow> fs \<Rightarrow> nat option option" where
  "up P n st = (case n of None \<Rightarrow> Some None | Some a \<Rightarrow> if P a then Some n else up P (nparent (nodes st a)) st)"

definition fs_dirty :: "nat option \<Rightarrow> fs \<Rightarrow> fs option" where
  "fs_dirty n st = map_option (\<lambda>m. case m of None \<Rightarrow> st
      | Some a \<Rightarrow> let i = mount_id (nodes st a) in
          if ro st i \<or> 16 \<le> i then st else if 8 \<le> i then say (Ext2_Dirty i) st else say (Mount_Dirty i) st)
      (up (\<lambda>a. mount_id (nodes st a) \<noteq> 0) n st)"

definition fs_touch :: "nat option \<Rightarrow> fs \<Rightarrow> fs option" where
  "fs_touch n st = fs_dirty n (case n of Some a \<Rightarrow> if npc (nodes st a) then say (Pc_Changed a) st else st | None \<Rightarrow> st)"

definition fs_owner :: "nat option \<Rightarrow> fs \<Rightarrow> nat option" where
  "fs_owner n st = map_option (\<lambda>m. case m of Some a \<Rightarrow> a | None \<Rightarrow> root st)
     (up (\<lambda>a. mount_id (nodes st a) \<noteq> 0 \<or> nparent (nodes st a) = None) n st)"

definition find_child :: "nat option \<Rightarrow> string \<Rightarrow> fs \<Rightarrow> nat option" where
  "find_child dir name st =
     (case dir of
        None \<Rightarrow> None
      | Some d \<Rightarrow>
          if ntype (nodes st d) \<noteq> FS_DIR then None
          else if name = ''.'' then Some d
          else if name = ''..'' then (case nparent (nodes st d) of Some p \<Rightarrow> Some p | None \<Rightarrow> Some d)
          else find (\<lambda>c. nname (nodes st c) = name) (kids (nodes st d)))"

definition fs_child :: "nat option \<Rightarrow> string \<Rightarrow> fs \<Rightarrow> nat option" where
  "fs_child dir name st = find_child dir name st"

definition fs_new_file :: "string \<Rightarrow> fs \<Rightarrow> nat option \<times> fs" where
  "fs_new_file name st = node_new name FS_FILE None st"

definition fs_new_dir :: "string \<Rightarrow> nat option \<Rightarrow> fs \<Rightarrow> nat option \<times> fs" where
  "fs_new_dir name par st = node_new name FS_DIR par st"

section \<open>Aliases\<close>

definition alias_of :: "nat \<Rightarrow> nat \<Rightarrow> fs \<Rightarrow> nat" where
  "alias_of n ns st = (case find (\<lambda>b. bdst b = Some n \<and> bns b = ns) (bt st) of Some b \<Rightarrow> bsrc b | None \<Rightarrow> n)"

definition fs_bind_ns :: "nat \<Rightarrow> nat \<Rightarrow> nat \<Rightarrow> fs \<Rightarrow> int \<times> fs" where
  "fs_bind_ns src dst ns st =
     (case first_idx (\<lambda>b. bdst b = Some dst \<and> bns b = ns) (bt st) of
        Some i \<Rightarrow> (0, st\<lparr>bt := (bt st)[i := (bt st ! i)\<lparr>bsrc := src\<rparr>]\<rparr>)
      | None \<Rightarrow>
          (case first_idx (\<lambda>b. bdst b = None) (bt st) of
             None \<Rightarrow> (- 1, st)
           | Some i \<Rightarrow> (0, upd dst (\<lambda>x. x\<lparr>bnd := True\<rparr>)
                             (st\<lparr>bt := (bt st)[i := \<lparr>bsrc = src, bdst = Some dst, bns = ns mod 256\<rparr>]\<rparr>))))"

definition fs_alias :: "nat \<Rightarrow> fs \<Rightarrow> nat" where
  "fs_alias n st = (if bnd (nodes st n) then alias_of n (mntns st) st else n)"

definition fs_bind :: "nat \<Rightarrow> nat \<Rightarrow> fs \<Rightarrow> int \<times> fs" where
  "fs_bind src dst st = fs_bind_ns src dst (mntns st) st"

definition fs_unbind :: "nat \<Rightarrow> nat \<Rightarrow> fs \<Rightarrow> fs" where
  "fs_unbind dst ns st = st\<lparr>bt := map (\<lambda>b. if bdst b = Some dst \<and> bns b = ns then b\<lparr>bdst := None\<rparr> else b) (bt st)\<rparr>"

text \<open>The table is read as the loop comes to each place: a copy made before is seen.\<close>

fun bind_copy :: "nat \<Rightarrow> nat \<Rightarrow> nat list \<Rightarrow> fs \<Rightarrow> fs" where
  "bind_copy from to' [] st = st"
| "bind_copy from to' (i # js) st =
     bind_copy from to' js
       (let b = bt st ! i in
        case bdst b of Some d \<Rightarrow> if bns b = from then snd (fs_bind_ns (bsrc b) d to' st) else st | None \<Rightarrow> st)"

definition fs_bind_copy :: "nat \<Rightarrow> nat \<Rightarrow> fs \<Rightarrow> fs" where
  "fs_bind_copy from to' st = bind_copy from to' [0..<length (bt st)] st"

text \<open>The next alias of a namespace from place \<open>from\<close> on is given back; the new place comes with it.\<close>

definition fs_bind_drop :: "nat \<Rightarrow> nat \<Rightarrow> fs \<Rightarrow> (nat \<times> nat \<times> fs) option" where
  "fs_bind_drop ns from st =
     (case first_idx (\<lambda>b. bdst b \<noteq> None \<and> bns b = ns) (drop from (bt st)) of
        None \<Rightarrow> None
      | Some k \<Rightarrow> let i = from + k in
          Some (bsrc (bt st ! i), i + 1, st\<lparr>bt := (bt st)[i := (bt st ! i)\<lparr>bdst := None\<rparr>]\<rparr>))"

section \<open>Paths\<close>

text \<open>A C string ends at its first zero byte.\<close>

definition cstr :: "string \<Rightarrow> string" where "cstr s = takeWhile (\<lambda>c. c \<noteq> CHR 0x00) s"

definition the_root :: "fs \<Rightarrow> nat" where
  "the_root st = (case proot st of Some r \<Rightarrow> r | None \<Rightarrow> root st)"

definition is_abs :: "string \<Rightarrow> bool" where "is_abs p \<longleftrightarrow> p \<noteq> [] \<and> hd p = CHR ''/''"

definition start_of :: "fs \<Rightarrow> nat \<Rightarrow> string \<Rightarrow> nat" where
  "start_of st cwd path = (if is_abs path then the_root st else cwd)"

definition skip_abs :: "string \<Rightarrow> string" where "skip_abs p = (if is_abs p then tl p else p)"

text \<open>The path of a symbolic link with the rest of the path behind it, in a buffer of 1024 bytes.\<close>

definition link_path :: "fs_node \<Rightarrow> string \<Rightarrow> string" where
  "link_path x rest =
     (let t = take 1000 (take (nsize x) (the (ndata x)));
          t1 = t @ (if rest \<noteq> [] \<and> length t < 1000 then ''/'' else [])
      in cstr (t1 @ take (1022 - length t1) rest))"

text \<open>One component of a path: the node it leads to before symbolic links.\<close>

definition step_to :: "fs \<Rightarrow> bool \<Rightarrow> bool \<Rightarrow> nat \<Rightarrow> string \<Rightarrow> string \<Rightarrow> nat option" where
  "step_to st follow dent cur part rest =
     (case (if cur = the_root st \<and> part = ''..'' then Some cur else find_child (Some cur) part st) of
        None \<Rightarrow> None
      | Some c \<Rightarrow>
          let c1 = fs_alias c st in
          Some (case hl (nodes st c1) of Some t \<Rightarrow> if rest \<noteq> [] \<or> follow \<or> \<not> dent then t else c1 | None \<Rightarrow> c1))"

definition skip_slashes :: "string \<Rightarrow> string" where "skip_slashes p = dropWhile (\<lambda>c. c = CHR ''/'') p"

text \<open>The loop over the path, with the current node, the component read so far and the depth of symbolic links.\<close>

function resolve_loop :: "fs \<Rightarrow> bool \<Rightarrow> bool \<Rightarrow> nat \<Rightarrow> nat \<Rightarrow> string \<Rightarrow> string \<Rightarrow> nat option" where
  "resolve_loop st follow dent depth cur part p =
     (if p = [] \<or> is_abs p then
        (let rest = skip_slashes p;
             go = (\<lambda>cur. if p = [] then Some cur else resolve_loop st follow dent depth cur [] (tl p))
         in if part = [] then go cur
            else (case step_to st follow dent cur part rest of
                    None \<Rightarrow> None
                  | Some c \<Rightarrow>
                      if ntype (nodes st c) = FS_LINK \<and> (rest \<noteq> [] \<or> follow) then
                        (if 8 < depth \<or> ndata (nodes st c) = None then None
                         else let t = link_path (nodes st c) rest in
                           if t = [] then Some cur
                           else resolve_loop st follow False (depth + 1) (start_of st cur t) [] (skip_abs t))
                      else go c))
      else resolve_loop st follow dent depth cur (if length part < FS_NAME_MAX - 1 then part @ [hd p] else part) (tl p))"
  by pat_completeness auto
termination
  by (relation "measures [\<lambda>(st, follow, dent, depth, cur, part, p). 10 - depth, \<lambda>(st, follow, dent, depth, cur, part, p). length p]")
    auto

declare resolve_loop.simps [simp del]

definition resolve :: "fs \<Rightarrow> nat \<Rightarrow> string \<Rightarrow> bool \<Rightarrow> nat \<Rightarrow> bool \<Rightarrow> nat option" where
  "resolve st cwd path follow depth dent =
     (if path = [] then Some cwd else resolve_loop st follow dent depth (start_of st cwd path) [] (skip_abs path))"

definition fs_need :: "nat option \<Rightarrow> fs \<Rightarrow> fs" where
  "fs_need n st =
     (case n of
        None \<Rightarrow> st
      | Some a \<Rightarrow>
          let st1 = st\<lparr>recent := (recent st)[recent_i st mod 8 := Some a], recent_i := recent_i st + 1\<rparr>
          in if lazy (nodes st1 a) \<noteq> 0 then say (Lazy_Load a) st1 else st1)"

definition fs_recent :: "nat \<Rightarrow> fs \<Rightarrow> bool" where "fs_recent n st = list_ex (\<lambda>r. r = Some n) (recent st)"

text \<open>A whole subtree; \<open>None\<close> is a directory inside itself.\<close>

partial_function (option) need_all :: "nat list \<Rightarrow> fs \<Rightarrow> fs option" where
  "need_all ns st =
     (case ns of [] \<Rightarrow> Some st
      | n # r \<Rightarrow> need_all ((if ntype (nodes st n) = FS_DIR then kids (nodes st n) else []) @ r) (fs_need (Some n) st))"

definition fs_need_tree :: "nat \<Rightarrow> fs \<Rightarrow> fs option" where "fs_need_tree n st = need_all [n] st"

definition fs_resolve :: "nat \<Rightarrow> string \<Rightarrow> fs \<Rightarrow> nat option \<times> fs" where
  "fs_resolve cwd path st = (let n = resolve st cwd path True 0 False in (n, fs_need n st))"

definition fs_resolve_nf :: "nat \<Rightarrow> string \<Rightarrow> fs \<Rightarrow> nat option \<times> fs" where
  "fs_resolve_nf cwd path st = (let n = resolve st cwd path False 0 False in (n, fs_need n st))"

definition fs_peek :: "nat \<Rightarrow> string \<Rightarrow> bool \<Rightarrow> fs \<Rightarrow> nat option" where
  "fs_peek cwd path follow st = resolve st cwd path follow 0 False"

definition fs_peek_d :: "nat \<Rightarrow> string \<Rightarrow> fs \<Rightarrow> nat option" where
  "fs_peek_d cwd path st = resolve st cwd path False 0 True"

section \<open>Changing the tree\<close>

text \<open>From here on \<open>None\<close> is a call that does not return (a cycle of parents) or writes outside a local buffer.\<close>

definition fs_symlink :: "bool \<Rightarrow> nat option \<Rightarrow> string \<Rightarrow> string \<Rightarrow> fs \<Rightarrow> (nat option \<times> fs) option" where
  "fs_symlink mem dir name target st =
     (case dir of
        None \<Rightarrow> Some (None, st)
      | Some d \<Rightarrow>
          if ntype (nodes st d) \<noteq> FS_DIR \<or> find_child dir name st \<noteq> None then Some (None, st)
          else (case node_new name FS_LINK dir st of
                  (None, st1) \<Rightarrow> Some (None, st1)
                | (Some n, st1) \<Rightarrow>
                    if \<not> mem then Some (None, kfree_node n st1)
                    else do {
                      st2 \<leftarrow> fs_touch dir (link_child d n (upd n (\<lambda>x. x\<lparr>ndata := Some target, nsize := length target,
                               ncap := length target + 1, nmode := 511\<rparr>) st1));
                      Some (Some n, st2) }))"

fun last_slash :: "string \<Rightarrow> nat option" where
  "last_slash [] = None"
| "last_slash (c # s) = (case last_slash s of Some i \<Rightarrow> Some (Suc i) | None \<Rightarrow> if c = CHR ''/'' then Some 0 else None)"

text \<open>The directory goes into a buffer of 256 bytes.\<close>

definition split_dir_base :: "string \<Rightarrow> (string \<times> string) option" where
  "split_dir_base path =
     (case last_slash path of
        None \<Rightarrow> Some ([], take (FS_NAME_MAX - 1) path)
      | Some i \<Rightarrow>
          if i = 0 then Some (''/'', take (FS_NAME_MAX - 1) (tl path))
          else if 256 \<le> i then None
          else Some (take i path, take (FS_NAME_MAX - 1) (drop (i + 1) path)))"

definition fs_create :: "nat \<Rightarrow> string \<Rightarrow> fs_type \<Rightarrow> fs \<Rightarrow> (nat option \<times> fs) option" where
  "fs_create cwd path ty st = do {
     (dir, base) \<leftarrow> split_dir_base path;
     (let (par, st1) = (if dir \<noteq> [] then fs_resolve cwd dir st else (Some cwd, st)) in
      case par of
        None \<Rightarrow> Some (None, st1)
      | Some p \<Rightarrow>
          if ntype (nodes st1 p) \<noteq> FS_DIR then Some (None, st1)
          else if find_child par base st1 \<noteq> None then Some (None, st1)
          else (case node_new base ty par st1 of
                  (None, st2) \<Rightarrow> Some (None, st2)
                | (Some n, st2) \<Rightarrow> do { st3 \<leftarrow> fs_touch par (link_child p n st2); Some (Some n, st3) })) }"

definition fs_detach :: "nat \<Rightarrow> fs \<Rightarrow> fs option" where
  "fs_detach n st =
     (case nparent (nodes st n) of
        None \<Rightarrow> Some st
      | Some p \<Rightarrow> do {
          st1 \<leftarrow> fs_touch (Some p) st;
          Some (upd p (\<lambda>x. x\<lparr>mtime := now st\<rparr>)
                 (upd n (\<lambda>x. x\<lparr>nparent := None\<rparr>) (upd p (\<lambda>x. x\<lparr>kids := remove1 n (kids x)\<rparr>) st1))) })"

definition fs_attach :: "nat \<Rightarrow> nat \<Rightarrow> fs \<Rightarrow> fs option" where
  "fs_attach dir n st =
     fs_touch (Some dir) (upd dir (\<lambda>x. x\<lparr>mtime := now st\<rparr>) (link_child dir n (upd n (\<lambda>x. x\<lparr>nparent := Some dir\<rparr>) st)))"

definition fs_hlink :: "nat \<Rightarrow> nat \<Rightarrow> string \<Rightarrow> fs \<Rightarrow> (int \<times> fs) option" where
  "fs_hlink t dir name st =
     (case node_new name (ntype (nodes st t)) (Some dir) st of
        (None, st1) \<Rightarrow> Some (- 1, st1)
      | (Some a, st1) \<Rightarrow>
          let st2 = upd t (\<lambda>x. x\<lparr>hn := a # hn x, xl := xl x + 1\<rparr>) (upd a (\<lambda>x. x\<lparr>hl := Some t\<rparr>) st1);
              st3 = upd t (\<lambda>x. x\<lparr>mtime := now st\<rparr>) (upd dir (\<lambda>x. x\<lparr>mtime := now st\<rparr>) (link_child dir a st2))
          in do { st4 \<leftarrow> fs_touch (Some dir) st3; Some (0, st4) })"

definition fs_data_free :: "nat \<Rightarrow> fs \<Rightarrow> fs" where
  "fs_data_free n st = upd n (\<lambda>x. x\<lparr>ndata := None, ncap := 0, lazy := 0\<rparr>) st"

definition fs_drop_name :: "nat \<Rightarrow> fs \<Rightarrow> fs option" where
  "fs_drop_name n st =
     (case hl (nodes st n) of
        Some t \<Rightarrow> do {
          st1 \<leftarrow> fs_detach n (upd t (\<lambda>x. x\<lparr>hn := remove1 n (hn x), xl := xl x - 1\<rparr>) st);
          Some (kfree_node n st1) }
      | None \<Rightarrow>
          (case hn (nodes st n) of
             a # as \<Rightarrow> do {
               dir \<leftarrow> nparent (nodes st a);
               st1 \<leftarrow> fs_detach a (upd n (\<lambda>x. x\<lparr>hn := as, xl := xl x - 1\<rparr>) st);
               st2 \<leftarrow> fs_detach n (kfree_node a st1);
               fs_attach dir n (upd n (\<lambda>x. x\<lparr>nname := nname (nodes st a)\<rparr>) st2) }
           | [] \<Rightarrow> do {
               st1 \<leftarrow> fs_detach n st;
               Some (if 0 < nrefs (nodes st1 n) then upd n (\<lambda>x. x\<lparr>unlinked := True\<rparr>) st1
                     else kfree_node n (fs_data_free n (say (Pc_Free n) st1))) }))"

definition fs_unlink :: "nat \<Rightarrow> string \<Rightarrow> fs \<Rightarrow> (int \<times> fs) option" where
  "fs_unlink cwd path st =
     (case resolve st cwd path False 0 True of
        None \<Rightarrow> Some (- 1, st)
      | Some n \<Rightarrow>
          if n = root st then Some (- 1, st)
          else if ntype (nodes st n) = FS_DIR \<and> kids (nodes st n) \<noteq> [] then Some (- 1, st)
          else do { st1 \<leftarrow> fs_drop_name n st; Some (0, st1) })"

definition fs_release :: "nat option \<Rightarrow> fs \<Rightarrow> fs" where
  "fs_release no st =
     (case no of
        None \<Rightarrow> st
      | Some n \<Rightarrow>
          let st1 = upd n (\<lambda>x. x\<lparr>nrefs := nrefs x - 1\<rparr>) st in
          if 0 < nrefs (nodes st1 n) then st1
          else if unlinked (nodes st1 n) then kfree_node n (fs_data_free n (say (Pc_Free n) (say (Free_Hook n) st1)))
          else st1)"

section \<open>Contents\<close>

definition fs_set_static :: "nat \<Rightarrow> string \<Rightarrow> fs \<Rightarrow> fs option" where
  "fs_set_static n d st =
     fs_touch (Some n) (upd n (\<lambda>x. x\<lparr>ndata := Some d, nsize := length d, ncap := 0, mtime := now st\<rparr>) (fs_data_free n st))"

definition fs_write :: "bool \<Rightarrow> nat option \<Rightarrow> string \<Rightarrow> fs \<Rightarrow> (int \<times> fs) option" where
  "fs_write mem fo d st =
     (case fo of
        None \<Rightarrow> Some (- 1, st)
      | Some f \<Rightarrow>
          if ntype (nodes st f) \<noteq> FS_FILE then Some (- 1, st)
          else let small = ncap (nodes st f) < add64 (length d) 1;
                   st1 = (if small then upd f (\<lambda>x. x\<lparr>ncap := add64 (length d) 64\<rparr>) (fs_data_free f st) else st) in
            if small \<and> \<not> mem then Some (- 1, upd f (\<lambda>x. x\<lparr>ncap := 0, nsize := 0\<rparr>) st1)
            else do {
              st2 \<leftarrow> fs_touch fo (upd f (\<lambda>x. x\<lparr>ndata := Some d, nsize := length d, mtime := now st\<rparr>) st1);
              Some (int (length d), st2) })"

text \<open>\<open>junk\<close> is what a new buffer holds where nothing was copied to it.\<close>

definition fs_append :: "bool \<Rightarrow> (nat \<Rightarrow> char) \<Rightarrow> nat option \<Rightarrow> string \<Rightarrow> fs \<Rightarrow> (int \<times> fs) option" where
  "fs_append mem junk fo d st =
     (case fo of
        None \<Rightarrow> Some (- 1, st)
      | Some f \<Rightarrow>
          if ntype (nodes st f) \<noteq> FS_FILE then Some (- 1, st)
          else let x = nodes st f; need = add64 (add64 (nsize x) (length d)) 1 in
            if ncap x < need \<and> \<not> mem then Some (- 1, st)
            else let old = (case ndata x of Some b \<Rightarrow> take (nsize x) b | None \<Rightarrow> map junk [0..<nsize x]);
                     st1 = (if ncap x < need then upd f (\<lambda>x. x\<lparr>ncap := add64 need 64\<rparr>) (fs_data_free f st) else st)
                 in do {
                   st2 \<leftarrow> fs_touch fo (upd f (\<lambda>y. y\<lparr>ndata := Some (old @ d), nsize := add64 (nsize x) (length d), mtime := now st\<rparr>) st1);
                   Some (int (length d), st2) })"

section \<open>Mount points\<close>

text \<open>The private copy of the first level of a directory: a shadow directory whose entries are aliases of the real ones.
  \<open>None\<close> is a null pointer after \<open>node_new\<close> found no memory.\<close>

fun shadow_kids :: "nat \<Rightarrow> nat \<Rightarrow> nat list \<Rightarrow> fs \<Rightarrow> fs option" where
  "shadow_kids ns sh [] st = Some st"
| "shadow_kids ns sh (c # cs) st =
     (if hl (nodes st c) \<noteq> None then shadow_kids ns sh cs st
      else (case node_new (nname (nodes st c)) (ntype (nodes st c)) (Some sh) st of
              (None, _) \<Rightarrow> None
            | (Some s, st1) \<Rightarrow>
                shadow_kids ns sh cs
                  (snd (fs_bind_ns (alias_of c ns st1) s ns
                     (link_child sh s (upd s (\<lambda>x. x\<lparr>nmode := nmode (nodes st1 c), shadow := True\<rparr>) st1))))))"

definition copy_up :: "nat \<Rightarrow> nat \<Rightarrow> nat \<Rightarrow> string \<Rightarrow> fs \<Rightarrow> (nat option \<times> fs) option" where
  "copy_up ns dent cur part st =
     (case node_new (nname (nodes st dent)) FS_DIR (nparent (nodes st dent)) st of
        (None, _) \<Rightarrow> None
      | (Some sh, st1) \<Rightarrow> do {
          st2 \<leftarrow> shadow_kids ns sh (kids (nodes st1 cur)) (upd sh (\<lambda>x. x\<lparr>shadow := True, nmode := nmode (nodes st1 cur)\<rparr>) st1);
          (let st3 = snd (fs_bind_ns sh dent ns st2) in
           case find_child (Some sh) part st3 of
             Some nx \<Rightarrow> Some (Some nx, st3)
           | None \<Rightarrow> Some (node_new part FS_DIR (Some sh) st3)) })"

definition mp_part :: "string \<Rightarrow> string" where
  "mp_part p = take (FS_NAME_MAX - 1) (takeWhile (\<lambda>c. c \<noteq> CHR ''/'') p)"

definition mp_rest :: "string \<Rightarrow> string" where "mp_rest p = drop (length (mp_part p)) p"

lemma mp_rest_shorter: "skip_slashes p \<noteq> [] \<Longrightarrow> length (mp_rest (skip_slashes p)) < length p"
proof -
  assume a: "skip_slashes p \<noteq> []"
  then have "hd (skip_slashes p) \<noteq> CHR ''/''" unfolding skip_slashes_def by (rule hd_dropWhile)
  then have "mp_part (skip_slashes p) \<noteq> []" using a by (cases "skip_slashes p") (auto simp: mp_part_def)
  moreover have "length (skip_slashes p) \<le> length p" by (simp add: skip_slashes_def length_dropWhile_le)
  moreover have "0 < length (skip_slashes p)" using a by simp
  ultimately have "length (skip_slashes p) - length (mp_part (skip_slashes p)) < length p"
    by (metis diff_less length_greater_0_conv less_le_trans)
  then show ?thesis by (simp add: mp_rest_def)
qed

function mp_loop :: "nat \<Rightarrow> string \<Rightarrow> bool \<Rightarrow> nat \<Rightarrow> nat option \<Rightarrow> string \<Rightarrow> fs \<Rightarrow> (nat option \<times> fs) option" where
  "mp_loop cwd path cp cur dent p st =
     (let ns = mntns st; p1 = skip_slashes p in
      if p1 = [] then Some (Some (case dent of Some d \<Rightarrow> if cur = alias_of d ns st then d else cur | None \<Rightarrow> cur), st)
      else let part = mp_part p1; p2 = mp_rest p1;
               last = list_all (\<lambda>c. c = CHR ''/'') p2 in
        if part = ''.'' then mp_loop cwd path cp cur dent p2 st
        else if part = ''..'' then
          mp_loop cwd path cp (case nparent (nodes st cur) of Some q \<Rightarrow> if cur \<noteq> the_root st then q else cur | None \<Rightarrow> cur) dent p2 st
        else (case find_child (Some cur) part st of
                None \<Rightarrow> Some (None, st)
              | Some nx0 \<Rightarrow>
                  let nx = (case hl (nodes st nx0) of Some t \<Rightarrow> t | None \<Rightarrow> nx0) in
                  if last then
                    (if ntype (nodes st nx) = FS_LINK then Some (fs_resolve cwd path st)
                     else (case dent of
                             Some d \<Rightarrow> if cp \<and> cur = alias_of d ns st \<and> ntype (nodes st d) = FS_DIR \<and> \<not> shadow (nodes st cur)
                                       then copy_up ns d cur part st else Some (Some nx, st)
                           | None \<Rightarrow> Some (Some nx, st)))
                  else if ntype (nodes st nx) = FS_LINK then
                    (case fs_resolve cur part st of
                       (None, st1) \<Rightarrow> Some (None, st1)
                     | (Some t, st1) \<Rightarrow> mp_loop cwd path cp t None p2 st1)
                  else let a = fs_alias nx st in mp_loop cwd path cp a (if a \<noteq> nx then Some nx else dent) p2 st))"
  by pat_completeness auto
termination
  by (relation "measure (\<lambda>(cwd, path, cp, cur, dent, p, st). length p)") (simp_all add: mp_rest_shorter)

declare mp_loop.simps [simp del]

definition mp_walk :: "nat \<Rightarrow> string \<Rightarrow> bool \<Rightarrow> nat option \<Rightarrow> fs \<Rightarrow> (nat option \<times> fs) option" where
  "mp_walk cwd path cp d0 st =
     (case d0 of
        Some d \<Rightarrow> if is_abs path then mp_loop cwd path cp (the_root st) None path st
                  else mp_loop cwd path cp (alias_of d (mntns st) st) (Some d) path st
      | None \<Rightarrow> mp_loop cwd path cp (start_of st cwd path) None path st)"

definition fs_mp :: "nat \<Rightarrow> string \<Rightarrow> fs \<Rightarrow> (nat option \<times> fs) option" where
  "fs_mp cwd path st = mp_walk cwd path True None st"

definition fs_dent :: "nat \<Rightarrow> string \<Rightarrow> nat option \<Rightarrow> bool \<Rightarrow> fs \<Rightarrow> (nat option \<times> fs) option" where
  "fs_dent cwd path d0 cp st = mp_walk cwd path cp d0 st"

section \<open>The path of a node\<close>

text \<open>\<open>for (c = n; c && c != rt && np < 64; c = c->parent) parts[np++] = c\<close>.\<close>

fun up_list :: "nat \<Rightarrow> nat option \<Rightarrow> nat option \<Rightarrow> fs \<Rightarrow> nat list" where
  "up_list 0 rt c st = []"
| "up_list (Suc k) rt c st =
     (case c of None \<Rightarrow> [] | Some a \<Rightarrow> if c = rt then [] else a # up_list k rt (nparent (nodes st a)) st)"

text \<open>A component is written to the buffer of 256 bytes: the slash always, the name as far as there is room.\<close>

definition put_part :: "string \<Rightarrow> string \<Rightarrow> string option" where
  "put_part t nm = (if 256 \<le> length t then None else Some (t @ ''/'' @ take (255 - (length t + 1)) nm))"

fun put_parts :: "string list \<Rightarrow> string \<Rightarrow> string option" where
  "put_parts [] t = (if 256 \<le> length t then None else Some t)"
| "put_parts (nm # nms) t = Option.bind (put_part t nm) (put_parts nms)"

definition print_path :: "nat list \<Rightarrow> string \<Rightarrow> nat \<Rightarrow> fs \<Rightarrow> string option" where
  "print_path parts t cap st = map_option (take (cap - 1)) (put_parts (rev (map (\<lambda>c. nname (nodes st c)) parts)) t)"

text \<open>The path from the root \<open>rt\<close> down to \<open>n\<close>.\<close>

definition path_from :: "nat option \<Rightarrow> nat \<Rightarrow> nat \<Rightarrow> fs \<Rightarrow> string option" where
  "path_from rt n cap st = (if Some n = rt then Some (take (cap - 1) ''/'') else print_path (up_list 64 rt (Some n) st) [] cap st)"

text \<open>The nodes from \<open>n\<close> up to the top; \<open>None\<close> is a cycle.\<close>

partial_function (option) ancestors :: "nat option \<Rightarrow> fs \<Rightarrow> nat list option" where
  "ancestors n st =
     (case n of None \<Rightarrow> Some [] | Some a \<Rightarrow> do { as \<leftarrow> ancestors (nparent (nodes st a)) st; Some (a # as) })"

definition below :: "nat option \<Rightarrow> nat option \<Rightarrow> fs \<Rightarrow> bool option" where
  "below rt n st = map_option (\<lambda>m. m \<noteq> None) (up (\<lambda>a. Some a = rt) n st)"

text \<open>The last alias in the namespace that brings \<open>c\<close> under the root: its mount point.\<close>

definition bound_at :: "nat \<Rightarrow> fs \<Rightarrow> nat option" where
  "bound_at c st =
     (case find (\<lambda>b. bns b = mntns st \<and> bsrc b = c \<and>
                     (case bdst b of None \<Rightarrow> False | Some d \<Rightarrow> d \<noteq> c \<and> below (proot st) (Some d) st = Some True)) (rev (bt st)) of
        Some b \<Rightarrow> bdst b | None \<Rightarrow> None)"

definition fs_path :: "nat option \<Rightarrow> nat \<Rightarrow> fs \<Rightarrow> string option" where
  "fs_path no cap st =
     (case no of
        None \<Rightarrow> Some []
      | Some n \<Rightarrow> do {
          inside \<leftarrow> below (proot st) no st;
          ups \<leftarrow> ancestors no st;
          (case (if \<not> inside \<and> mntns st \<noteq> 0 then find (\<lambda>c. bound_at c st \<noteq> None) ups else None) of
             Some c \<Rightarrow> do {
               t \<leftarrow> path_from (proot st) (the (bound_at c st)) 256 st;
               (let t1 = (if length t = 1 then [] else t); parts = up_list 64 (Some c) no st in
                if parts = [] \<and> t1 = [] then Some ''/'' else print_path parts t1 cap st) }
           | None \<Rightarrow> path_from (if inside then proot st else Some (root st)) n cap st) })"

text \<open>The lines of \<open>mountinfo\<close> for a private namespace, one for each alias.\<close>

definition bt_line :: "nat \<Rightarrow> string \<Rightarrow> string" where
  "bt_line i p = (let t = the (utoa (100 + i) 10) in
     t @ '' 1 0:'' @ t @ '' / '' @ p @ '' rw,relatime - tmpfs none rw'' @ [CHR 0x0A])"

fun bt_info_loop :: "nat \<Rightarrow> nat \<Rightarrow> nat list \<Rightarrow> string \<Rightarrow> fs \<Rightarrow> string option" where
  "bt_info_loop ns cap [] out st = Some out"
| "bt_info_loop ns cap (i # js) out st =
     (let b = bt st ! i in
      if bdst b = None \<or> bns b \<noteq> ns then bt_info_loop ns cap js out st
      else do {
        p \<leftarrow> fs_path (bdst b) 256 st;
        (let l = bt_line i p in if cap \<le> length out + length l then Some out else bt_info_loop ns cap js (out @ l) st) })"

definition fs_bt_info :: "nat \<Rightarrow> nat \<Rightarrow> fs \<Rightarrow> string option" where
  "fs_bt_info ns cap st = bt_info_loop ns cap [0..<length (bt st)] (''1 0 0:1 / / rw - rootfs rootfs rw'' @ [CHR 0x0A]) st"

section \<open>Devices and the first tree\<close>

text \<open>A node in a directory, with the fields that the caller sets; \<open>None\<close> is a null pointer.\<close>

definition add_node :: "string \<Rightarrow> fs_type \<Rightarrow> nat \<Rightarrow> (fs_node \<Rightarrow> fs_node) \<Rightarrow> fs \<Rightarrow> (nat \<times> fs) option" where
  "add_node name ty dir f st =
     (case node_new name ty (Some dir) st of
        (None, _) \<Rightarrow> None
      | (Some n, st1) \<Rightarrow> Some (n, link_child dir n (upd n f st1)))"

fun add_disks :: "(nat \<Rightarrow> bool) \<Rightarrow> (nat \<Rightarrow> string) \<Rightarrow> nat \<Rightarrow> nat list \<Rightarrow> fs \<Rightarrow> fs" where
  "add_disks present dname dev [] st = st"
| "add_disks present dname dev (i # js) st =
     (if \<not> present i \<or> find_child (Some dev) (dname i) st \<noteq> None then add_disks present dname dev js st
      else (case add_node (dname i) FS_FILE dev (\<lambda>x. x\<lparr>ndev := (16 + i) mod 256, nmode := 432\<rparr>) st of
              None \<Rightarrow> st
            | Some (_, st1) \<Rightarrow> add_disks present dname dev js st1))"

definition fs_add_disk_nodes :: "(nat \<Rightarrow> bool) \<Rightarrow> (nat \<Rightarrow> string) \<Rightarrow> fs \<Rightarrow> fs" where
  "fs_add_disk_nodes present dname st =
     (case fs_resolve (root st) ''/dev'' st of
        (None, st1) \<Rightarrow> st1
      | (Some dev, st1) \<Rightarrow> add_disks present dname dev [0..<48] st1)"

definition dev_list :: "(string \<times> nat) list" where
  "dev_list = [(''null'', 1), (''zero'', 2), (''full'', 2), (''tty'', 3), (''console'', 3), (''random'', 4), (''urandom'', 4),
     (''fb0'', 5), (''input-all'', 6), (''ptmx'', 7), (''input-kbd'', 9), (''input-mouse'', 10), (''rtc0'', 101), (''rtc'', 101)]"

fun add_devs :: "nat \<Rightarrow> (string \<times> nat) list \<Rightarrow> fs \<Rightarrow> fs option" where
  "add_devs dev [] st = Some st"
| "add_devs dev ((nm, d) # ds) st = do {
     (_, st1) \<leftarrow> add_node nm FS_FILE dev (\<lambda>x. x\<lparr>ndev := d, nmode := 438\<rparr>) st;
     add_devs dev ds st1 }"

definition with_data :: "string \<Rightarrow> fs_node \<Rightarrow> fs_node" where
  "with_data s x = x\<lparr>ndata := Some s, nsize := length s, ncap := length s + 1\<rparr>"

definition readme_text :: string where
  "readme_text = ''Welcome to SamaraOS!'' @ [CHR 0x0A] @ ''Try: help, neofetch, ls, cat README.txt, nano notes.txt'' @ [CHR 0x0A]"

text \<open>The directories below the root are linked after all of them were made; the order of the list is the same.\<close>

definition fs_init :: "fs \<Rightarrow> fs option" where
  "fs_init st0 =
     (case node_new ''/'' FS_DIR None st0 of
        (None, _) \<Rightarrow> None
      | (Some r, st) \<Rightarrow> do {
          (home, st) \<leftarrow> (case node_new ''home'' FS_DIR (Some r) (st\<lparr>root := r\<rparr>) of (None, _) \<Rightarrow> None | (Some a, s) \<Rightarrow> Some (a, s));
          (etc, st) \<leftarrow> (case node_new ''etc'' FS_DIR (Some r) st of (None, _) \<Rightarrow> None | (Some a, s) \<Rightarrow> Some (a, s));
          (_, st) \<leftarrow> add_node ''tmp'' FS_DIR r (\<lambda>x. x) st;
          (dev, st) \<leftarrow> add_node ''dev'' FS_DIR r (\<lambda>x. x) (link_child r home (link_child r etc st));
          st \<leftarrow> add_devs dev dev_list st;
          (_, st) \<leftarrow> add_node ''pts'' FS_DIR dev (\<lambda>x. x) st;
          (_, st) \<leftarrow> add_node ''shm'' FS_DIR dev (\<lambda>x. x) st;
          (user, st) \<leftarrow> add_node ''user'' FS_DIR home (\<lambda>x. x) st;
          (_, st) \<leftarrow> add_node ''README.txt'' FS_FILE user (with_data readme_text) st;
          (_, st) \<leftarrow> add_node ''hostname'' FS_FILE etc (with_data (''samara'' @ [CHR 0x0A])) st;
          Some st })"

end
