(* ===== verification/Mount.thy ===== *)
theory Mount
  imports Fs
begin

text \<open>
  \<open>src/src/fs/mount.c\<close>: the mount table over the tree of \<open>Fs\<close>. The state \<open>vfs\<close> is the file system and the
  table; \<open>mnt_ro_id\<close> gives the file system its read-only volumes. What the volume drivers (\<open>ext2.c\<close>, \<open>fatfs.c\<close>)
  and the frame allocator answer is a parameter \<open>env\<close>. An outer \<open>None\<close> is a walk that does not end (a cycle in
  the tree) or a write outside a local buffer.
\<close>

datatype mkind = K_PSEUDO | K_FAT | K_EXT | K_TMP

record mnt =
  mused :: bool
  mro :: bool
  mkind :: mkind
  mdisk :: int
  mtype :: string
  mdev :: string
  mat :: "nat option"
  limit :: nat
  nino :: nat
  used_b :: nat
  added :: nat
  cnt :: nat

record vfs =
  vf :: fs
  tab :: "mnt list"

abbreviation (input) NM :: nat where "NM \<equiv> 24"
abbreviation (input) MNT_TMP_ID :: nat where "MNT_TMP_ID \<equiv> 16"

abbreviation (input) EPERM :: int where "EPERM \<equiv> 1"
abbreviation (input) ENOMEM :: int where "ENOMEM \<equiv> 12"
abbreviation (input) ENOTBLK :: int where "ENOTBLK \<equiv> 15"
abbreviation (input) EBUSY :: int where "EBUSY \<equiv> 16"
abbreviation (input) ENODEV :: int where "ENODEV \<equiv> 19"
abbreviation (input) ENOTDIR :: int where "ENOTDIR \<equiv> 20"
abbreviation (input) EINVAL :: int where "EINVAL \<equiv> 22"
abbreviation (input) ENOSPC :: int where "ENOSPC \<equiv> 28"
abbreviation (input) EROFS :: int where "EROFS \<equiv> 30"

text \<open>The volume drivers and the memory: a mount returns the code and the new state.\<close>

record env =
  ext2_probe :: "int \<Rightarrow> bool"
  fatfs_probe :: "int \<Rightarrow> bool"
  ext2_mount :: "int \<Rightarrow> nat \<Rightarrow> vfs \<Rightarrow> int \<times> vfs"
  fatfs_mount :: "int \<Rightarrow> nat \<Rightarrow> vfs \<Rightarrow> int \<times> vfs"
  ext2_umount :: "nat \<Rightarrow> vfs \<Rightarrow> int \<times> vfs"
  fatfs_umount :: "nat \<Rightarrow> vfs \<Rightarrow> int \<times> vfs"
  fatfs_statfs :: "nat \<Rightarrow> (nat \<times> nat \<times> nat) option"
  ext2_statfs :: "nat \<Rightarrow> (nat \<times> nat \<times> nat \<times> nat \<times> nat) option"
  total_frames :: nat
  free_frames :: nat

section \<open>The table\<close>

definition mnt_zero :: mnt where
  "mnt_zero = \<lparr>mused = False, mro = False, mkind = K_PSEUDO, mdisk = 0, mtype = [], mdev = [], mat = None, limit = 0, nino = 0,
     used_b = 0, added = 0, cnt = 0\<rparr>"

definition find_at :: "nat \<Rightarrow> vfs \<Rightarrow> nat option" where
  "find_at a v = first_idx (\<lambda>e. mused e \<and> mat e = Some a) (tab v)"

text \<open>The deepest mount that a node sits on.\<close>

definition mnt_find :: "nat option \<Rightarrow> vfs \<Rightarrow> nat option option" where
  "mnt_find n v = map_option (\<lambda>m. case m of None \<Rightarrow> None | Some a \<Rightarrow> find_at a v) (up (\<lambda>a. find_at a v \<noteq> None) n (vf v))"

definition upd_mnt :: "nat \<Rightarrow> (mnt \<Rightarrow> mnt) \<Rightarrow> vfs \<Rightarrow> vfs" where
  "upd_mnt i f v = v\<lparr>tab := (tab v)[i := f (tab v ! i)]\<rparr>"

definition slot :: "vfs \<Rightarrow> (nat \<times> vfs) option" where
  "slot v = (case first_idx (\<lambda>e. \<not> mused e) (tab v) of
     None \<Rightarrow> None | Some i \<Rightarrow> Some (i, upd_mnt i (\<lambda>_. mnt_zero\<lparr>mused := True\<rparr>) v))"

definition mnt_add :: "string \<Rightarrow> string \<Rightarrow> nat \<Rightarrow> int \<Rightarrow> vfs \<Rightarrow> vfs" where
  "mnt_add ty dev at disk v =
     (case (case find_at at v of Some i \<Rightarrow> Some (i, v) | None \<Rightarrow> slot v) of
        None \<Rightarrow> v
      | Some (i, v1) \<Rightarrow> upd_mnt i (\<lambda>_. mnt_zero\<lparr>mused := True, mat := Some at, mdisk := disk, mtype := take 11 ty, mdev := take 23 dev,
            mkind := (if ty = ''vfat'' then K_FAT else if take 3 ty = ''ext'' then K_EXT else K_PSEUDO)\<rparr>) v1)"

definition mnt_set_ro :: "nat \<Rightarrow> vfs \<Rightarrow> vfs" where
  "mnt_set_ro at v = (case find_at at v of Some i \<Rightarrow> upd_mnt i (\<lambda>e. e\<lparr>mro := True\<rparr>) v | None \<Rightarrow> v)"

definition init_list :: "(string \<times> string) list" where
  "init_list = [(''proc'', ''/proc''), (''devtmpfs'', ''/dev''), (''devpts'', ''/dev/pts''), (''sysfs'', ''/sys'')]"

definition mnt_init :: "vfs \<Rightarrow> vfs" where
  "mnt_init v = fold (\<lambda>(t, p) v. case fs_peek (root (vf v)) p True (vf v) of Some n \<Rightarrow> mnt_add t t n (- 1) v | None \<Rightarrow> v) init_list v"

definition mnt_ro :: "nat option \<Rightarrow> vfs \<Rightarrow> bool option" where
  "mnt_ro n v = map_option (\<lambda>e. case e of Some i \<Rightarrow> mro (tab v ! i) | None \<Rightarrow> False) (mnt_find n v)"

definition mnt_ro_id :: "nat \<Rightarrow> vfs \<Rightarrow> bool" where
  "mnt_ro_id i v = (case find (\<lambda>e. mused e \<and> (case mat e of Some a \<Rightarrow> mount_id (nodes (vf v) a) = i | None \<Rightarrow> False) \<and> mkind e \<noteq> K_PSEUDO) (tab v) of
     Some e \<Rightarrow> mro e | None \<Rightarrow> False)"

section \<open>The text of \<open>/proc/mounts\<close>\<close>

fun put_digits :: "nat \<Rightarrow> string" where
  "put_digits v = (''0123456789'' ! (v mod 10)) # (if v div 10 = 0 then [] else put_digits (v div 10))"

declare put_digits.simps [simp del]

definition put_u :: "nat \<Rightarrow> string" where "put_u v = rev (put_digits v)"

definition line :: "env \<Rightarrow> mnt \<Rightarrow> vfs \<Rightarrow> string option" where
  "line E e v = do {
     path \<leftarrow> fs_path (mat e) 256 (vf v);
     Some ((if mdev e \<noteq> [] then mdev e else mtype e) @ '' '' @ path @ '' '' @ mtype e @ (if mro e then '' ro'' else '' rw'') @
       (if mkind e = K_TMP then '',nosuid,nodev,size='' @
          put_u ((if limit e \<noteq> 0 then limit e else mul64 (total_frames E) 2048) div 1024) @ ''k'' @
          (if nino e \<noteq> 0 then '',nr_inodes='' @ put_u (nino e) else []) else []) @
       '' 0 0'' @ [CHR 0x0A]) }"

text \<open>One pass over the table; a line that does not fit ends the pass.\<close>

fun text_pass :: "env \<Rightarrow> vfs \<Rightarrow> bool \<Rightarrow> nat \<Rightarrow> mnt list \<Rightarrow> string \<Rightarrow> string option" where
  "text_pass E v first cap [] out = Some out"
| "text_pass E v first cap (e # es) out =
     (if \<not> mused e \<or> (mat e = Some (root (vf v))) \<noteq> first then text_pass E v first cap es out
      else do {
        l \<leftarrow> line E e v;
        (if cap \<le> length out + length l then Some out else text_pass E v first cap es (out @ l)) })"

definition mnt_text :: "env \<Rightarrow> nat \<Rightarrow> vfs \<Rightarrow> string option" where
  "mnt_text E cap v = do {
     out \<leftarrow> text_pass E v True cap (tab v)
        (if find_at (root (vf v)) v = None then ''rootfs / rootfs rw 0 0'' @ [CHR 0x0A] else []);
     text_pass E v False cap (tab v) out }"

section \<open>Trees\<close>

partial_function (option) free_kids :: "nat list \<Rightarrow> fs \<Rightarrow> fs option" where
  "free_kids cs st =
     (case cs of [] \<Rightarrow> Some st
      | c # r \<Rightarrow> do {
          st1 \<leftarrow> free_kids (kids (nodes st c)) st;
          free_kids r (kfree_node c (fs_data_free c (upd c (\<lambda>x. x\<lparr>kids := []\<rparr>) st1))) })"

definition fs_free_tree :: "nat \<Rightarrow> fs \<Rightarrow> fs option" where
  "fs_free_tree n st = do { st1 \<leftarrow> free_kids (kids (nodes st n)) st; Some (upd n (\<lambda>x. x\<lparr>kids := []\<rparr>) st1) }"

partial_function (option) busy_kids :: "nat list \<Rightarrow> fs \<Rightarrow> bool option" where
  "busy_kids cs st =
     (case cs of [] \<Rightarrow> Some False
      | c # r \<Rightarrow> if 0 < nrefs (nodes st c) \<or> mount_id (nodes st c) \<noteq> 0 then Some True
                 else do { b \<leftarrow> busy_kids (kids (nodes st c)) st; if b then Some True else busy_kids r st })"

definition fs_tree_busy :: "nat \<Rightarrow> fs \<Rightarrow> bool option" where "fs_tree_busy n st = busy_kids (kids (nodes st n)) st"

text \<open>Bytes and nodes of a mount; extra names do not count, and mounts on it are left out.\<close>

partial_function (option) walk_kids :: "nat list \<Rightarrow> nat \<Rightarrow> nat \<Rightarrow> fs \<Rightarrow> (nat \<times> nat) option" where
  "walk_kids cs sz c st =
     (case cs of [] \<Rightarrow> Some (sz, c)
      | n # r \<Rightarrow>
          let x = nodes st n in
          if hl x \<noteq> None then walk_kids r sz c st
          else let sz1 = (if ntype x = FS_FILE \<and> ndev x = 0 then add64 sz (nsize x) else sz); c1 = add32 c 1 in
            if ntype x = FS_DIR \<and> mount_id x = 0 then do { (sz2, c2) \<leftarrow> walk_kids (kids x) sz1 c1 st; walk_kids r sz2 c2 st }
            else walk_kids r sz1 c1 st)"

definition walk :: "nat \<Rightarrow> fs \<Rightarrow> (nat \<times> nat) option" where "walk d st = walk_kids (kids (nodes st d)) 0 1 st"

definition recount :: "nat \<Rightarrow> vfs \<Rightarrow> vfs option" where
  "recount i v = do {
     (sz, c) \<leftarrow> walk (the (mat (tab v ! i))) (vf v);
     Some (upd_mnt i (\<lambda>e. e\<lparr>used_b := sz, cnt := c, added := 0\<rparr>) v) }"

section \<open>Limits\<close>

definition mnt_grow :: "nat \<Rightarrow> nat \<Rightarrow> vfs \<Rightarrow> (int \<times> vfs) option" where
  "mnt_grow n newsize v = do {
     f \<leftarrow> mnt_find (Some n) v;
     (case f of
        None \<Rightarrow> Some (0, v)
      | Some i \<Rightarrow>
          let e = tab v ! i; sz = nsize (nodes (vf v) n) in
          if mro e then Some (- EROFS, v)
          else if mkind e \<noteq> K_TMP \<or> limit e = 0 \<or> newsize \<le> sz then Some (0, v)
          else let d = newsize - sz in do {
            (ok, v1) \<leftarrow> (if limit e < add64 (add64 (used_b e) (added e)) d then do {
                           v1 \<leftarrow> recount i v;
                           Some (add64 (used_b (tab v1 ! i)) d \<le> limit e, v1) }
                         else Some (True, v));
            Some (if ok then (0, upd_mnt i (\<lambda>e. e\<lparr>added := add64 (added e) d\<rparr>) v1) else (- ENOSPC, v1)) }) }"

definition mnt_newnode :: "nat \<Rightarrow> vfs \<Rightarrow> (int \<times> vfs) option" where
  "mnt_newnode dir v = do {
     f \<leftarrow> mnt_find (Some dir) v;
     (case f of
        None \<Rightarrow> Some (0, v)
      | Some i \<Rightarrow>
          let e = tab v ! i in
          if mro e then Some (- EROFS, v)
          else if mkind e \<noteq> K_TMP \<or> nino e = 0 then Some (0, v)
          else do { v1 \<leftarrow> recount i v; Some (if nino e \<le> cnt (tab v1 ! i) then - ENOSPC else 0, v1) }) }"

section \<open>Options\<close>

fun digits :: "nat \<Rightarrow> string \<Rightarrow> nat \<times> string" where
  "digits v [] = (v, [])"
| "digits v (c # s) = (if 48 \<le> (of_char c :: nat) \<and> (of_char c :: nat) \<le> 57 then digits (add64 (mul64 v 10) (of_char c - 48)) s else (v, c # s))"

definition num :: "string \<Rightarrow> nat \<Rightarrow> nat" where
  "num s whole =
     (let (v, r) = digits 0 s; c = (if r = [] then CHR 0x00 else hd r) in
      if c = CHR ''k'' \<or> c = CHR ''K'' then mul64 v (2 ^ 10)
      else if c = CHR ''m'' \<or> c = CHR ''M'' then mul64 v (2 ^ 20)
      else if c = CHR ''g'' \<or> c = CHR ''G'' then mul64 v (2 ^ 30)
      else if c = CHR ''%'' then mul64 (whole div 100) v else v)"

text \<open>Octal digits; the result is a 32-bit \<open>int\<close>.\<close>

fun oct :: "nat \<Rightarrow> string \<Rightarrow> nat" where
  "oct m [] = m"
| "oct m (c # s) = (if 48 \<le> (of_char c :: nat) \<and> (of_char c :: nat) \<le> 55 then oct ((m * 8 + of_char c - 48) mod 2 ^ 32) s else m)"

definition opt_one :: "env \<Rightarrow> string \<Rightarrow> mnt \<times> nat option \<Rightarrow> mnt \<times> nat option" where
  "opt_one E t = (\<lambda>(e, mode).
     let ram = mul64 (total_frames E) 4096 in
     if take 5 t = ''size='' then (e\<lparr>limit := num (drop 5 t) ram\<rparr>, mode)
     else if take 10 t = ''nr_inodes='' then (e\<lparr>nino := num (drop 10 t) 0 mod 2 ^ 32\<rparr>, mode)
     else if take 10 t = ''nr_blocks='' then (e\<lparr>limit := mul64 (num (drop 10 t) 0) 4096\<rparr>, mode)
     else if take 5 t = ''mode='' then (e, Some (oct 0 (drop 5 t)))
     else if t = ''ro'' then (e\<lparr>mro := True\<rparr>, mode)
     else if t = ''rw'' then (e\<lparr>mro := False\<rparr>, mode)
     else (e, mode))"

function commas :: "string \<Rightarrow> string list" where
  "commas p = (if p = [] then [] else takeWhile (\<lambda>c. c \<noteq> CHR '','') p # commas (tl (dropWhile (\<lambda>c. c \<noteq> CHR '','') p)))"
  by pat_completeness auto
termination
proof (relation "measure length", goal_cases)
  case (2 p)
  have "length (dropWhile (\<lambda>c. c \<noteq> CHR '','') p) \<le> length p" by (rule length_dropWhile_le)
  moreover have "0 < length p" using 2 by (simp only: length_greater_0_conv not_False_eq_True)
  ultimately show ?case unfolding in_measure length_tl by linarith
qed simp

declare commas.simps [simp del]

definition opts :: "env \<Rightarrow> string option \<Rightarrow> mnt \<Rightarrow> mnt \<times> nat option" where
  "opts E data e = (case data of None \<Rightarrow> (e, None) | Some s \<Rightarrow> fold (opt_one E) (commas (take 159 s)) (e, None))"

definition pseudo_type :: "string \<Rightarrow> bool" where
  "pseudo_type t \<longleftrightarrow> t \<in> set [''proc'', ''sysfs'', ''devtmpfs'', ''devpts'', ''cgroup'', ''cgroup2'', ''mqueue'',
     ''debugfs'', ''tracefs'', ''securityfs'', ''configfs'', ''fusectl'', ''pstore'', ''bpf'']"

section \<open>Mounting\<close>

abbreviation (input) MS_RDONLY :: nat where "MS_RDONLY \<equiv> 0"
abbreviation (input) MS_REMOUNT :: nat where "MS_REMOUNT \<equiv> 5"
abbreviation (input) MS_BIND :: nat where "MS_BIND \<equiv> 12"
abbreviation (input) MS_MOVE :: nat where "MS_MOVE \<equiv> 13"

definition on_fs :: "(fs \<Rightarrow> 'r \<times> fs) \<Rightarrow> vfs \<Rightarrow> 'r \<times> vfs" where
  "on_fs f v = (case f (vf v) of (r, st) \<Rightarrow> (r, v\<lparr>vf := st\<rparr>))"

definition tmp_id :: "vfs \<Rightarrow> nat option" where
  "tmp_id v = find (\<lambda>i. \<not> list_ex (\<lambda>e. mused e \<and> mkind e = K_TMP \<and> mount_id (nodes (vf v) (the (mat e))) = i) (tab v))
     [MNT_TMP_ID..<MNT_TMP_ID + 8]"

definition mount_tmp :: "env \<Rightarrow> nat option \<Rightarrow> nat \<Rightarrow> string \<Rightarrow> nat \<Rightarrow> string option \<Rightarrow> vfs \<Rightarrow> int \<times> vfs" where
  "mount_tmp E src dst ty flags data v =
     (if mount_id (nodes (vf v) dst) \<noteq> 0 \<or> find_at dst v \<noteq> None then (- EBUSY, v)
      else (case tmp_id v of
        None \<Rightarrow> (- EBUSY, v)
      | Some i \<Rightarrow>
          (case slot v of
             None \<Rightarrow> (- EBUSY, v)
           | Some (k, v1) \<Rightarrow>
               let dev = (case src of None \<Rightarrow> ''tmpfs''
                          | Some s \<Rightarrow> if ndev (nodes (vf v) s) \<noteq> 0 \<or> ntype (nodes (vf v) s) \<noteq> FS_DIR then ''tmpfs''
                                      else take 23 (nname (nodes (vf v) s)));
                   (e, mode) = opts E data ((tab v1 ! k)\<lparr>mkind := K_TMP, mat := Some dst, mdisk := - 1, mro := bit flags MS_RDONLY,
                                  mtype := ty, mdev := dev\<rparr>);
                   v2 = upd_mnt k (\<lambda>_. e) v1;
                   f = (\<lambda>x. x\<lparr>nmode := (case mode of Some m \<Rightarrow> if m < 2 ^ 31 then m mod 2 ^ 16 else nmode x | None \<Rightarrow> nmode x),
                               mount_id := i mod 256\<rparr>)
               in (0, v2\<lparr>vf := upd dst f (vf v2)\<rparr>))))"

definition mount_disk :: "env \<Rightarrow> nat option \<Rightarrow> nat \<Rightarrow> string \<Rightarrow> nat \<Rightarrow> vfs \<Rightarrow> int \<times> vfs" where
  "mount_disk E src dst ty flags v =
     (case src of
        None \<Rightarrow> (- 2, v)
      | Some s \<Rightarrow>
          let dv = ndev (nodes (vf v) s) in
          if dv < 16 \<or> 64 \<le> dv then (- ENOTBLK, v)
          else let disk = int dv - 16 in
            if list_ex (\<lambda>e. mused e \<and> mkind e \<noteq> K_PSEUDO \<and> mdisk e = disk) (tab v) then (- EBUSY, v)
            else (case (if ty = ''auto'' then if ext2_probe E disk then Some ''ext4'' else if fatfs_probe E disk then Some ''vfat'' else None
                        else Some ty) of
                    None \<Rightarrow> (- EINVAL, v)
                  | Some t \<Rightarrow>
                      let done = (\<lambda>(r, v1). (r, if r = 0 \<and> bit flags MS_RDONLY then mnt_set_ro dst v1 else v1)) in
                      if take 3 t = ''ext'' then
                        (if \<not> ext2_probe E disk then (- EINVAL, v)
                         else done (case ext2_mount E disk dst v of (r, v1) \<Rightarrow> (if 0 < r then 0 else r, v1)))
                      else if t = ''vfat'' \<or> t = ''msdos'' \<or> t = ''fat'' then
                        (if \<not> fatfs_probe E disk then (- EINVAL, v) else done (fatfs_mount E disk dst v))
                      else (- ENODEV, v)))"

definition remount :: "env \<Rightarrow> nat \<Rightarrow> nat \<Rightarrow> string option \<Rightarrow> vfs \<Rightarrow> (int \<times> vfs) option" where
  "remount E dst flags data v = do {
     f \<leftarrow> (case find_at dst v of Some i \<Rightarrow> Some (Some i) | None \<Rightarrow> mnt_find (Some dst) v);
     Some (case f of
        None \<Rightarrow> (- EINVAL, v)
      | Some i \<Rightarrow> let (t, _) = opts E data ((tab v ! i)\<lparr>mro := False\<rparr>) in
          (0, upd_mnt i (\<lambda>e. e\<lparr>limit := limit t, nino := nino t, mro := bit flags MS_RDONLY \<or> mro t\<rparr>) v)) }"

definition mount_real :: "env \<Rightarrow> nat option \<Rightarrow> nat \<Rightarrow> string option \<Rightarrow> nat \<Rightarrow> string option \<Rightarrow> vfs \<Rightarrow> (int \<times> vfs) option" where
  "mount_real E src dst ty flags data v =
     (if ntype (nodes (vf v) dst) \<noteq> FS_DIR then Some (- ENOTDIR, v)
      else if bit flags MS_REMOUNT then remount E dst flags data v
      else if bit flags MS_BIND then
        Some (case src of Some s \<Rightarrow> if ntype (nodes (vf v) s) = FS_DIR then on_fs (fs_bind s dst) v else (- EINVAL, v) | None \<Rightarrow> (- EINVAL, v))
      else if bit flags MS_MOVE then Some (- EINVAL, v)
      else let t = (case ty of Some t \<Rightarrow> t | None \<Rightarrow> ''auto'') in
        Some (if t = ''tmpfs'' \<or> t = ''ramfs'' then mount_tmp E src dst t flags data v
              else if pseudo_type t then
                (if find_at dst v \<noteq> None then (- EBUSY, v)
                 else let v1 = mnt_add t t dst (- 1) v in
                   (0, case find_at dst v1 of Some i \<Rightarrow> upd_mnt i (\<lambda>e. e\<lparr>mro := bit flags MS_RDONLY\<rparr>) v1 | None \<Rightarrow> v1))
              else mount_disk E src dst t flags v))"

text \<open>In a private mount namespace a mount is an alias of the mount point.\<close>

definition real_of :: "string \<Rightarrow> string option" where
  "real_of t = (if t = ''proc'' then Some ''/proc'' else if t = ''sysfs'' then Some ''/sys'' else if t = ''devpts'' then Some ''/dev/pts''
     else if t = ''devtmpfs'' then Some ''/dev'' else None)"

definition bind_code :: "int \<times> vfs \<Rightarrow> int \<times> vfs" where
  "bind_code rv = (case rv of (r, v) \<Rightarrow> (if r < 0 then - ENOSPC else 0, v))"

definition mount_ns :: "env \<Rightarrow> nat option \<Rightarrow> nat \<Rightarrow> string option \<Rightarrow> nat \<Rightarrow> string option \<Rightarrow> vfs \<Rightarrow> (int \<times> vfs) option" where
  "mount_ns E src dst ty flags data v =
     (if bit flags MS_REMOUNT then
        (let t = fs_alias dst (vf v) in
         Some (0, case find_at t v of Some i \<Rightarrow> if t \<noteq> root (vf v) then upd_mnt i (\<lambda>e. e\<lparr>mro := bit flags MS_RDONLY\<rparr>) v else v | None \<Rightarrow> v))
      else if bit flags MS_BIND then
        Some (case src of None \<Rightarrow> (0, v) | Some s \<Rightarrow> bind_code (on_fs (fs_bind s dst) v))
      else if bit flags MS_MOVE then Some (- EINVAL, v)
      else (case ty of
        None \<Rightarrow> Some (- EINVAL, v)
      | Some t \<Rightarrow>
          (case real_of t of
             Some p \<Rightarrow> Some (case fs_peek (root (vf v)) (tl p) True (vf v) of
                 Some n \<Rightarrow> bind_code (on_fs (fs_bind n dst) v) | None \<Rightarrow> (- ENODEV, v))
           | None \<Rightarrow>
               if t = ''tmpfs'' \<or> t = ''ramfs'' \<or> pseudo_type t then
                 (case on_fs (fs_new_dir (nname (nodes (vf v) dst)) (nparent (nodes (vf v) dst))) v of
                    (None, v1) \<Rightarrow> Some (- ENOMEM, v1)
                  | (Some f, v1) \<Rightarrow>
                      let v2 = v1\<lparr>vf := upd f (\<lambda>x. x\<lparr>nmode := nmode (nodes (vf v) dst), shadow := True\<rparr>) (vf v1)\<rparr> in do {
                        (r, v3) \<leftarrow> (if pseudo_type t then Some (0, v2) else mount_real E src f ty flags data v2);
                        Some (if r < 0 then (r, v3) else bind_code (on_fs (fs_bind f dst) v3)) })
               else Some (- EPERM, v))))"

definition mnt_mount :: "env \<Rightarrow> nat option \<Rightarrow> nat \<Rightarrow> string option \<Rightarrow> nat \<Rightarrow> string option \<Rightarrow> vfs \<Rightarrow> (int \<times> vfs) option" where
  "mnt_mount E src dst ty flags data v =
     (if bit flags 18 \<or> bit flags 19 \<or> bit flags 20 then Some (0, v)
      else if mntns (vf v) \<noteq> 0 then mount_ns E src dst ty flags data v
      else mount_real E src dst ty flags data v)"

section \<open>Unmounting\<close>

definition last_idx :: "('a \<Rightarrow> bool) \<Rightarrow> 'a list \<Rightarrow> nat option" where
  "last_idx P xs = map_option (\<lambda>i. length xs - 1 - i) (first_idx P (rev xs))"

definition mnt_umount :: "env \<Rightarrow> nat \<Rightarrow> vfs \<Rightarrow> (int \<times> vfs) option" where
  "mnt_umount E n v =
     (let dv = ndev (nodes (vf v) n) in
      case (if 16 \<le> dv \<and> dv < 64 then last_idx (\<lambda>e. mused e \<and> mkind e \<noteq> K_PSEUDO \<and> mdisk e = int dv - 16) (tab v) else find_at n v) of
        None \<Rightarrow> Some (- EINVAL, v)
      | Some i \<Rightarrow>
          let e = tab v ! i; at = the (mat e); off = (\<lambda>(r, v1). (r, if r = 0 then upd_mnt i (\<lambda>e. e\<lparr>mused := False\<rparr>) v1 else v1)) in
          if at = root (vf v) then Some (- EBUSY, v)
          else if mkind e = K_PSEUDO then Some (0, upd_mnt i (\<lambda>e. e\<lparr>mused := False\<rparr>) v)
          else do {
            b \<leftarrow> fs_tree_busy at (vf v);
            (if b then Some (- EBUSY, v)
             else case mkind e of
                K_TMP \<Rightarrow> do { st \<leftarrow> fs_free_tree at (upd at (\<lambda>x. x\<lparr>mount_id := 0\<rparr>) (vf v)); Some (off (0, v\<lparr>vf := st\<rparr>)) }
              | K_FAT \<Rightarrow> Some (off (fatfs_umount E at v))
              | _ \<Rightarrow> Some (off (ext2_umount E at v))) })"

definition mnt_tmpfs_boot :: "env \<Rightarrow> string \<Rightarrow> vfs \<Rightarrow> vfs option" where
  "mnt_tmpfs_boot E path v = (case fs_peek (root (vf v)) path True (vf v) of
     Some n \<Rightarrow> map_option snd (mnt_mount E None n (Some ''tmpfs'') 0 None v) | None \<Rightarrow> Some v)"

section \<open>\<open>statfs\<close>\<close>

text \<open>The eleven words that are written, into the fifteen of the caller.\<close>

definition st_tmp :: "env \<Rightarrow> mnt \<Rightarrow> nat \<times> nat \<Rightarrow> nat list \<Rightarrow> nat list" where
  "st_tmp E e = (\<lambda>(sz, c) b.
     let lim = (if limit e \<noteq> 0 then limit e else mul64 (total_frames E) 2048);
         used = add64 sz 4095 div 4096; b2 = lim div 4096;
         b3 = (if used < b2 then b2 - used else 0);
         b3 = (if limit e = 0 \<and> free_frames E < b3 then free_frames E else b3)
     in b[0 := 0x01021994, 1 := 4096, 2 := b2, 3 := b3, 4 := b3, 5 := (if nino e \<noteq> 0 then nino e else b2),
          6 := (if nino e \<noteq> 0 then if c < nino e then nino e - c else 0 else b3), 8 := 255, 9 := 4096])"

definition st_other :: "env \<Rightarrow> nat list \<Rightarrow> nat list" where
  "st_other E b = b[0 := 0x858458f6, 1 := 4096, 2 := total_frames E, 3 := free_frames E, 4 := free_frames E, 8 := 255, 9 := 4096]"

definition mnt_statfs :: "env \<Rightarrow> nat option \<Rightarrow> nat list \<Rightarrow> vfs \<Rightarrow> nat list option" where
  "mnt_statfs E n b v = do {
     f \<leftarrow> (case n of Some _ \<Rightarrow> mnt_find n v | None \<Rightarrow> Some None);
     (case f of
        None \<Rightarrow> Some ((st_other E b)[7 := 0, 10 := 0])
      | Some i \<Rightarrow>
          let e = tab v ! i; at = the (mat e); fin = (\<lambda>b. b[7 := i + 1, 10 := if mro e then 1 else 0]) in
          case mkind e of
            K_FAT \<Rightarrow> Some (fin (case fatfs_statfs E (mount_id (nodes (vf v) at)) of
                Some (cs, tc, fc) \<Rightarrow> b[0 := 0x4d44, 1 := cs, 2 := tc, 3 := fc, 4 := fc, 8 := 255, 9 := cs] | None \<Rightarrow> st_other E b))
          | K_EXT \<Rightarrow> Some (fin (case ext2_statfs E at of
                Some (cs, tb, fb, i0, i1) \<Rightarrow> b[0 := 0xEF53, 1 := cs, 2 := tb, 3 := fb, 4 := fb, 5 := i0, 6 := i1, 8 := 255, 9 := cs]
              | None \<Rightarrow> st_other E b))
          | K_TMP \<Rightarrow> do { w \<leftarrow> walk at (vf v); Some (fin (st_tmp E e w b)) }
          | K_PSEUDO \<Rightarrow> Some (fin (if mtype e \<noteq> ''devtmpfs'' then
                b[0 := (if mtype e = ''proc'' then 0x9fa0 else if mtype e = ''sysfs'' then 0x62656572 else 0x1cd1), 1 := 4096, 8 := 255, 9 := 4096]
              else st_other E b))) }"

end
