(* ===== verification/Fs_Correct.thy ===== *)
theory Fs_Correct
  imports Fs
begin

text \<open>
  The file system stays a tree: every node in it is linked from exactly one place of exactly one directory
  under a name that no sibling has, extra names lead to the node they were made for, and no two names of a
  directory are the same. The path that the code prints for a node leads back to the node.
\<close>

section \<open>Well-formed trees\<close>

definition good_name :: "string \<Rightarrow> bool" where
  "good_name s \<longleftrightarrow> s \<noteq> [] \<and> length s < FS_NAME_MAX \<and> CHR ''/'' \<notin> set s \<and> s \<noteq> ''.'' \<and> s \<noteq> ''..''"

definition root_ok :: "fs \<Rightarrow> bool" where
  "root_ok st \<longleftrightarrow> live (nodes st (root st)) \<and> ntype (nodes st (root st)) = FS_DIR \<and>
     nparent (nodes st (root st)) = None \<and> hl (nodes st (root st)) = None \<and> hn (nodes st (root st)) = []"

text \<open>Children and parents agree, and names are distinct in a directory.\<close>

definition dir_ok :: "fs \<Rightarrow> nat \<Rightarrow> bool" where
  "dir_ok st d \<longleftrightarrow> distinct (map (\<lambda>c. nname (nodes st c)) (kids (nodes st d))) \<and>
     (kids (nodes st d) \<noteq> [] \<longrightarrow> ntype (nodes st d) = FS_DIR \<and> hl (nodes st d) = None) \<and>
     (\<forall>c\<in>set (kids (nodes st d)). live (nodes st c) \<and> nparent (nodes st c) = Some d \<and> good_name (nname (nodes st c)))"

definition tree_ok :: "fs \<Rightarrow> bool" where
  "tree_ok st \<longleftrightarrow> (\<forall>d. live (nodes st d) \<longrightarrow> dir_ok st d) \<and>
     (\<forall>c d. live (nodes st c) \<and> nparent (nodes st c) = Some d \<longrightarrow> live (nodes st d) \<and> c \<in> set (kids (nodes st d)))"

definition ranked :: "(nat \<Rightarrow> nat) \<Rightarrow> fs \<Rightarrow> bool" where
  "ranked r st \<longleftrightarrow> (\<forall>c d. live (nodes st c) \<and> nparent (nodes st c) = Some d \<longrightarrow> r d < r c)"

text \<open>Extra names and the nodes they belong to.\<close>

definition links_ok :: "fs \<Rightarrow> bool" where
  "links_ok st \<longleftrightarrow>
     (\<forall>a t. live (nodes st a) \<and> hl (nodes st a) = Some t \<longrightarrow> live (nodes st t) \<and> hl (nodes st t) = None \<and> a \<in> set (hn (nodes st t)) \<and>
        hn (nodes st a) = []) \<and>
     (\<forall>t. live (nodes st t) \<longrightarrow> distinct (hn (nodes st t)) \<and> xl (nodes st t) = length (hn (nodes st t)) \<and>
        (hn (nodes st t) \<noteq> [] \<longrightarrow> ntype (nodes st t) \<noteq> FS_DIR) \<and>
        (\<forall>a\<in>set (hn (nodes st t)). live (nodes st a) \<and> hl (nodes st a) = Some t \<and> nparent (nodes st a) \<noteq> None))"

definition pool_ok :: "fs \<Rightarrow> bool" where
  "pool_ok st \<longleftrightarrow> distinct (pool st) \<and> (\<forall>a\<in>set (pool st). \<not> live (nodes st a))"

definition fs_wf :: "fs \<Rightarrow> bool" where
  "fs_wf st \<longleftrightarrow> root_ok st \<and> tree_ok st \<and> (\<exists>r. ranked r st) \<and> links_ok st \<and> pool_ok st \<and> finite {n. live (nodes st n)}"

text \<open>Everything but the tree may change, and everything in a freed node.\<close>

definition same_tree :: "fs \<Rightarrow> fs \<Rightarrow> bool" where
  "same_tree st st' \<longleftrightarrow> root st' = root st \<and> pool st' = pool st \<and>
     (\<forall>n. live (nodes st' n) = live (nodes st n) \<and>
       (live (nodes st n) \<longrightarrow>
          nname (nodes st' n) = nname (nodes st n) \<and> ntype (nodes st' n) = ntype (nodes st n) \<and>
          nparent (nodes st' n) = nparent (nodes st n) \<and> kids (nodes st' n) = kids (nodes st n) \<and>
          hl (nodes st' n) = hl (nodes st n) \<and> hn (nodes st' n) = hn (nodes st n) \<and> xl (nodes st' n) = xl (nodes st n)))"

lemma wf_dir: "fs_wf st \<Longrightarrow> live (nodes st d) \<Longrightarrow> dir_ok st d"
  by (simp add: fs_wf_def tree_ok_def)

lemma wf_par:
  assumes "fs_wf st" "live (nodes st c)" "nparent (nodes st c) = Some d"
  shows "live (nodes st d)" "c \<in> set (kids (nodes st d))"
  using assms unfolding fs_wf_def tree_ok_def by blast+

lemma wf_kid:
  assumes "fs_wf st" "live (nodes st d)" "c \<in> set (kids (nodes st d))"
  shows "live (nodes st c)" "nparent (nodes st c) = Some d" "good_name (nname (nodes st c))"
    "ntype (nodes st d) = FS_DIR" "hl (nodes st d) = None"
  using wf_dir [OF assms(1,2)] assms(3) by (auto simp: dir_ok_def)

lemma wf_root:
  assumes "fs_wf st"
  shows "live (nodes st (root st))" "ntype (nodes st (root st)) = FS_DIR" "nparent (nodes st (root st)) = None"
    "hl (nodes st (root st)) = None" "hn (nodes st (root st)) = []"
  using assms by (simp_all add: fs_wf_def root_ok_def)

lemma links_hl:
  assumes "fs_wf st" "live (nodes st a)" "hl (nodes st a) = Some t"
  shows "live (nodes st t)" "hl (nodes st t) = None" "a \<in> set (hn (nodes st t))" "hn (nodes st a) = []"
  using assms unfolding fs_wf_def links_ok_def by blast+

lemma links_hn:
  assumes "fs_wf st" "live (nodes st t)"
  shows "distinct (hn (nodes st t))" "xl (nodes st t) = length (hn (nodes st t))" "hn (nodes st t) \<noteq> [] \<Longrightarrow> ntype (nodes st t) \<noteq> FS_DIR"
    and "b \<in> set (hn (nodes st t)) \<Longrightarrow> live (nodes st b) \<and> hl (nodes st b) = Some t \<and> nparent (nodes st b) \<noteq> None"
  using assms unfolding fs_wf_def links_ok_def by blast+

text \<open>The parts of the invariant, to be shown one by one.\<close>

lemma fs_wfI:
  assumes "live (nodes st (root st))" "ntype (nodes st (root st)) = FS_DIR" "nparent (nodes st (root st)) = None"
      "hl (nodes st (root st)) = None" "hn (nodes st (root st)) = []"
    and "\<And>d. live (nodes st d) \<Longrightarrow> dir_ok st d"
    and "\<And>c d. live (nodes st c) \<Longrightarrow> nparent (nodes st c) = Some d \<Longrightarrow> live (nodes st d) \<and> c \<in> set (kids (nodes st d))"
    and "\<exists>r. ranked r st"
    and "\<And>a t. live (nodes st a) \<Longrightarrow> hl (nodes st a) = Some t \<Longrightarrow>
        live (nodes st t) \<and> hl (nodes st t) = None \<and> a \<in> set (hn (nodes st t)) \<and> hn (nodes st a) = []"
    and "\<And>t. live (nodes st t) \<Longrightarrow> distinct (hn (nodes st t)) \<and> xl (nodes st t) = length (hn (nodes st t)) \<and>
        (hn (nodes st t) \<noteq> [] \<longrightarrow> ntype (nodes st t) \<noteq> FS_DIR)"
    and "\<And>t b. live (nodes st t) \<Longrightarrow> b \<in> set (hn (nodes st t)) \<Longrightarrow>
        live (nodes st b) \<and> hl (nodes st b) = Some t \<and> nparent (nodes st b) \<noteq> None"
    and "distinct (pool st)" "\<And>a. a \<in> set (pool st) \<Longrightarrow> \<not> live (nodes st a)" "finite {n. live (nodes st n)}"
  shows "fs_wf st"
  unfolding fs_wf_def root_ok_def tree_ok_def links_ok_def pool_ok_def using assms by blast

lemma wf_finite: "fs_wf st \<Longrightarrow> finite {n. live (nodes st n)}"
  by (simp add: fs_wf_def)

lemma wf_pool: "fs_wf st \<Longrightarrow> distinct (pool st)" "fs_wf st \<Longrightarrow> a \<in> set (pool st) \<Longrightarrow> \<not> live (nodes st a)"
  by (simp_all add: fs_wf_def pool_ok_def)

text \<open>Induction down the tree.\<close>

lemma kids_induct:
  assumes wf: "fs_wf st" and step: "\<And>n. live (nodes st n) \<Longrightarrow> (\<And>c. c \<in> set (kids (nodes st n)) \<Longrightarrow> P c) \<Longrightarrow> P n"
    and n: "live (nodes st n)"
  shows "P n"
proof -
  obtain r where r: "ranked r st" using wf by (auto simp: fs_wf_def)
  define M where "M = Max (r ` {n. live (nodes st n)})"
  have M: "r m \<le> M" if "live (nodes st m)" for m using that wf_finite [OF wf] by (auto simp: M_def)
  from n show ?thesis
  proof (induction "M - r n" arbitrary: n rule: less_induct)
    case less
    show ?case
    proof (rule step [OF less.prems])
      fix c assume c: "c \<in> set (kids (nodes st n))"
      note k = wf_kid(1,2) [OF wf less.prems c]
      have "r n < r c" using r k unfolding ranked_def by blast
      then have "M - r c < M - r n" using M [OF k(1)] by linarith
      then show "P c" using less.hyps k(1) by blast
    qed
  qed
qed

lemma same_tree_wf:
  assumes s: "same_tree st st'" and wf: "fs_wf st"
  shows "fs_wf st'"
proof -
  have g: "root st' = root st" "pool st' = pool st" "live (nodes st' n) = live (nodes st n)" for n
    using s by (simp_all add: same_tree_def)
  have e: "nname (nodes st' n) = nname (nodes st n)" "ntype (nodes st' n) = ntype (nodes st n)"
    "nparent (nodes st' n) = nparent (nodes st n)" "kids (nodes st' n) = kids (nodes st n)"
    "hl (nodes st' n) = hl (nodes st n)" "hn (nodes st' n) = hn (nodes st n)" "xl (nodes st' n) = xl (nodes st n)"
    if "live (nodes st n)" for n
    using s that by (simp_all add: same_tree_def)
  obtain r where r: "ranked r st" using wf by (auto simp: fs_wf_def)
  show ?thesis
  proof (rule fs_wfI)
    fix d assume d: "live (nodes st' d)"
    then have l: "live (nodes st d)" by (simp add: g)
    note k = wf_kid [OF wf l]
    have "map (\<lambda>c. nname (nodes st' c)) (kids (nodes st d)) = map (\<lambda>c. nname (nodes st c)) (kids (nodes st d))"
      using k(1) by (intro map_cong) (auto simp: e)
    then have "distinct (map (\<lambda>c. nname (nodes st' c)) (kids (nodes st d)))" using wf_dir [OF wf l] unfolding dir_ok_def by metis
    then show "dir_ok st' d" using wf_dir [OF wf l] k(1) l by (auto simp: dir_ok_def e g)
  next
    show "\<exists>r. ranked r st'" using r unfolding ranked_def by (intro exI [of _ r]) (auto simp: g e)
  next
    fix t b assume "live (nodes st' t)" "b \<in> set (hn (nodes st' t))"
    then show "live (nodes st' b) \<and> hl (nodes st' b) = Some t \<and> nparent (nodes st' b) \<noteq> None"
      using links_hn(4) [OF wf, of t b] by (auto simp: g e)
  next
    fix a t assume "live (nodes st' a)" "hl (nodes st' a) = Some t"
    then have "live (nodes st a)" "hl (nodes st a) = Some t" by (simp_all add: g e)
    from links_hl [OF wf this] this(1)
    show "live (nodes st' t) \<and> hl (nodes st' t) = None \<and> a \<in> set (hn (nodes st' t)) \<and> hn (nodes st' a) = []" by (simp add: g e)
  next
    fix t assume "live (nodes st' t)"
    then have "live (nodes st t)" by (simp add: g)
    from links_hn(1-3) [OF wf this] this
    show "distinct (hn (nodes st' t)) \<and> xl (nodes st' t) = length (hn (nodes st' t)) \<and> (hn (nodes st' t) \<noteq> [] \<longrightarrow> ntype (nodes st' t) \<noteq> FS_DIR)"
      by (simp add: e)
  next
    fix c d assume "live (nodes st' c)" "nparent (nodes st' c) = Some d"
    then have "live (nodes st c)" "nparent (nodes st c) = Some d" by (simp_all add: g e)
    from wf_par [OF wf this] show "live (nodes st' d) \<and> c \<in> set (kids (nodes st' d))" by (simp add: g e)
  qed (use wf_root [OF wf] wf_pool [OF wf] wf_finite [OF wf] in \<open>simp_all add: g e\<close>)
qed

lemma same_tree_refl [simp]: "same_tree st st" by (simp add: same_tree_def)

lemma same_tree_trans: "same_tree a b \<Longrightarrow> same_tree b c \<Longrightarrow> same_tree a c" by (simp add: same_tree_def)

lemma same_tree_say [simp]: "same_tree st (say e st)" by (simp add: same_tree_def say_def)

section \<open>Walks up the tree end\<close>

lemma up_ends:
  assumes "tree_ok st" "ranked r st" "live (nodes st a)"
  shows "\<exists>m. up P (Some a) st = Some m"
  using assms(3)
proof (induction "r a" arbitrary: a rule: less_induct)
  case less
  show ?case
  proof (cases "P a \<or> nparent (nodes st a) = None")
    case True
    then show ?thesis by (subst up.simps) (auto simp: up.simps [of P None])
  next
    case False
    then obtain d where d: "nparent (nodes st a) = Some d" by auto
    have "r d < r a" "live (nodes st d)" using assms less.prems d unfolding ranked_def tree_ok_def by blast+
    from less.hyps [OF this] show ?thesis using False d by (subst up.simps) simp
  qed
qed

lemma log_simps [simp]:
  "tree_ok (st\<lparr>log := l\<rparr>) = tree_ok st" "ranked r (st\<lparr>log := l\<rparr>) = ranked r st" "dir_ok (st\<lparr>log := l\<rparr>) d = dir_ok st d"
  by (simp_all add: tree_ok_def ranked_def dir_ok_def)

lemma ex_log: "\<exists>l. st = st\<lparr>log := l\<rparr>"
  by (intro exI [of _ "log st"]) simp

lemma fs_touch_ok:
  assumes "tree_ok st" "ranked r st" "live (nodes st a)"
  obtains l where "fs_touch (Some a) st = Some (st\<lparr>log := l\<rparr>)"
proof -
  let ?st = "if npc (nodes st a) then say (Pc_Changed a) st else st"
  have "\<exists>m. up (\<lambda>b. mount_id (nodes ?st b) \<noteq> 0) (Some a) ?st = Some m"
    using assms by (intro up_ends [of _ r]) (simp_all add: say_def)
  then obtain m where m: "up (\<lambda>b. mount_id (nodes ?st b) \<noteq> 0) (Some a) ?st = Some m" by blast
  have "\<exists>l. fs_touch (Some a) st = Some (st\<lparr>log := l\<rparr>)"
    using m ex_log [of st] by (cases m) (auto simp: fs_touch_def fs_dirty_def say_def Let_def)
  then show ?thesis using that by blast
qed

lemma wf_touch:
  assumes "fs_wf st" "live (nodes st a)"
  obtains l where "fs_touch (Some a) st = Some (st\<lparr>log := l\<rparr>)"
  using fs_touch_ok assms unfolding fs_wf_def by blast

section \<open>The five ways the tree changes\<close>

text \<open>What is known of an address that is not live.\<close>

lemma dead_facts:
  assumes "fs_wf st" "\<not> live (nodes st a)"
  shows "live (nodes st d) \<Longrightarrow> a \<notin> set (kids (nodes st d))"
    and "live (nodes st c) \<Longrightarrow> nparent (nodes st c) \<noteq> Some a"
    and "live (nodes st t) \<Longrightarrow> a \<notin> set (hn (nodes st t))"
    and "live (nodes st b) \<Longrightarrow> hl (nodes st b) \<noteq> Some a"
  using assms unfolding fs_wf_def tree_ok_def dir_ok_def links_ok_def by blast+

definition orphan :: "fs_node \<Rightarrow> bool" where
  "orphan x \<longleftrightarrow> live x \<and> kids x = [] \<and> nparent x = None \<and> hl x = None \<and> hn x = [] \<and> xl x = 0"

text \<open>A new node that no directory has.\<close>

lemma birth_wf:
  assumes wf: "fs_wf st" and a: "\<not> live (nodes st a)" "a \<notin> set P" and P: "distinct P" "set P \<subseteq> set (pool st)"
    and x: "orphan x" and st': "nodes st' = (nodes st)(a := x)" "root st' = root st" "pool st' = P"
  shows "fs_wf st'"
proof -
  note df = dead_facts [OF wf a(1)]
  have X: "live x" "kids x = []" "nparent x = None" "hl x = None" "hn x = []" "xl x = 0" using x by (simp_all add: orphan_def)
  have N: "nodes st' n = (if n = a then x else nodes st n)" for n using st'(1) by simp
  have ra: "root st \<noteq> a" using wf_root(1) [OF wf] a(1) by auto
  obtain r where r: "ranked r st" using wf by (auto simp: fs_wf_def)
  show ?thesis
  proof (rule fs_wfI)
    fix d assume d: "live (nodes st' d)"
    show "dir_ok st' d"
    proof (cases "d = a")
      case False
      then have l: "live (nodes st d)" using d by (simp add: N)
      have "c \<noteq> a" if "c \<in> set (kids (nodes st d))" for c using df(1) [OF l] that by auto
      then have "map (\<lambda>c. nname (nodes st' c)) (kids (nodes st d)) = map (\<lambda>c. nname (nodes st c)) (kids (nodes st d))"
        by (intro map_cong) (auto simp: N)
      then have "distinct (map (\<lambda>c. nname (nodes st' c)) (kids (nodes st d)))" using wf_dir [OF wf l] unfolding dir_ok_def by metis
      then show ?thesis using wf_dir [OF wf l] False df(1) [OF l] by (auto simp: dir_ok_def N X)
    qed (simp add: dir_ok_def N X)
  next
    fix c d assume c: "live (nodes st' c)" "nparent (nodes st' c) = Some d"
    then have l: "live (nodes st c)" "nparent (nodes st c) = Some d" by (auto simp: N X split: if_splits)
    have "d \<noteq> a" using df(2) [OF l(1)] l(2) by auto
    then show "live (nodes st' d) \<and> c \<in> set (kids (nodes st' d))" using wf_par [OF wf l] by (simp add: N)
  next
    show "\<exists>r. ranked r st'" using r unfolding ranked_def by (intro exI [of _ r]) (auto simp: N X)
  next
    fix b t assume "live (nodes st' b)" "hl (nodes st' b) = Some t"
    then have l: "live (nodes st b)" "hl (nodes st b) = Some t" and b: "b \<noteq> a" by (auto simp: N X split: if_splits)
    have "t \<noteq> a" using df(4) [OF l(1)] l(2) by auto
    then show "live (nodes st' t) \<and> hl (nodes st' t) = None \<and> b \<in> set (hn (nodes st' t)) \<and> hn (nodes st' b) = []"
      using links_hl [OF wf l] b by (simp add: N)
  next
    fix t assume "live (nodes st' t)"
    then show "distinct (hn (nodes st' t)) \<and> xl (nodes st' t) = length (hn (nodes st' t)) \<and> (hn (nodes st' t) \<noteq> [] \<longrightarrow> ntype (nodes st' t) \<noteq> FS_DIR)"
      using links_hn(1-3) [OF wf, of t] by (cases "t = a") (simp_all add: N X)
  next
    fix t b assume t: "live (nodes st' t)" "b \<in> set (hn (nodes st' t))"
    then have ta: "t \<noteq> a" by (auto simp: N X)
    then have l: "live (nodes st t)" "b \<in> set (hn (nodes st t))" using t by (simp_all add: N)
    have "b \<noteq> a" using df(3) [OF l(1)] l(2) by auto
    then show "live (nodes st' b) \<and> hl (nodes st' b) = Some t \<and> nparent (nodes st' b) \<noteq> None"
      using links_hn(4) [OF wf l] by (simp add: N)
  next
    fix b assume "b \<in> set (pool st')"
    then have "b \<in> set (pool st)" "b \<noteq> a" using a(2) P(2) by (auto simp: st'(3))
    then show "\<not> live (nodes st' b)" using wf_pool(2) [OF wf] by (simp add: N)
  next
    have "{n. live (nodes st' n)} \<subseteq> insert a {n. live (nodes st n)}" by (auto simp: N)
    then show "finite {n. live (nodes st' n)}" using wf_finite [OF wf] by (meson finite_insert finite_subset)
  qed (use ra wf_root [OF wf] P in \<open>simp_all add: N st'(2,3)\<close>)
qed

text \<open>A node outside the tree goes into a directory that is not below it, under a name that is free there.\<close>

definition under :: "fs \<Rightarrow> nat \<Rightarrow> nat \<Rightarrow> bool" where
  "under st n m \<longleftrightarrow> up (\<lambda>a. a = n) (Some m) st \<noteq> Some None"

lemma under_self: "under st n n" by (simp add: under_def up.simps)

lemma under_up: "m \<noteq> n \<Longrightarrow> nparent (nodes st m) = Some p \<Longrightarrow> under st n m = under st n p"
  by (simp add: under_def up.simps [of _ "Some m"])

lemma attach_wf:
  assumes wf: "fs_wf st" and n: "live (nodes st n)" "n \<noteq> root st" "nparent (nodes st n) = None"
    and d: "live (nodes st d)" "ntype (nodes st d) = FS_DIR" "hl (nodes st d) = None" "\<not> under st n d"
    and nm: "good_name (nname (nodes st' n))" "\<forall>c\<in>set (kids (nodes st d)). nname (nodes st c) \<noteq> nname (nodes st' n)"
    and kd: "kids (nodes st' d) = n # kids (nodes st d)" and pn: "nparent (nodes st' n) = Some d"
    and fields: "\<And>m. live (nodes st' m) = live (nodes st m) \<and> ntype (nodes st' m) = ntype (nodes st m) \<and> hl (nodes st' m) = hl (nodes st m) \<and>
         hn (nodes st' m) = hn (nodes st m) \<and> xl (nodes st' m) = xl (nodes st m)"
      "\<And>m. m \<noteq> n \<Longrightarrow> nparent (nodes st' m) = nparent (nodes st m) \<and> nname (nodes st' m) = nname (nodes st m)"
      "\<And>m. m \<noteq> d \<Longrightarrow> kids (nodes st' m) = kids (nodes st m)"
      "root st' = root st" "pool st' = pool st"
  shows "fs_wf st'"
proof -
  note F = fields(1) [THEN conjunct1] fields(1) [THEN conjunct2, THEN conjunct1] fields(1) [THEN conjunct2, THEN conjunct2, THEN conjunct1]
    fields(1) [THEN conjunct2, THEN conjunct2, THEN conjunct2, THEN conjunct1]
    fields(1) [THEN conjunct2, THEN conjunct2, THEN conjunct2, THEN conjunct2] fields(4,5)
  have nd: "n \<noteq> d" using d(4) under_self by auto
  have nk: "n \<notin> set (kids (nodes st e))" if "live (nodes st e)" for e using wf_kid(2) [OF wf that] n(3) by auto
  obtain r where r: "ranked r st" using wf by (auto simp: fs_wf_def)
  show ?thesis
  proof (rule fs_wfI)
    fix e assume "live (nodes st' e)"
    then have l: "live (nodes st e)" by (simp add: F)
    have cn: "c \<noteq> n" if "c \<in> set (kids (nodes st e))" for c using nk [OF l] that by auto
    then have "map (\<lambda>c. nname (nodes st' c)) (kids (nodes st e)) = map (\<lambda>c. nname (nodes st c)) (kids (nodes st e))"
      using fields(2) by (intro map_cong) auto
    then have ds: "distinct (map (\<lambda>c. nname (nodes st' c)) (kids (nodes st e)))" using wf_dir [OF wf l] unfolding dir_ok_def by metis
    have ok: "live (nodes st c) \<and> nparent (nodes st' c) = Some e \<and> nname (nodes st' c) = nname (nodes st c) \<and> good_name (nname (nodes st c))"
      if "c \<in> set (kids (nodes st e))" for c using wf_kid [OF wf l that] fields(2) [OF cn [OF that]] by simp
    show "dir_ok st' e"
    proof (cases "e = d")
      case True
      then show ?thesis using ds ok nm d n(1) kd pn by (auto simp: dir_ok_def F)
    next
      case False
      then show ?thesis using ds ok fields(3) [OF False] wf_dir [OF wf l] by (auto simp: dir_ok_def F)
    qed
  next
    fix c e assume c: "live (nodes st' c)" "nparent (nodes st' c) = Some e"
    show "live (nodes st' e) \<and> c \<in> set (kids (nodes st' e))"
    proof (cases "c = n")
      case True
      then show ?thesis using c pn kd d(1) by (simp add: F)
    next
      case False
      then show ?thesis using wf_par [OF wf, of c e] c fields(2) [OF False] fields(3) [of e] kd by (cases "e = d") (simp_all add: F)
    qed
  next
    have "ranked (\<lambda>m. r m + (if under st n m then r d + 1 else 0)) st'"
      unfolding ranked_def
    proof (intro allI impI)
      fix c e assume c: "live (nodes st' c) \<and> nparent (nodes st' c) = Some e"
      show "r e + (if under st n e then r d + 1 else 0) < r c + (if under st n c then r d + 1 else 0)"
      proof (cases "c = n")
        case True
        then show ?thesis using c pn d(4) under_self [of st n] by simp
      next
        case False
        then have p: "live (nodes st c)" "nparent (nodes st c) = Some e" using c fields(2) by (simp_all add: F)
        then have "r e < r c" using r unfolding ranked_def by blast
        then show ?thesis using under_up [OF False p(2)] by simp
      qed
    qed
    then show "\<exists>r. ranked r st'" by blast
  next
    fix t b assume t: "live (nodes st' t)" "b \<in> set (hn (nodes st' t))"
    then have "live (nodes st b)" "hl (nodes st b) = Some t" "nparent (nodes st b) \<noteq> None"
      using links_hn(4) [OF wf, of t b] by (simp_all add: F)
    then show "live (nodes st' b) \<and> hl (nodes st' b) = Some t \<and> nparent (nodes st' b) \<noteq> None"
      using fields(2) [of b] n(3) by (cases "b = n") (simp_all add: F)
  next
    fix a t assume "live (nodes st' a)" "hl (nodes st' a) = Some t"
    then have "live (nodes st a)" "hl (nodes st a) = Some t" by (simp_all add: F)
    from links_hl [OF wf this]
    show "live (nodes st' t) \<and> hl (nodes st' t) = None \<and> a \<in> set (hn (nodes st' t)) \<and> hn (nodes st' a) = []" by (simp add: F)
  next
    fix t assume "live (nodes st' t)"
    then have "live (nodes st t)" by (simp add: F)
    from links_hn(1-3) [OF wf this]
    show "distinct (hn (nodes st' t)) \<and> xl (nodes st' t) = length (hn (nodes st' t)) \<and> (hn (nodes st' t) \<noteq> [] \<longrightarrow> ntype (nodes st' t) \<noteq> FS_DIR)"
      by (simp add: F)
  qed (use n(2) fields(2) [of "root st"] wf_root [OF wf] wf_pool [OF wf] wf_finite [OF wf] in \<open>simp_all add: F\<close>)
qed

text \<open>A node leaves its directory; it is freed only if it has no children and no extra names.\<close>

lemma subseq_remove1: "subseq (remove1 x xs) xs"
  by (induction xs) auto

lemma subseq_distinct:
  assumes "subseq xs ys" "distinct ys"
  shows "distinct xs"
proof -
  from assms(1) have "set xs \<subseteq> set ys \<and> (distinct ys \<longrightarrow> distinct xs)"
    by (induction rule: list_emb.induct) auto
  then show ?thesis using assms(2) by simp
qed

lemma cut_wf:
  assumes wf: "fs_wf st" and n: "live (nodes st n)" "n \<noteq> root st" "hl (nodes st n) = None"
      "live (nodes st' n) \<or> kids (nodes st n) = [] \<and> hn (nodes st n) = []"
    and p: "\<And>d. nparent (nodes st n) = Some d \<Longrightarrow> kids (nodes st' d) = remove1 n (kids (nodes st d))"
    and x: "nparent (nodes st' n) = None"
    and fields: "\<And>m. m \<noteq> n \<Longrightarrow> nparent (nodes st' m) = nparent (nodes st m) \<and> live (nodes st' m) = live (nodes st m)"
      "\<And>m. nname (nodes st' m) = nname (nodes st m) \<and> ntype (nodes st' m) = ntype (nodes st m) \<and> hl (nodes st' m) = hl (nodes st m) \<and>
         hn (nodes st' m) = hn (nodes st m) \<and> xl (nodes st' m) = xl (nodes st m)"
      "\<And>m. nparent (nodes st n) \<noteq> Some m \<Longrightarrow> kids (nodes st' m) = kids (nodes st m)"
      "root st' = root st" "pool st' = pool st"
  shows "fs_wf st'"
proof -
  have lv: "live (nodes st m)" if "live (nodes st' m)" for m using fields(1) [of m] n(1) that by (cases "m = n") auto
  note F = fields(2) [THEN conjunct1] fields(2) [THEN conjunct2, THEN conjunct1] fields(2) [THEN conjunct2, THEN conjunct2, THEN conjunct1]
    fields(2) [THEN conjunct2, THEN conjunct2, THEN conjunct2, THEN conjunct1]
    fields(2) [THEN conjunct2, THEN conjunct2, THEN conjunct2, THEN conjunct2] fields(4,5)
  have K0: "set (kids (nodes st' d)) = set (kids (nodes st d)) - {n} \<and> subseq (kids (nodes st' d)) (kids (nodes st d))"
    if "live (nodes st d)" for d
  proof (cases "nparent (nodes st n) = Some d")
    case True
    have "distinct (kids (nodes st d))" using wf_dir [OF wf that] by (auto simp: dir_ok_def distinct_map)
    then show ?thesis using p [OF True] by (simp add: set_remove1_eq subseq_remove1)
  next
    case False
    then have "n \<notin> set (kids (nodes st d))" using wf_kid(2) [OF wf that] by blast
    then show ?thesis using fields(3) [OF False] by simp
  qed
  then have K: "set (kids (nodes st' d)) = set (kids (nodes st d)) - {n}" "subseq (kids (nodes st' d)) (kids (nodes st d))"
    if "live (nodes st d)" for d using that by auto
  have still: "live (nodes st' m)" if "live (nodes st m)" "kids (nodes st m) \<noteq> [] \<or> hn (nodes st m) \<noteq> []" for m
    using n(4) fields(1) [of m] that by (cases "m = n") auto
  obtain r where r: "ranked r st" using wf by (auto simp: fs_wf_def)
  show ?thesis
  proof (rule fs_wfI)
    fix d assume "live (nodes st' d)"
    then have l: "live (nodes st d)" by (rule lv)
    have "subseq (map (\<lambda>c. nname (nodes st c)) (kids (nodes st' d))) (map (\<lambda>c. nname (nodes st c)) (kids (nodes st d)))"
      using K(2) [OF l] by (rule subseq_map)
    then have ds: "distinct (map (\<lambda>c. nname (nodes st c)) (kids (nodes st' d)))"
      using wf_dir [OF wf l] unfolding dir_ok_def by (blast intro: subseq_distinct)
    have ne: "kids (nodes st' d) \<noteq> [] \<Longrightarrow> kids (nodes st d) \<noteq> []" using K(2) [OF l] by auto
    have "live (nodes st' c) \<and> nparent (nodes st' c) = Some d \<and> good_name (nname (nodes st' c))"
      if "c \<in> set (kids (nodes st' d))" for c
    proof -
      have c: "c \<in> set (kids (nodes st d))" "c \<noteq> n" using that K(1) [OF l] by auto
      then show ?thesis using wf_kid [OF wf l c(1)] fields(1) [OF c(2)] by (simp add: F)
    qed
    then show "dir_ok st' d" using ds ne wf_dir [OF wf l] by (simp add: dir_ok_def F)
  next
    fix c d assume c: "live (nodes st' c)" "nparent (nodes st' c) = Some d"
    then have cn: "c \<noteq> n" using x by auto
    then have pc: "live (nodes st c)" "nparent (nodes st c) = Some d" using c fields(1) by auto
    note q = wf_par [OF wf pc]
    have "kids (nodes st d) \<noteq> []" using q(2) by auto
    then have "live (nodes st' d)" using still [OF q(1)] by simp
    then show "live (nodes st' d) \<and> c \<in> set (kids (nodes st' d))" using q K(1) cn by simp
  next
    have "ranked r st'" using r unfolding ranked_def using x fields(1) lv by (metis option.distinct(1))
    then show "\<exists>r. ranked r st'" by blast
  next
    fix b t assume b: "live (nodes st' b)" "hl (nodes st' b) = Some t"
    then have b': "live (nodes st b)" "hl (nodes st b) = Some t" using lv by (simp_all add: F)
    note t = links_hl [OF wf b']
    have "hn (nodes st t) \<noteq> []" using t(3) by auto
    then have "live (nodes st' t)" using still [OF t(1)] by simp
    then show "live (nodes st' t) \<and> hl (nodes st' t) = None \<and> b \<in> set (hn (nodes st' t)) \<and> hn (nodes st' b) = []"
      using t by (simp add: F)
  next
    fix t assume t: "live (nodes st' t)"
    note l = links_hn [OF wf lv [OF t]]
    show "distinct (hn (nodes st' t)) \<and> xl (nodes st' t) = length (hn (nodes st' t)) \<and> (hn (nodes st' t) \<noteq> [] \<longrightarrow> ntype (nodes st' t) \<noteq> FS_DIR)"
      using l(1-3) by (simp add: F)
    fix b assume "b \<in> set (hn (nodes st' t))"
    then have b: "live (nodes st b)" "hl (nodes st b) = Some t" "nparent (nodes st b) \<noteq> None" using l(4) by (auto simp: F)
    then have "b \<noteq> n" using n(3) by auto
    then show "live (nodes st' b) \<and> hl (nodes st' b) = Some t \<and> nparent (nodes st' b) \<noteq> None" using b fields(1) by (simp add: F)
  next
    fix a assume "a \<in> set (pool st')"
    then show "\<not> live (nodes st' a)" using wf_pool(2) [OF wf] lv by (auto simp: F)
  next
    have "{m. live (nodes st' m)} \<subseteq> {m. live (nodes st m)}" using lv by blast
    then show "finite {m. live (nodes st' m)}" using wf_finite [OF wf] by (rule finite_subset)
  qed (use n(2) fields(1) [of "root st"] wf_root [OF wf] wf_pool(1) [OF wf] in \<open>simp_all add: F\<close>)
qed

text \<open>A node in the tree becomes an extra name of another one, and stops being one.\<close>

lemma link_wf:
  assumes wf: "fs_wf st" and a: "live (nodes st a)" "hl (nodes st a) = None" "hn (nodes st a) = []" "kids (nodes st a) = []"
      "nparent (nodes st a) \<noteq> None"
    and t: "live (nodes st t)" "t \<noteq> a" "hl (nodes st t) = None" "ntype (nodes st t) \<noteq> FS_DIR"
    and st': "hl (nodes st' a) = Some t" "set (hn (nodes st' t)) = insert a (set (hn (nodes st t)))"
      "distinct (hn (nodes st' t)) \<and> xl (nodes st' t) = length (hn (nodes st' t))"
    and fields: "\<And>m. live (nodes st' m) = live (nodes st m) \<and> ntype (nodes st' m) = ntype (nodes st m) \<and> nname (nodes st' m) = nname (nodes st m) \<and>
         nparent (nodes st' m) = nparent (nodes st m) \<and> kids (nodes st' m) = kids (nodes st m)"
      "\<And>m. m \<noteq> a \<Longrightarrow> hl (nodes st' m) = hl (nodes st m)"
      "\<And>m. m \<noteq> t \<Longrightarrow> hn (nodes st' m) = hn (nodes st m) \<and> xl (nodes st' m) = xl (nodes st m)"
      "root st' = root st" "pool st' = pool st"
  shows "fs_wf st'"
proof -
  note F = fields(1) [THEN conjunct1] fields(1) [THEN conjunct2, THEN conjunct1] fields(1) [THEN conjunct2, THEN conjunct2, THEN conjunct1]
    fields(1) [THEN conjunct2, THEN conjunct2, THEN conjunct2, THEN conjunct1]
    fields(1) [THEN conjunct2, THEN conjunct2, THEN conjunct2, THEN conjunct2] fields(4,5)
  have an: "a \<notin> set (hn (nodes st u))" if "live (nodes st u)" for u using links_hn(4) [OF wf that, of a] a(2) by auto
  have ra: "root st \<noteq> a" "root st \<noteq> t" using wf_root [OF wf] a(5) t(4) by auto
  have at: "hl (nodes st u) \<noteq> Some a" if "live (nodes st u)" for u using links_hl(3) [OF wf that, of a] a(3) by auto
  obtain r where r: "ranked r st" using wf by (auto simp: fs_wf_def)
  show ?thesis
  proof (rule fs_wfI)
    fix d assume "live (nodes st' d)"
    then have "dir_ok st d" using wf_dir [OF wf] by (simp add: F)
    then show "dir_ok st' d" using fields(2) [of d] a(4) unfolding dir_ok_def F by (cases "d = a") simp_all
  next
    show "\<exists>r. ranked r st'" using r unfolding ranked_def F by blast
  next
    fix c d assume "live (nodes st' c)" "nparent (nodes st' c) = Some d"
    then show "live (nodes st' d) \<and> c \<in> set (kids (nodes st' d))" using wf_par [OF wf] by (simp add: F)
  next
    fix b u assume b: "live (nodes st' b)" "hl (nodes st' b) = Some u"
    show "live (nodes st' u) \<and> hl (nodes st' u) = None \<and> b \<in> set (hn (nodes st' u)) \<and> hn (nodes st' b) = []"
    proof (cases "b = a")
      case True
      then show ?thesis using b(2) st' t a fields(2) [of t] fields(3) [of a] by (simp add: F)
    next
      case False
      then have l: "live (nodes st b)" "hl (nodes st b) = Some u" using b fields(2) by (simp_all add: F)
      have "u \<noteq> a" using at l by auto
      moreover have "b \<noteq> t" using t(3) l by auto
      ultimately show ?thesis using links_hl [OF wf l] fields(2) [of u] fields(3) [of u] fields(3) [of b] st'(2) by (cases "u = t") (simp_all add: F)
    qed
  next
    fix u assume u: "live (nodes st' u)"
    then have l: "live (nodes st u)" by (simp add: F)
    show "distinct (hn (nodes st' u)) \<and> xl (nodes st' u) = length (hn (nodes st' u)) \<and> (hn (nodes st' u) \<noteq> [] \<longrightarrow> ntype (nodes st' u) \<noteq> FS_DIR)"
      using links_hn(1-3) [OF wf l] t(4) st'(3) fields(3) [of u] by (cases "u = t") (simp_all add: F)
    fix b assume b: "b \<in> set (hn (nodes st' u))"
    show "live (nodes st' b) \<and> hl (nodes st' b) = Some u \<and> nparent (nodes st' b) \<noteq> None"
    proof (cases "b = a")
      case True
      then have "u = t" using b an [OF l] fields(3) [of u] by (cases "u = t") auto
      then show ?thesis using True st'(1) a by (simp add: F)
    next
      case False
      then have "b \<in> set (hn (nodes st u))" using b st'(2) fields(3) [of u] by (cases "u = t") auto
      then show ?thesis using links_hn(4) [OF wf l] fields(2) [OF False] by (simp add: F)
    qed
  qed (use ra fields(2) [of "root st"] fields(3) [of "root st"] wf_root [OF wf] wf_pool [OF wf] wf_finite [OF wf] in \<open>simp_all add: F\<close>)
qed

lemma unlink_wf:
  assumes wf: "fs_wf st" and a: "live (nodes st a)" "hl (nodes st a) = Some t"
    and st': "hl (nodes st' a) = None" "hn (nodes st' t) = remove1 a (hn (nodes st t))" "xl (nodes st' t) = xl (nodes st t) - 1"
    and fields: "\<And>m. live (nodes st' m) = live (nodes st m) \<and> ntype (nodes st' m) = ntype (nodes st m) \<and> nname (nodes st' m) = nname (nodes st m) \<and>
         nparent (nodes st' m) = nparent (nodes st m) \<and> kids (nodes st' m) = kids (nodes st m)"
      "\<And>m. m \<noteq> a \<Longrightarrow> hl (nodes st' m) = hl (nodes st m)"
      "\<And>m. m \<noteq> t \<Longrightarrow> hn (nodes st' m) = hn (nodes st m) \<and> xl (nodes st' m) = xl (nodes st m)"
      "root st' = root st" "pool st' = pool st"
  shows "fs_wf st'"
proof -
  note F = fields(1) [THEN conjunct1] fields(1) [THEN conjunct2, THEN conjunct1] fields(1) [THEN conjunct2, THEN conjunct2, THEN conjunct1]
    fields(1) [THEN conjunct2, THEN conjunct2, THEN conjunct2, THEN conjunct1]
    fields(1) [THEN conjunct2, THEN conjunct2, THEN conjunct2, THEN conjunct2] fields(4,5)
  note t = links_hl [OF wf a]
  have ra: "root st \<noteq> a" "root st \<noteq> t" using wf_root [OF wf] a(2) t(3) by auto
  have ta: "t \<noteq> a" using a(2) t(2) by auto
  obtain r where r: "ranked r st" using wf by (auto simp: fs_wf_def)
  have hs: "set (hn (nodes st' t)) = set (hn (nodes st t)) - {a}" using st'(2) links_hn(1) [OF wf t(1)] by (simp add: set_remove1_eq)
  show ?thesis
  proof (rule fs_wfI)
    fix d assume "live (nodes st' d)"
    then have "dir_ok st d" using wf_dir [OF wf] by (simp add: F)
    then show "dir_ok st' d" using fields(2) [of d] st'(1) unfolding dir_ok_def F by (cases "d = a") simp_all
  next
    show "\<exists>r. ranked r st'" using r unfolding ranked_def F by blast
  next
    fix c d assume "live (nodes st' c)" "nparent (nodes st' c) = Some d"
    then show "live (nodes st' d) \<and> c \<in> set (kids (nodes st' d))" using wf_par [OF wf] by (simp add: F)
  next
    fix b u assume b: "live (nodes st' b)" "hl (nodes st' b) = Some u"
    then have ba: "b \<noteq> a" using st'(1) by auto
    then have l: "live (nodes st b)" "hl (nodes st b) = Some u" using b fields(2) by (simp_all add: F)
    note q = links_hl [OF wf l]
    have "u \<noteq> a" "b \<noteq> t" using q a l t(2) by auto
    then show "live (nodes st' u) \<and> hl (nodes st' u) = None \<and> b \<in> set (hn (nodes st' u)) \<and> hn (nodes st' b) = []"
      using q ba hs fields(2) [of u] fields(3) [of u] fields(3) [of b] by (cases "u = t") (simp_all add: F)
  next
    fix u assume u: "live (nodes st' u)"
    then have l: "live (nodes st u)" by (simp add: F)
    show "distinct (hn (nodes st' u)) \<and> xl (nodes st' u) = length (hn (nodes st' u)) \<and> (hn (nodes st' u) \<noteq> [] \<longrightarrow> ntype (nodes st' u) \<noteq> FS_DIR)"
    proof (cases "u = t")
      case True
      have "hn (nodes st t) \<noteq> []" using t(3) by auto
      then show ?thesis using True links_hn(1-3) [OF wf l] t(3) st'(2,3) by (simp add: F length_remove1)
    next
      case False
      then show ?thesis using links_hn(1-3) [OF wf l] fields(3) [of u] by (simp add: F)
    qed
    fix b assume b: "b \<in> set (hn (nodes st' u))"
    have ba: "b \<noteq> a"
    proof (cases "u = t")
      case True
      then show ?thesis using b hs by auto
    next
      case False
      then show ?thesis using b fields(3) [OF False] links_hn(4) [OF wf l, of a] a(2) by auto
    qed
    have "b \<in> set (hn (nodes st u))" using b hs fields(3) [of u] by (cases "u = t") auto
    then show "live (nodes st' b) \<and> hl (nodes st' b) = Some u \<and> nparent (nodes st' b) \<noteq> None"
      using links_hn(4) [OF wf l] fields(2) [OF ba] by (simp add: F)
  qed (use ra fields(2) [of "root st"] fields(3) [of "root st"] wf_root [OF wf] wf_pool [OF wf] wf_finite [OF wf] in \<open>simp_all add: F\<close>)
qed

section \<open>The operations keep the tree\<close>

lemma not_under_leaf:
  assumes wf: "fs_wf st" and a: "kids (nodes st a) = []" and d: "live (nodes st d)" "d \<noteq> a"
  shows "\<not> under st a d"
proof -
  obtain r where r: "ranked r st" using wf by (auto simp: fs_wf_def)
  from d show ?thesis
  proof (induction "r d" arbitrary: d rule: less_induct)
    case less
    show ?case
    proof (cases "nparent (nodes st d)")
      case None
      then show ?thesis using less.prems by (simp add: under_def up.simps)
    next
      case (Some p)
      note q = wf_par [OF wf less.prems(1) Some]
      have "r p < r d" using r Some less.prems(1) unfolding ranked_def by blast
      moreover have "p \<noteq> a" using q(2) a by auto
      ultimately show ?thesis using less.hyps q(1) under_up [OF less.prems(2) Some] by simp
    qed
  qed
qed

lemma fresh_name: "find_child (Some d) nm st = None \<Longrightarrow> ntype (nodes st d) = FS_DIR \<Longrightarrow> \<forall>c\<in>set (kids (nodes st d)). nname (nodes st c) \<noteq> nm"
  by (auto simp: find_child_def find_None_iff split: if_splits option.splits)

lemma good_take [simp]: "good_name nm \<Longrightarrow> take 127 nm = nm"
  by (simp add: good_name_def)

lemma node_new_SomeD:
  assumes "node_new nm ty par st = (Some a, st1)"
  obtains as x where "pool st = a # as" "st1 = st\<lparr>nodes := (nodes st)(a := x), pool := as\<rparr>"
    "x = empty_node\<lparr>nname := take (FS_NAME_MAX - 1) nm, ntype := ty, nparent := par, nmode := (if ty = FS_DIR then 493 else 420), mtime := now st\<rparr>"
  using assms by (auto simp: node_new_def upd_def split: list.splits)

lemma node_new_NoneD: "node_new nm ty par st = (None, st1) \<Longrightarrow> st1 = st"
  by (auto simp: node_new_def split: list.splits)

lemma new_child_wf:
  assumes wf: "fs_wf st" and d: "live (nodes st d)" "ntype (nodes st d) = FS_DIR" "hl (nodes st d) = None"
    and nm: "good_name nm" "find_child (Some d) nm st = None" and new: "node_new nm ty (Some d) st = (Some a, st1)"
  shows "fs_wf (link_child d a st1)"
    and "\<not> live (nodes st a)" "a \<noteq> d" "nodes (link_child d a st1) a = nodes st1 a" "hl (nodes st1 a) = None" "hn (nodes st1 a) = []"
    and "kids (nodes st1 a) = []" "nparent (nodes st1 a) = Some d" "live (nodes st1 a)"
    and "m \<noteq> a \<Longrightarrow> nodes st1 m = nodes st m" "m \<noteq> a \<Longrightarrow> m \<noteq> d \<Longrightarrow> nodes (link_child d a st1) m = nodes st m"
proof -
  from new obtain as x where p: "pool st = a # as" and st1: "st1 = st\<lparr>nodes := (nodes st)(a := x), pool := as\<rparr>"
    and x: "x = empty_node\<lparr>nname := take (FS_NAME_MAX - 1) nm, ntype := ty, nparent := Some d, nmode := (if ty = FS_DIR then 493 else 420), mtime := now st\<rparr>"
    by (rule node_new_SomeD)
  have dead: "\<not> live (nodes st a)" using wf_pool(2) [OF wf] p by simp
  then have ad: "a \<noteq> d" using d(1) by auto
  let ?mid = "st\<lparr>nodes := (nodes st)(a := x\<lparr>nparent := None\<rparr>), pool := as\<rparr>"
  have mid: "fs_wf ?mid"
    by (rule birth_wf [OF wf dead, of as "x\<lparr>nparent := None\<rparr>"])
      (use wf_pool(1) [OF wf] p in \<open>auto simp: orphan_def x empty_node_def\<close>)
  have nu: "\<not> under ?mid a d" by (rule not_under_leaf [OF mid]) (use ad d(1) in \<open>simp_all add: x empty_node_def\<close>)
  have ra: "root st \<noteq> a" using wf_root(1) [OF wf] dead by auto
  have fr: "\<forall>c\<in>set (kids (nodes st d)). nname (nodes st c) \<noteq> nm \<and> c \<noteq> a"
    using fresh_name [OF nm(2) d(2)] wf_kid(1) [OF wf d(1)] dead by auto
  show "fs_wf (link_child d a st1)"
    by (rule attach_wf [OF mid, of a d])
      (use ad d nu ra nm fr in \<open>auto simp: st1 x link_child_def upd_def empty_node_def\<close>)
  show "\<not> live (nodes st a)" "a \<noteq> d" by (fact dead ad)+
  show "nodes (link_child d a st1) a = nodes st1 a" "hl (nodes st1 a) = None" "hn (nodes st1 a) = []"
    "kids (nodes st1 a) = []" "nparent (nodes st1 a) = Some d" "live (nodes st1 a)"
    using ad by (simp_all add: st1 x link_child_def upd_def empty_node_def)
  show "m \<noteq> a \<Longrightarrow> nodes st1 m = nodes st m" "m \<noteq> a \<Longrightarrow> m \<noteq> d \<Longrightarrow> nodes (link_child d a st1) m = nodes st m"
    by (simp_all add: st1 link_child_def upd_def)
qed

lemma wf_log: "fs_wf st \<Longrightarrow> fs_wf (st\<lparr>log := l\<rparr>)"
  by (rule same_tree_wf [of st]) (simp_all add: same_tree_def)

lemma touch_wf:
  assumes "fs_wf st" "live (nodes st a)"
  obtains l where "fs_touch (Some a) st = Some (st\<lparr>log := l\<rparr>)" "fs_wf (st\<lparr>log := l\<rparr>)"
  using wf_touch [OF assms] wf_log [OF assms(1)] by metis

lemma need_same [simp]: "nodes (fs_need n st) = nodes st" "root (fs_need n st) = root st" "pool (fs_need n st) = pool st"
  "bt (fs_need n st) = bt st" "proot (fs_need n st) = proot st" "mntns (fs_need n st) = mntns st" "ro (fs_need n st) = ro st"
  by (auto simp: fs_need_def say_def Let_def split: option.split)

lemma need_wf: "fs_wf st \<Longrightarrow> fs_wf (fs_need n st)"
  by (rule same_tree_wf [of st]) (simp_all add: same_tree_def)

text \<open>A change of fields that the tree does not depend on.\<close>

definition flat :: "(fs_node \<Rightarrow> fs_node) \<Rightarrow> bool" where
  "flat f \<longleftrightarrow> (\<forall>x. nname (f x) = nname x \<and> ntype (f x) = ntype x \<and> nparent (f x) = nparent x \<and> kids (f x) = kids x \<and>
     hl (f x) = hl x \<and> hn (f x) = hn x \<and> xl (f x) = xl x \<and> live (f x) = live x)"

lemma upd_flat: "flat f \<Longrightarrow> same_tree st (upd n f st)"
  by (simp add: same_tree_def upd_def flat_def)

lemma upd_wf: "fs_wf st \<Longrightarrow> flat f \<Longrightarrow> fs_wf (upd n f st)"
  by (blast intro: same_tree_wf upd_flat)

lemma upd_live: "flat f \<Longrightarrow> live (nodes (upd n f st) m) = live (nodes st m)"
  by (simp add: upd_def flat_def)

lemma upd_link_child: "n \<noteq> d \<Longrightarrow> link_child d n (upd n f st) = upd n f (link_child d n st)"
  by (simp add: link_child_def upd_def fun_upd_twist)

lemma fs_data_free_wf: "fs_wf st \<Longrightarrow> fs_wf (fs_data_free n st)"
  unfolding fs_data_free_def by (rule upd_wf) (simp_all add: flat_def)

text \<open>A directory that can take a new name.\<close>

definition place :: "fs \<Rightarrow> nat \<Rightarrow> string \<Rightarrow> bool" where
  "place st d nm \<longleftrightarrow> live (nodes st d) \<and> ntype (nodes st d) = FS_DIR \<and> hl (nodes st d) = None \<and> good_name nm \<and> find_child (Some d) nm st = None"

text \<open>Aliases and the root of the process stay as they are.\<close>

definition kept :: "fs \<Rightarrow> fs \<Rightarrow> bool" where
  "kept st st' \<longleftrightarrow> proot st' = proot st \<and> (\<forall>m. live (nodes st' m) \<and> bnd (nodes st' m) \<longrightarrow> live (nodes st m) \<and> bnd (nodes st m))"

lemma kept_refl [simp]: "kept st st" by (simp add: kept_def)

lemma kept_new:
  assumes "node_new nm ty par st = (Some a, st1)"
  shows "kept st st1"
  using assms by (rule node_new_SomeD) (simp add: kept_def empty_node_def)

lemma kept_upd: "kept st s1 \<Longrightarrow> (\<And>x. bnd (f x) = bnd x \<and> (live (f x) \<longrightarrow> live x)) \<Longrightarrow> kept st (upd n f s1)"
  by (simp add: kept_def upd_def)

lemma kept_log: "kept st s1 \<Longrightarrow> kept st (s1\<lparr>log := l\<rparr>)" by (simp add: kept_def)

lemma kept_need: "kept st (fs_need n st)" by (simp add: kept_def)

lemma kept_trans: "kept a b \<Longrightarrow> kept b c \<Longrightarrow> kept a c" by (simp add: kept_def)

lemma pool_wf:
  assumes "fs_wf st" "distinct P" "set P \<subseteq> set (pool st)"
  shows "fs_wf (st\<lparr>pool := P\<rparr>)"
proof -
  have "root_ok (st\<lparr>pool := P\<rparr>) = root_ok st" "dir_ok (st\<lparr>pool := P\<rparr>) d = dir_ok st d" "links_ok (st\<lparr>pool := P\<rparr>) = links_ok st"
    "ranked r (st\<lparr>pool := P\<rparr>) = ranked r st" for d r
    by (simp_all add: root_ok_def dir_ok_def links_ok_def ranked_def)
  moreover from this have "tree_ok (st\<lparr>pool := P\<rparr>) = tree_ok st" by (simp add: tree_ok_def)
  ultimately show ?thesis using assms by (auto simp: fs_wf_def pool_ok_def)
qed

lemma fs_symlink_wf:
  assumes wf: "fs_wf st" and d: "live (nodes st d)" "hl (nodes st d) = None" and nm: "good_name nm"
  obtains r st' where "fs_symlink mem (Some d) nm tg st = Some (r, st')" "fs_wf st'" "kept st st'"
proof (cases "ntype (nodes st d) \<noteq> FS_DIR \<or> find_child (Some d) nm st \<noteq> None")
  case True
  then show ?thesis using that wf by (simp add: fs_symlink_def)
next
  case F: False
  obtain r st1 where new: "node_new nm FS_LINK (Some d) st = (r, st1)" by fastforce
  show ?thesis
  proof (cases r)
    case None
    then show ?thesis using that wf F new node_new_NoneD by (fastforce simp: fs_symlink_def)
  next
    case (Some a)
    have n: "node_new nm FS_LINK (Some d) st = (Some a, st1)" using new Some by simp
    have t: "ntype (nodes st d) = FS_DIR" "find_child (Some d) nm st = None" using F by auto
    note k = new_child_wf [OF wf d(1) t(1) d(2) nm t(2) n]
    show ?thesis
    proof (cases mem)
      case False
      from n obtain as x where p: "pool st = a # as" "st1 = st\<lparr>nodes := (nodes st)(a := x), pool := as\<rparr>" by (rule node_new_SomeD)
      have "fs_wf (st\<lparr>pool := as\<rparr>)" using wf_pool(1) [OF wf] p(1) by (intro pool_wf [OF wf]) auto
      then have "fs_wf (kfree_node a st1)"
        by (rule same_tree_wf [rotated]) (use k(2) in \<open>simp add: same_tree_def p(2) kfree_node_def upd_def\<close>)
      moreover have "kept st (kfree_node a st1)" using kept_new [OF n] unfolding kfree_node_def by (rule kept_upd) simp
      ultimately show ?thesis using that F n False by (simp add: fs_symlink_def)
    next
      case True
      let ?f = "\<lambda>x. x\<lparr>ndata := Some tg, nsize := length tg, ncap := length tg + 1, nmode := 511\<rparr>"
      have f: "flat ?f" by (simp add: flat_def)
      have w: "fs_wf (link_child d a (upd a ?f st1))" using k(1,3) f upd_wf by (simp add: upd_link_child)
      have "live (nodes (link_child d a (upd a ?f st1)) d)" using k(3,10) d(1) by (simp add: link_child_def upd_def)
      then obtain l where l: "fs_touch (Some d) (link_child d a (upd a ?f st1)) = Some ((link_child d a (upd a ?f st1))\<lparr>log := l\<rparr>)"
        "fs_wf ((link_child d a (upd a ?f st1))\<lparr>log := l\<rparr>)" using touch_wf [OF w] by blast
      moreover have "kept st ((link_child d a (upd a ?f st1))\<lparr>log := l\<rparr>)"
        unfolding link_child_def by (intro kept_log kept_upd kept_new [OF n]) simp_all
      ultimately show ?thesis using that F n True by (simp add: fs_symlink_def)
    qed
  qed
qed

lemma new_file_wf:
  assumes wf: "fs_wf st" and d: "live (nodes st d)" "ntype (nodes st d) = FS_DIR" "hl (nodes st d) = None"
    and nm: "good_name nm" "find_child (Some d) nm st = None" and n: "node_new nm ty (Some d) st = (Some a, st1)"
  obtains l where "fs_touch (Some d) (link_child d a st1) = Some ((link_child d a st1)\<lparr>log := l\<rparr>)" "fs_wf ((link_child d a st1)\<lparr>log := l\<rparr>)"
proof -
  note k = new_child_wf [OF wf d nm n]
  have "live (nodes (link_child d a st1) d)" using k(3,10) d(1) by (simp add: link_child_def upd_def)
  then show ?thesis using touch_wf [OF k(1)] that by blast
qed

lemma fs_hlink_wf:
  assumes wf: "fs_wf st" and p: "place st d nm"
    and t: "live (nodes st t)" "hl (nodes st t) = None" "ntype (nodes st t) \<noteq> FS_DIR"
  obtains r st' where "fs_hlink t d nm st = Some (r, st')" "fs_wf st'" "kept st st'"
proof -
  have d: "live (nodes st d)" "ntype (nodes st d) = FS_DIR" "hl (nodes st d) = None" and nm: "good_name nm" "find_child (Some d) nm st = None"
    using p by (simp_all add: place_def)
  obtain r st1 where new: "node_new nm (ntype (nodes st t)) (Some d) st = (r, st1)" by fastforce
  show ?thesis
  proof (cases r)
    case None
    then show ?thesis using that wf new node_new_NoneD by (fastforce simp: fs_hlink_def)
  next
    case (Some a)
    then have n: "node_new nm (ntype (nodes st t)) (Some d) st = (Some a, st1)" using new by simp
    note k = new_child_wf [OF wf d nm n]
    have ne: "t \<noteq> a" "t \<noteq> d" using k(2) t d(2) by auto
    let ?st2 = "upd t (\<lambda>x. x\<lparr>hn := a # hn x, xl := xl x + 1\<rparr>) (upd a (\<lambda>x. x\<lparr>hl := Some t\<rparr>) st1)"
    let ?st3 = "upd t (\<lambda>x. x\<lparr>mtime := now st\<rparr>) (upd d (\<lambda>x. x\<lparr>mtime := now st\<rparr>) (link_child d a ?st2))"
    have tt: "nodes (link_child d a st1) t = nodes st t" using k(11) ne by simp
    have an: "a \<notin> set (hn (nodes st t))" using links_hn(4) [OF wf t(1), of a] k(2) by auto
    have w: "fs_wf ?st3"
      by (rule link_wf [OF k(1), of a t]) (use ne k tt t an links_hn(1,2) [OF wf t(1)] in \<open>auto simp: link_child_def upd_def\<close>)
    have "live (nodes ?st3 d)" using k(3,10) d(1) ne by (simp add: link_child_def upd_def)
    from touch_wf [OF w this] obtain l where "fs_touch (Some d) ?st3 = Some (?st3\<lparr>log := l\<rparr>)" "fs_wf (?st3\<lparr>log := l\<rparr>)" by blast
    moreover have "kept st (?st3\<lparr>log := l\<rparr>)"
      unfolding link_child_def by (intro kept_log kept_upd kept_new [OF n]) simp_all
    ultimately show ?thesis using that n by (simp add: fs_hlink_def Let_def)
  qed
qed

text \<open>What \<open>fs_detach\<close> does to the tree.\<close>

definition detached :: "nat \<Rightarrow> fs \<Rightarrow> fs \<Rightarrow> bool" where
  "detached n st st' \<longleftrightarrow> root st' = root st \<and> pool st' = pool st \<and> nparent (nodes st' n) = None \<and>
     (\<forall>m. (m \<noteq> n \<longrightarrow> nparent (nodes st' m) = nparent (nodes st m)) \<and> nname (nodes st' m) = nname (nodes st m) \<and>
          ntype (nodes st' m) = ntype (nodes st m) \<and> hl (nodes st' m) = hl (nodes st m) \<and> hn (nodes st' m) = hn (nodes st m) \<and>
          xl (nodes st' m) = xl (nodes st m) \<and> live (nodes st' m) = live (nodes st m) \<and> bnd (nodes st' m) = bnd (nodes st m) \<and>
          kids (nodes st' m) = (if nparent (nodes st n) = Some m then remove1 n (kids (nodes st m)) else kids (nodes st m)))"

lemma fs_detach_ok:
  assumes "tree_ok st" "ranked r st" "live (nodes st n)"
  obtains st' where "fs_detach n st = Some st'" "detached n st st'" "bt st' = bt st" "proot st' = proot st"
proof (cases "nparent (nodes st n)")
  case None
  then show ?thesis using that [of st] by (simp add: fs_detach_def detached_def)
next
  case (Some p)
  have p: "live (nodes st p)" using assms(1,3) Some unfolding tree_ok_def by blast
  have "r p < r n" using assms(2,3) Some unfolding ranked_def by blast
  then have pn: "p \<noteq> n" by auto
  obtain l where l: "fs_touch (Some p) st = Some (st\<lparr>log := l\<rparr>)" using fs_touch_ok [OF assms(1,2) p] by blast
  show ?thesis
    by (rule that [of "upd p (\<lambda>x. x\<lparr>mtime := now st\<rparr>)
                 (upd n (\<lambda>x. x\<lparr>nparent := None\<rparr>) (upd p (\<lambda>x. x\<lparr>kids := remove1 n (kids x)\<rparr>) (st\<lparr>log := l\<rparr>)))"])
      (use Some l pn in \<open>simp_all add: fs_detach_def detached_def upd_def\<close>)
qed

lemma wf_detach:
  assumes "fs_wf st" "live (nodes st n)"
  obtains st' where "fs_detach n st = Some st'" "detached n st st'" "bt st' = bt st" "proot st' = proot st"
proof -
  obtain r where "tree_ok st" "ranked r st" using assms(1) by (auto simp: fs_wf_def)
  then show ?thesis using assms(2) that by (rule fs_detach_ok)
qed

lemma detached_wf:
  assumes wf: "fs_wf st" and n: "live (nodes st n)" "n \<noteq> root st" "hl (nodes st n) = None" and d: "detached n st st'"
  shows "fs_wf st'"
  by (rule cut_wf [OF wf n]) (use d n in \<open>auto simp: detached_def\<close>)

text \<open>The node of an extra name goes away with the name.\<close>

lemma drop_extra_wf:
  assumes wf: "fs_wf st" and a: "live (nodes st a)" "hl (nodes st a) = Some t" "kids (nodes st a) = []"
  obtains st1 where "fs_detach a (upd t (\<lambda>x. x\<lparr>hn := remove1 a (hn x), xl := xl x - 1\<rparr>) st) = Some st1"
    "detached a (upd t (\<lambda>x. x\<lparr>hn := remove1 a (hn x), xl := xl x - 1\<rparr>) st) st1" "fs_wf (kfree_node a st1)" "bt st1 = bt st" "proot st1 = proot st"
proof -
  let ?A = "upd t (\<lambda>x. x\<lparr>hn := remove1 a (hn x), xl := xl x - 1\<rparr>) st"
  have ta: "t \<noteq> a" using links_hl(2) [OF wf a(1,2)] a(2) by auto
  obtain r where "ranked r st" using wf by (auto simp: fs_wf_def)
  then have rA: "ranked r ?A" by (simp add: ranked_def upd_def)
  have e: "dir_ok ?A d = dir_ok st d" for d
  proof -
    have "nname (nodes ?A m) = nname (nodes st m)" "kids (nodes ?A m) = kids (nodes st m)" "live (nodes ?A m) = live (nodes st m)"
      "nparent (nodes ?A m) = nparent (nodes st m)" "ntype (nodes ?A m) = ntype (nodes st m)" "hl (nodes ?A m) = hl (nodes st m)" for m
      by (simp_all add: upd_def)
    then show ?thesis unfolding dir_ok_def by simp
  qed
  have tA: "tree_ok ?A" using wf unfolding fs_wf_def tree_ok_def e by (simp add: upd_def)
  have lA: "live (nodes ?A a)" using a(1) ta by (simp add: upd_def)
  from tA rA lA obtain st1 where s: "fs_detach a ?A = Some st1" "detached a ?A st1" "bt st1 = bt ?A" "proot st1 = proot ?A"
    by (rule fs_detach_ok)
  let ?B = "upd a (\<lambda>x. x\<lparr>hl := None\<rparr>) ?A" and ?C = "upd a (\<lambda>x. x\<lparr>hl := None, live := False\<rparr>) st1"
  have B: "fs_wf ?B" by (rule unlink_wf [OF wf a(1,2)]) (use ta in \<open>auto simp: upd_def\<close>)
  have ra: "a \<noteq> root st" using wf_root(4) [OF wf] a(2) by auto
  have "fs_wf ?C"
    by (rule cut_wf [OF B, of a]) (use s(2) a ta ra links_hl(4) [OF wf a(1,2)] in \<open>auto simp: detached_def upd_def\<close>)
  then have "fs_wf (kfree_node a st1)"
    by (rule same_tree_wf [rotated]) (simp add: same_tree_def kfree_node_def upd_def)
  then show ?thesis using that s by (simp add: upd_def)
qed

definition attached :: "nat \<Rightarrow> nat \<Rightarrow> string \<Rightarrow> fs \<Rightarrow> fs \<Rightarrow> bool" where
  "attached d n nm st st' \<longleftrightarrow> root st' = root st \<and> pool st' = pool st \<and> proot st' = proot st \<and> nname (nodes st' n) = nm \<and> nparent (nodes st' n) = Some d \<and>
     (\<forall>m. (m \<noteq> n \<longrightarrow> nparent (nodes st' m) = nparent (nodes st m) \<and> nname (nodes st' m) = nname (nodes st m)) \<and>
          ntype (nodes st' m) = ntype (nodes st m) \<and> hl (nodes st' m) = hl (nodes st m) \<and> hn (nodes st' m) = hn (nodes st m) \<and>
          xl (nodes st' m) = xl (nodes st m) \<and> live (nodes st' m) = live (nodes st m) \<and> bnd (nodes st' m) = bnd (nodes st m) \<and>
          kids (nodes st' m) = (if m = d then n # kids (nodes st m) else kids (nodes st m)))"

lemma fs_attach_wf:
  assumes wf: "fs_wf st" and n: "live (nodes st n)" "n \<noteq> root st" "nparent (nodes st n) = None"
    and d: "live (nodes st d)" "ntype (nodes st d) = FS_DIR" "hl (nodes st d) = None" "\<not> under st n d"
    and nm: "good_name nm" "\<forall>c\<in>set (kids (nodes st d)). nname (nodes st c) \<noteq> nm"
  obtains st' where "fs_attach d n (upd n (\<lambda>x. x\<lparr>nname := nm\<rparr>) st) = Some st'" "fs_wf st'" "attached d n nm st st'"
proof -
  let ?B = "upd n (\<lambda>x. x\<lparr>nname := nm\<rparr>) st"
  let ?C = "upd d (\<lambda>x. x\<lparr>mtime := now ?B\<rparr>) (link_child d n (upd n (\<lambda>x. x\<lparr>nparent := Some d\<rparr>) ?B))"
  have nd: "n \<noteq> d" using d(4) under_self by auto
  have nk: "n \<notin> set (kids (nodes st d))" using wf_kid(2) [OF wf d(1)] n(3) by auto
  have C: "fs_wf ?C"
    by (rule attach_wf [OF wf n d]) (use nm nd nk in \<open>auto simp: upd_def link_child_def\<close>)
  have "live (nodes ?C d)" using d(1) nd by (simp add: upd_def link_child_def)
  then obtain l where "fs_touch (Some d) ?C = Some (?C\<lparr>log := l\<rparr>)" "fs_wf (?C\<lparr>log := l\<rparr>)" using touch_wf [OF C] by blast
  then show ?thesis using nd by (intro that [of "?C\<lparr>log := l\<rparr>"]) (simp_all add: fs_attach_def attached_def upd_def link_child_def)
qed

text \<open>What is left when a name is dropped: every node but the dropped one and its extra names is where it was,
  and the directory no longer has the name.\<close>

definition dropped :: "nat \<Rightarrow> fs \<Rightarrow> fs \<Rightarrow> bool" where
  "dropped n st st' \<longleftrightarrow> root st' = root st \<and> proot st' = proot st \<and>
     (\<forall>m. bnd (nodes st' m) = bnd (nodes st m) \<and> (live (nodes st' m) \<longrightarrow> live (nodes st m))) \<and>
     (\<forall>m. live (nodes st m) \<and> m \<noteq> n \<and> hl (nodes st m) \<noteq> Some n \<longrightarrow> live (nodes st' m) \<and> nname (nodes st' m) = nname (nodes st m) \<and>
        ntype (nodes st' m) = ntype (nodes st m) \<and> hl (nodes st' m) = hl (nodes st m) \<and> nparent (nodes st' m) = nparent (nodes st m)) \<and>
     (\<forall>d. nparent (nodes st n) = Some d \<longrightarrow> (\<forall>c\<in>set (kids (nodes st' d)). nname (nodes st' c) \<noteq> nname (nodes st n)))"

text \<open>The names left in a directory after a child was taken out.\<close>

lemma names_left:
  assumes wf: "fs_wf st" and n: "live (nodes st n)" "nparent (nodes st n) = Some d" and c: "c \<in> set (remove1 n (kids (nodes st d)))"
  shows "nname (nodes st c) \<noteq> nname (nodes st n)" "c \<in> set (kids (nodes st d))" "c \<noteq> n"
proof -
  note q = wf_par [OF wf n]
  have i: "inj_on (\<lambda>c. nname (nodes st c)) (set (kids (nodes st d)))" "distinct (kids (nodes st d))"
    using wf_dir [OF wf q(1)] by (simp_all add: dir_ok_def distinct_map)
  show "c \<in> set (kids (nodes st d))" "c \<noteq> n" using c i(2) by (simp_all add: set_remove1_eq)
  then show "nname (nodes st c) \<noteq> nname (nodes st n)" using i(1) q(2) by (auto simp: inj_on_def)
qed

lemma drop_name_extra:
  assumes wf: "fs_wf st" and n: "live (nodes st n)" "kids (nodes st n) = []" "hl (nodes st n) = Some t"
  shows "\<exists>st'. fs_drop_name n st = Some st' \<and> fs_wf st' \<and> dropped n st st'"
proof -
  let ?A = "upd t (\<lambda>x. x\<lparr>hn := remove1 n (hn x), xl := xl x - 1\<rparr>) st"
  from drop_extra_wf [OF wf n(1,3,2)] obtain st1 where s: "fs_detach n ?A = Some st1" "detached n ?A st1"
    and w: "fs_wf (kfree_node n st1)" and pr: "proot st1 = proot st" by blast
  have tn: "t \<noteq> n" using links_hl(2) [OF wf n(1,3)] n(3) by auto
  define st' where "st' = kfree_node n st1"
  have t2: "nname (nodes st' m) = nname (nodes st m)" "ntype (nodes st' m) = ntype (nodes st m)" "hl (nodes st' m) = hl (nodes st m)"
    "bnd (nodes st' m) = bnd (nodes st m)" "live (nodes st' m) = (m \<noteq> n \<and> live (nodes st m))"
    "m \<noteq> n \<Longrightarrow> nparent (nodes st' m) = nparent (nodes st m)"
    "kids (nodes st' m) = (if nparent (nodes st n) = Some m then remove1 n (kids (nodes st m)) else kids (nodes st m))"
    "root st' = root st" "proot st' = proot st" for m
    using s(2) pr tn by (auto simp: st'_def detached_def kfree_node_def upd_def)
  have "dropped n st st'" using names_left(1) [OF wf n(1)] by (auto simp: dropped_def t2)
  moreover have "fs_drop_name n st = Some st'" using s(1) n(3) by (simp add: fs_drop_name_def st'_def)
  ultimately show ?thesis using w st'_def by blast
qed

lemma drop_name_last:
  assumes wf: "fs_wf st" and n: "live (nodes st n)" "n \<noteq> root st" "kids (nodes st n) = []" "hl (nodes st n) = None" "hn (nodes st n) = []"
  shows "\<exists>st'. fs_drop_name n st = Some st' \<and> fs_wf st' \<and> dropped n st st'"
proof -
  from wf n(1) obtain st1 where s: "fs_detach n st = Some st1" "detached n st st1" and pr: "proot st1 = proot st" using wf_detach by blast
  have w: "fs_wf st1" by (rule detached_wf [OF wf n(1,2,4) s(2)])
  define st' where "st' = (if 0 < nrefs (nodes st1 n) then upd n (\<lambda>x. x\<lparr>unlinked := True\<rparr>) st1
                     else kfree_node n (fs_data_free n (say (Pc_Free n) st1)))"
  have "fs_wf (kfree_node n (fs_data_free n (say (Pc_Free n) st1)))"
    by (rule cut_wf [OF w, of n]) (use s(2) n in \<open>auto simp: detached_def kfree_node_def fs_data_free_def say_def upd_def\<close>)
  moreover have "fs_wf (upd n (\<lambda>x. x\<lparr>unlinked := True\<rparr>) st1)" using w by (rule upd_wf) (simp add: flat_def)
  ultimately have w': "fs_wf st'" by (simp add: st'_def)
  have e: "fs_drop_name n st = Some st'" using n s(1) by (simp add: fs_drop_name_def st'_def)
  have k: "kids (nodes st' m) = kids (nodes st1 m)" "nname (nodes st' m) = nname (nodes st1 m)" for m
    by (simp_all add: st'_def upd_def kfree_node_def fs_data_free_def say_def)
  have "\<forall>c\<in>set (kids (nodes st' d)). nname (nodes st' c) \<noteq> nname (nodes st n)" if d: "nparent (nodes st n) = Some d" for d
    using names_left(1) [OF wf n(1) d] s(2) d by (simp add: detached_def k)
  then have "dropped n st st'"
    using s(2) pr unfolding dropped_def by (auto simp: detached_def st'_def upd_def kfree_node_def fs_data_free_def say_def)
  then show ?thesis using e w' by blast
qed

text \<open>A file with extra names takes the place of the first one.\<close>

lemma drop_name_move:
  assumes wf: "fs_wf st" and n: "live (nodes st n)" "n \<noteq> root st" "kids (nodes st n) = []" "hl (nodes st n) = None"
    and Cons: "hn (nodes st n) = a # as"
  shows "\<exists>st'. fs_drop_name n st = Some st' \<and> fs_wf st' \<and> dropped n st st'"
proof -
  have a: "live (nodes st a)" "hl (nodes st a) = Some n" "nparent (nodes st a) \<noteq> None" using links_hn(4) [OF wf n(1), of a] Cons by auto
  then obtain dir where dir: "nparent (nodes st a) = Some dir" by auto
  note q = wf_par [OF wf a(1) dir]
  note qk = wf_kid [OF wf q]
  have ka: "kids (nodes st a) = []" using wf_dir [OF wf a(1)] a(2) by (auto simp: dir_ok_def)
  have ty: "ntype (nodes st n) \<noteq> FS_DIR" using links_hn(3) [OF wf n(1)] Cons by simp
  have na: "n \<noteq> a" "dir \<noteq> n" "dir \<noteq> a" using a(2) n(4) ty qk(4) ka q(2) by auto
  let ?A = "upd n (\<lambda>x. x\<lparr>hn := as, xl := xl x - 1\<rparr>) st"
  have up: "upd n (\<lambda>x. x\<lparr>hn := remove1 a (hn x), xl := xl x - 1\<rparr>) st = ?A" using Cons by (simp add: upd_def)
  from drop_extra_wf [OF wf a(1,2) ka] obtain st1 where
    s1: "fs_detach a ?A = Some st1" "detached a ?A st1" and w2: "fs_wf (kfree_node a st1)" and p1: "proot st1 = proot st"
    unfolding up by blast
  let ?st2 = "kfree_node a st1"
  have t2: "nname (nodes ?st2 m) = nname (nodes st m)" "ntype (nodes ?st2 m) = ntype (nodes st m)" "hl (nodes ?st2 m) = hl (nodes st m)"
    "bnd (nodes ?st2 m) = bnd (nodes st m)" "live (nodes ?st2 m) = (m \<noteq> a \<and> live (nodes st m))"
    "m \<noteq> a \<Longrightarrow> nparent (nodes ?st2 m) = nparent (nodes st m)"
    "kids (nodes ?st2 m) = (if m = dir then remove1 a (kids (nodes st m)) else kids (nodes st m))" "root ?st2 = root st" "proot ?st2 = proot st" for m
    using s1(2) dir na p1 by (auto simp: detached_def kfree_node_def upd_def)
  have n2: "live (nodes ?st2 n)" "n \<noteq> root ?st2" "hl (nodes ?st2 n) = None" "kids (nodes ?st2 n) = []" using n na by (simp_all add: t2)
  from w2 n2(1) obtain st3 where s3: "fs_detach n ?st2 = Some st3" "detached n ?st2 st3" and p3: "proot st3 = proot ?st2" using wf_detach by blast
  have w3: "fs_wf st3" by (rule detached_wf [OF w2 n2(1,2,3) s3(2)])
  have t3: "nname (nodes st3 m) = nname (nodes st m)" "ntype (nodes st3 m) = ntype (nodes st m)" "hl (nodes st3 m) = hl (nodes st m)"
    "bnd (nodes st3 m) = bnd (nodes st m)" "live (nodes st3 m) = (m \<noteq> a \<and> live (nodes st m))"
    "m \<noteq> a \<Longrightarrow> m \<noteq> n \<Longrightarrow> nparent (nodes st3 m) = nparent (nodes st m)" "root st3 = root st" "proot st3 = proot st" "nparent (nodes st3 n) = None" for m
    using s3(2) p3 by (simp_all add: detached_def t2)
  have k3: "kids (nodes st3 m) = (if nparent (nodes st n) = Some m then remove1 n else id) ((if m = dir then remove1 a else id) (kids (nodes st m)))" for m
    using s3(2) na(1) by (simp add: detached_def t2)
  have sub: "c \<in> set (remove1 a (kids (nodes st dir)))" if "c \<in> set (kids (nodes st3 dir))" for c
    using that set_remove1_subset [of n "remove1 a (kids (nodes st dir))"] by (auto simp: k3 split: if_splits)
  have fr: "\<forall>c\<in>set (kids (nodes st3 dir)). nname (nodes st3 c) \<noteq> nname (nodes st a)"
    using names_left(1) [OF wf a(1) dir] sub by (auto simp: t3)
  have l3: "live (nodes st3 n)" "n \<noteq> root st3" "nparent (nodes st3 n) = None" using n na by (simp_all add: t3)
  have d3: "live (nodes st3 dir)" "ntype (nodes st3 dir) = FS_DIR" "hl (nodes st3 dir) = None" using q qk na by (simp_all add: t3)
  have kn: "kids (nodes st3 n) = []" using n(3) na by (simp add: k3)
  from fs_attach_wf [OF w3 l3 d3 not_under_leaf [OF w3 kn d3(1) na(2)] qk(3) fr]
  obtain st' where at: "fs_attach dir n (upd n (\<lambda>x. x\<lparr>nname := nname (nodes st a)\<rparr>) st3) = Some st'" "fs_wf st'"
    "attached dir n (nname (nodes st a)) st3 st'" by blast
  have e: "fs_drop_name n st = Some st'" using n(4) Cons dir s1(1) s3(1) at(1) by (simp add: fs_drop_name_def)
  have "\<forall>c\<in>set (kids (nodes st' d)). nname (nodes st' c) \<noteq> nname (nodes st n)" if d: "nparent (nodes st n) = Some d" for d
  proof
    fix c assume c: "c \<in> set (kids (nodes st' d))"
    show "nname (nodes st' c) \<noteq> nname (nodes st n)"
    proof (cases "c = n \<and> d = dir")
      case True
      have "a \<in> set (remove1 n (kids (nodes st d)))" using True q(2) na by (simp add: in_set_remove1)
      then show ?thesis using names_left(1) [OF wf n(1) d] True at(3) by (auto simp: attached_def)
    next
      case False
      then have "c \<in> set (kids (nodes st3 d))" using c at(3) by (auto simp: attached_def split: if_splits)
      then have "c \<in> set (remove1 n ((if d = dir then remove1 a else id) (kids (nodes st d))))" using d by (simp add: k3)
      then have "c \<in> set (remove1 n (kids (nodes st d)))"
        using set_remove1_subset [of a "remove1 n (kids (nodes st d))"] by (auto simp: remove1_commute [of n a] split: if_splits)
      then show ?thesis using names_left(1,3) [OF wf n(1) d] at(3) by (auto simp: attached_def t3)
    qed
  qed
  then have "dropped n st st'" using at(3) a(2) unfolding dropped_def by (auto simp: attached_def t3)
  then show ?thesis using e at(2) by blast
qed

lemma fs_drop_name_wf:
  assumes "fs_wf st" "live (nodes st n)" "n \<noteq> root st" "kids (nodes st n) = []"
  shows "\<exists>st'. fs_drop_name n st = Some st' \<and> fs_wf st' \<and> dropped n st st'"
  using drop_name_extra [OF assms(1,2,4)] drop_name_last [OF assms] drop_name_move [OF assms]
  by (cases "hl (nodes st n)"; cases "hn (nodes st n)") blast+

text \<open>A node moves to another directory, with its extra names or as one.\<close>

lemma under_cong:
  assumes wf: "fs_wf st" and d: "live (nodes st d)" and e: "\<And>m. m \<noteq> n \<Longrightarrow> nparent (nodes st1 m) = nparent (nodes st m)"
  shows "under st1 n d = under st n d"
proof -
  obtain r where r: "ranked r st" using wf by (auto simp: fs_wf_def)
  from d show ?thesis
  proof (induction "r d" arbitrary: d rule: less_induct)
    case less
    show ?case
    proof (cases "d = n")
      case True
      then show ?thesis by (simp add: under_self)
    next
      case False
      show ?thesis
      proof (cases "nparent (nodes st d)")
        case None
        then show ?thesis using False e [OF False] by (simp add: under_def up.simps)
      next
        case (Some p)
        have "r p < r d" using r Some less.prems unfolding ranked_def by blast
        then have "under st1 n p = under st n p" using less.hyps wf_par(1) [OF wf less.prems Some] by blast
        then show ?thesis using under_up [OF False, of st p] under_up [OF False, of st1 p] Some e [OF False] by simp
      qed
    qed
  qed
qed

lemma move_wf:
  assumes wf: "fs_wf st" and n: "live (nodes st n)" "n \<noteq> root st"
    and d: "live (nodes st d)" "ntype (nodes st d) = FS_DIR" "hl (nodes st d) = None" "\<not> under st n d"
    and nm: "good_name nm" "\<forall>c\<in>set (kids (nodes st d)). nname (nodes st c) \<noteq> nm"
  shows "\<exists>st1 st'. fs_detach n st = Some st1 \<and> fs_attach d n (upd n (\<lambda>x. x\<lparr>nname := nm\<rparr>) st1) = Some st' \<and> fs_wf st' \<and> kept st st'"
proof -
  have nd: "n \<noteq> d" using d(4) under_self by auto
  from wf n(1) obtain st1 where s1: "fs_detach n st = Some st1" "detached n st st1" and p1: "proot st1 = proot st" using wf_detach by blast
  define A where "A = (case hl (nodes st n) of None \<Rightarrow> st
    | Some t \<Rightarrow> upd n (\<lambda>x. x\<lparr>hl := None\<rparr>) (upd t (\<lambda>x. x\<lparr>hn := remove1 n (hn x), xl := xl x - 1\<rparr>) st))"
  have tn: "t \<noteq> n" if "hl (nodes st n) = Some t" for t using links_hl(2) [OF wf n(1) that] that by auto
  have wA: "fs_wf A"
  proof (cases "hl (nodes st n)")
    case (Some t)
    show ?thesis by (rule unlink_wf [OF wf n(1) Some]) (use Some tn [OF Some] in \<open>auto simp: A_def upd_def\<close>)
  qed (simp add: A_def wf)
  have fA: "live (nodes A m) = live (nodes st m)" "ntype (nodes A m) = ntype (nodes st m)" "nname (nodes A m) = nname (nodes st m)"
    "nparent (nodes A m) = nparent (nodes st m)" "kids (nodes A m) = kids (nodes st m)" "root A = root st" "pool A = pool st"
    "hl (nodes A m) = (if m = n then None else hl (nodes st m))" for m
    by (auto simp: A_def upd_def split: option.splits)
  have "live (nodes A n)" using n(1) by (simp add: fA)
  with wA obtain D where D: "fs_detach n A = Some D" "detached n A D" using wf_detach by blast
  have wD: "fs_wf D" by (rule detached_wf [OF wA _ _ _ D(2)]) (use n in \<open>simp_all add: fA\<close>)
  have uD: "\<not> under D n d"
    using under_cong [OF wf d(1), of n D] d(4) D(2) by (simp add: detached_def fA)
  have kD: "set (kids (nodes D d)) \<subseteq> set (kids (nodes st d))"
    using D(2) set_remove1_subset [of n "kids (nodes st d)"] by (simp add: detached_def fA)
  have "\<exists>E. fs_wf E \<and> attached d n nm D E"
    using fs_attach_wf [OF wD, of n d nm] D(2) n d(1,2,3) nd uD nm kD by (simp add: detached_def fA) (metis subsetD)
  then obtain E where E: "fs_wf E" "attached d n nm D E" by blast
  let ?B = "upd n (\<lambda>x. x\<lparr>nname := nm\<rparr>) st1"
  let ?C = "upd d (\<lambda>x. x\<lparr>mtime := now ?B\<rparr>) (link_child d n (upd n (\<lambda>x. x\<lparr>nparent := Some d\<rparr>) ?B))"
  have fC: "live (nodes ?C m) = live (nodes E m)" "ntype (nodes ?C m) = ntype (nodes E m)" "nname (nodes ?C m) = nname (nodes E m)"
    "nparent (nodes ?C m) = nparent (nodes E m)" "kids (nodes ?C m) = kids (nodes E m)" "root ?C = root E" "pool ?C = pool E"
    "hl (nodes ?C m) = hl (nodes st m)" "hn (nodes ?C m) = hn (nodes st m)" "xl (nodes ?C m) = xl (nodes st m)"
    "m \<noteq> n \<Longrightarrow> hl (nodes E m) = hl (nodes st m)" "hn (nodes E m) = hn (nodes A m)" "xl (nodes E m) = xl (nodes A m)" for m
    using E(2) D(2) s1(2) nd by (auto simp: attached_def detached_def fA upd_def link_child_def)
  have wC: "fs_wf ?C"
  proof (cases "hl (nodes st n)")
    case None
    have hE: "hl (nodes E m) = hl (nodes st m)" for m using fC(11) [of m] None E(2) D(2) by (cases "m = n") (auto simp: attached_def detached_def fA)
    have "same_tree E ?C" unfolding same_tree_def fC hE using None by (simp add: A_def)
    then show ?thesis using E(1) by (rule same_tree_wf)
  next
    case (Some t)
    note t = links_hl [OF wf n(1) Some]
    have kn: "kids (nodes st n) = []" using wf_dir [OF wf n(1)] Some by (auto simp: dir_ok_def)
    have lE: "live (nodes E m) = live (nodes st m)" "ntype (nodes E m) = ntype (nodes st m)" for m
      using E(2) D(2) by (simp_all add: attached_def detached_def fA)
    have hA: "hn (nodes A m) = (if m = t then remove1 n (hn (nodes st t)) else hn (nodes st m))"
      "xl (nodes A m) = (if m = t then xl (nodes st t) - 1 else xl (nodes st m))" for m
      using Some tn [OF Some] by (auto simp: A_def upd_def)
    have kE: "kids (nodes E n) = []" using E(2) D(2) nd kn by (auto simp: attached_def detached_def fA)
    have ty: "ntype (nodes st t) \<noteq> FS_DIR" using links_hn(3) [OF wf t(1)] t(3) by (cases "hn (nodes st t)") auto
    show ?thesis
    proof (rule link_wf [OF E(1), of n t])
      show "live (nodes E n)" "live (nodes E t)" "ntype (nodes E t) \<noteq> FS_DIR" using n(1) t(1) ty by (simp_all add: lE)
      show "hl (nodes E n) = None" using E(2) D(2) by (simp add: attached_def detached_def fA)
      show "hn (nodes E n) = []" using t(4) tn [OF Some] by (simp add: fC(12) hA)
      show "nparent (nodes E n) \<noteq> None" using E(2) by (simp add: attached_def)
      show "hl (nodes E t) = None" using fC(11) tn [OF Some] t(2) by simp
      show "hl (nodes ?C n) = Some t" using Some by (simp only: fC)
      show "set (hn (nodes ?C t)) = insert n (set (hn (nodes E t)))"
        unfolding fC(9,12) hA using t(3) links_hn(1) [OF wf t(1)] by (auto simp: set_remove1_eq)
      show "distinct (hn (nodes ?C t)) \<and> xl (nodes ?C t) = length (hn (nodes ?C t))"
        unfolding fC(9,10) using links_hn(1,2) [OF wf t(1)] by blast
      show "hl (nodes ?C m) = hl (nodes E m)" if "m \<noteq> n" for m unfolding fC(8) using fC(11) [OF that] by simp
      show "hn (nodes ?C m) = hn (nodes E m) \<and> xl (nodes ?C m) = xl (nodes E m)" if "m \<noteq> t" for m
        unfolding fC(9,10,12,13) hA using that by simp
    qed (use kE tn [OF Some] fC in auto)
  qed
  have "live (nodes ?C d)" using d(1) nd s1(2) by (simp add: upd_def link_child_def detached_def)
  then obtain l where l: "fs_touch (Some d) ?C = Some (?C\<lparr>log := l\<rparr>)" "fs_wf (?C\<lparr>log := l\<rparr>)" using touch_wf [OF wC] by blast
  have "kept st (?C\<lparr>log := l\<rparr>)" using s1(2) p1 by (simp add: kept_def upd_def link_child_def detached_def)
  then show ?thesis using s1(1) l by (auto simp: fs_attach_def upd_def link_child_def)
qed

lemma fs_release_wf:
  assumes wf: "fs_wf st" and n: "unlinked (nodes st n) \<Longrightarrow> orphan (nodes st n)" "n \<noteq> root st" "live (nodes st n)"
  shows "fs_wf (fs_release (Some n) st)"
proof -
  let ?st1 = "upd n (\<lambda>x. x\<lparr>nrefs := nrefs x - 1\<rparr>) st"
  have w: "fs_wf ?st1" by (rule upd_wf [OF wf]) (simp add: flat_def)
  have "fs_wf (kfree_node n (fs_data_free n (say (Pc_Free n) (say (Free_Hook n) ?st1))))" if "unlinked (nodes st n)"
    by (rule cut_wf [OF w, of n]) (use n(1) [OF that] n(2,3) in \<open>auto simp: orphan_def kfree_node_def fs_data_free_def say_def upd_def\<close>)
  then show ?thesis using w by (simp add: fs_release_def Let_def upd_def)
qed

lemma fs_write_wf:
  assumes wf: "fs_wf st" and f: "live (nodes st f)"
  obtains r st' where "fs_write mem (Some f) d st = Some (r, st')" "fs_wf st'"
proof -
  let ?s1 = "if ncap (nodes st f) < add64 (length d) 1 then upd f (\<lambda>x. x\<lparr>ncap := add64 (length d) 64\<rparr>) (fs_data_free f st) else st"
  let ?s2 = "upd f (\<lambda>x. x\<lparr>ndata := Some d, nsize := length d, mtime := now st\<rparr>) ?s1"
  have w1: "fs_wf ?s1" using wf fs_data_free_wf [OF wf, of f] by (auto intro: upd_wf simp: flat_def)
  have w2: "fs_wf ?s2" by (rule upd_wf [OF w1]) (simp add: flat_def)
  have w3: "fs_wf (upd f (\<lambda>x. x\<lparr>ncap := 0, nsize := 0\<rparr>) ?s1)" by (rule upd_wf [OF w1]) (simp add: flat_def)
  have "live (nodes ?s2 f)" using f by (simp add: upd_def fs_data_free_def)
  then obtain l where l: "fs_touch (Some f) ?s2 = Some (?s2\<lparr>log := l\<rparr>)" "fs_wf (?s2\<lparr>log := l\<rparr>)" using touch_wf [OF w2] by blast
  show ?thesis
  proof (cases "ntype (nodes st f) = FS_FILE \<and> \<not> (ncap (nodes st f) < add64 (length d) 1 \<and> \<not> mem)")
    case True
    then show ?thesis using l by (intro that [of "int (length d)" "?s2\<lparr>log := l\<rparr>"]) (simp_all add: fs_write_def Let_def)
  next
    case False
    then show ?thesis using w3 wf that by (cases "ntype (nodes st f) = FS_FILE") (simp_all add: fs_write_def Let_def)
  qed
qed

lemma fs_append_wf:
  assumes wf: "fs_wf st" and f: "live (nodes st f)"
  obtains r st' where "fs_append mem junk (Some f) d st = Some (r, st')" "fs_wf st'"
proof -
  let ?x = "nodes st f"
  let ?need = "add64 (add64 (nsize ?x) (length d)) 1"
  let ?old = "case ndata ?x of Some b \<Rightarrow> take (nsize ?x) b | None \<Rightarrow> map junk [0..<nsize ?x]"
  let ?s1 = "if ncap ?x < ?need then upd f (\<lambda>x. x\<lparr>ncap := add64 ?need 64\<rparr>) (fs_data_free f st) else st"
  let ?s2 = "upd f (\<lambda>y. y\<lparr>ndata := Some (?old @ d), nsize := add64 (nsize ?x) (length d), mtime := now st\<rparr>) ?s1"
  have w1: "fs_wf ?s1" using wf fs_data_free_wf [OF wf, of f] by (auto intro: upd_wf simp: flat_def)
  have w2: "fs_wf ?s2" by (rule upd_wf [OF w1]) (simp add: flat_def)
  have "live (nodes ?s2 f)" using f by (simp add: upd_def fs_data_free_def)
  then obtain l where l: "fs_touch (Some f) ?s2 = Some (?s2\<lparr>log := l\<rparr>)" "fs_wf (?s2\<lparr>log := l\<rparr>)" using touch_wf [OF w2] by blast
  show ?thesis
  proof (cases "ntype ?x = FS_FILE \<and> \<not> (ncap ?x < ?need \<and> \<not> mem)")
    case True
    then show ?thesis using l by (intro that [of "int (length d)" "?s2\<lparr>log := l\<rparr>"]) (simp_all add: fs_append_def Let_def del: One_nat_def)
  next
    case False
    then show ?thesis using wf that by (cases "ntype ?x = FS_FILE") (auto simp: fs_append_def Let_def)
  qed
qed

section \<open>Where a path leads\<close>

text \<open>Without aliases every path leads to a node of the tree; an extra name is given only to callers that asked for it.\<close>

definition plain :: "fs \<Rightarrow> bool" where
  "plain st \<longleftrightarrow> (\<forall>n. live (nodes st n) \<longrightarrow> \<not> bnd (nodes st n)) \<and> proot st = None"

lemma step_to_live:
  assumes wf: "fs_wf st" and p: "plain st" and cur: "live (nodes st cur)" and s: "step_to st follow dent cur part rest = Some c"
  shows "live (nodes st c) \<and> (hl (nodes st c) = None \<or> rest = [] \<and> \<not> follow \<and> dent)"
proof -
  obtain c0 where c0: "(if cur = the_root st \<and> part = ''..'' then Some cur else find_child (Some cur) part st) = Some c0"
    using s by (auto simp: step_to_def split: option.splits)
  then have "c0 = cur \<or> nparent (nodes st cur) = Some c0 \<or> c0 \<in> set (kids (nodes st cur))"
    by (auto simp: find_child_def split: if_splits option.splits dest: find_SomeD)
  then have l: "live (nodes st c0)" using cur wf_par(1) [OF wf cur] wf_kid(1) [OF wf cur] by auto
  then have "fs_alias c0 st = c0" using p by (simp add: plain_def fs_alias_def)
  then have "c = (case hl (nodes st c0) of Some t \<Rightarrow> if rest \<noteq> [] \<or> follow \<or> \<not> dent then t else c0 | None \<Rightarrow> c0)"
    using s c0 by (simp add: step_to_def Let_def)
  then show ?thesis using l links_hl(1,2) [OF wf l] by (auto split: option.splits if_splits)
qed

text \<open>The loop by cases: a character of a name, a slash (or the end) after no name, and after a name.\<close>

lemma rl_char:
  assumes "p \<noteq> []" "\<not> is_abs p"
  shows "resolve_loop st follow dent depth cur part p =
    resolve_loop st follow dent depth cur (if length part < FS_NAME_MAX - 1 then part @ [hd p] else part) (tl p)"
  using assms by (subst resolve_loop.simps) simp

lemma rl_none:
  assumes "p = [] \<or> is_abs p"
  shows "resolve_loop st follow dent depth cur [] p = (if p = [] then Some cur else resolve_loop st follow dent depth cur [] (tl p))"
  using assms by (subst resolve_loop.simps) simp

lemma rl_part:
  assumes "p = [] \<or> is_abs p" "part \<noteq> []" "step_to st follow dent cur part (skip_slashes p) = Some c"
    "\<not> (ntype (nodes st c) = FS_LINK \<and> (skip_slashes p \<noteq> [] \<or> follow))"
  shows "resolve_loop st follow dent depth cur part p = (if p = [] then Some c else resolve_loop st follow dent depth c [] (tl p))"
  using assms by (subst resolve_loop.simps) (auto simp: Let_def)

lemma rl_link:
  assumes "p = [] \<or> is_abs p" "part \<noteq> []" "step_to st follow dent cur part (skip_slashes p) = Some c"
    "ntype (nodes st c) = FS_LINK \<and> (skip_slashes p \<noteq> [] \<or> follow)"
  shows "resolve_loop st follow dent depth cur part p =
    (if 8 < depth \<or> ndata (nodes st c) = None then None
     else let t = link_path (nodes st c) (skip_slashes p) in
       if t = [] then Some cur else resolve_loop st follow False (depth + 1) (start_of st cur t) [] (skip_abs t))"
  using assms by (subst resolve_loop.simps) (simp add: Let_def)

lemma rl_no_step:
  assumes "p = [] \<or> is_abs p" "part \<noteq> []" "step_to st follow dent cur part (skip_slashes p) = None"
  shows "resolve_loop st follow dent depth cur part p = None"
  using assms by (subst resolve_loop.simps) (simp add: Let_def)

lemma resolve_loop_live:
  assumes "fs_wf st" "plain st" "live (nodes st cur)"
    and "hl (nodes st cur) = None \<or> part = [] \<and> skip_slashes p = [] \<and> \<not> follow \<and> dent"
    and "resolve_loop st follow dent depth cur part p = Some n"
  shows "live (nodes st n) \<and> (hl (nodes st n) = None \<or> \<not> follow \<and> dent)"
  using assms
proof (induction st follow dent depth cur part p rule: resolve_loop.induct)
  case (1 st follow dent depth cur part p)
  note wf = "1.prems"(1) and pl = "1.prems"(2) and cur = "1.prems"(3) and h = "1.prems"(4) and res = "1.prems"(5)
  have sl: "skip_slashes (tl p) = []" if "skip_slashes p = []" using that by (cases p) (auto simp: skip_slashes_def split: if_splits)
  consider (char) "\<not> (p = [] \<or> is_abs p)" | (none) "p = [] \<or> is_abs p" "part = []" | (part) "p = [] \<or> is_abs p" "part \<noteq> []" by blast
  then show ?case
  proof cases
    case char
    then have "skip_slashes p \<noteq> []" by (cases p) (auto simp: skip_slashes_def is_abs_def)
    then have "hl (nodes st cur) = None" using h by blast
    moreover have "resolve_loop st follow dent depth cur (if length part < FS_NAME_MAX - 1 then part @ [hd p] else part) (tl p) = Some n"
      using res char rl_char by metis
    ultimately show ?thesis using "1.IH"(3) [OF char wf pl cur] by blast
  next
    case none
    show ?thesis
    proof (cases "p = []")
      case True
      then show ?thesis using res none h cur rl_none [OF none(1)] by auto
    next
      case False
      then have "resolve_loop st follow dent depth cur [] (tl p) = Some n" using res none rl_none [OF none(1)] by simp
      moreover have "hl (nodes st cur) = None \<or> skip_slashes (tl p) = [] \<and> \<not> follow \<and> dent" using h sl by blast
      ultimately show ?thesis using "1.IH"(1) [OF none(1) refl False wf pl cur] by blast
    qed
  next
    case part
    then obtain c where c: "step_to st follow dent cur part (skip_slashes p) = Some c"
      using res rl_no_step [OF part] by (metis not_Some_eq)
    note lc = step_to_live [OF wf pl cur c]
    show ?thesis
    proof (cases "ntype (nodes st c) = FS_LINK \<and> (skip_slashes p \<noteq> [] \<or> follow)")
      case L: True
      have hc: "hl (nodes st cur) = None" using h part(2) by simp
      let ?t = "link_path (nodes st c) (skip_slashes p)"
      note e = rl_link [OF part c L, of depth]
      have ok: "\<not> (8 < depth \<or> ndata (nodes st c) = None)" using res e by (auto split: if_splits)
      show ?thesis
      proof (cases "?t = []")
        case True
        then show ?thesis using res e ok cur hc by (simp add: Let_def)
      next
        case tF: False
        have "resolve_loop st follow False (depth + 1) (start_of st cur ?t) [] (skip_abs ?t) = Some n" using res e ok tF by (simp add: Let_def)
        moreover have "live (nodes st (start_of st cur ?t))" "hl (nodes st (start_of st cur ?t)) = None"
          using cur hc wf_root [OF wf] pl by (simp_all add: start_of_def the_root_def plain_def)
        ultimately show ?thesis using "1.IH"(2) [OF part(1) refl refl part(2) c L ok refl tF wf pl] by blast
      qed
    next
      case L: False
      note e = rl_part [OF part c L, of depth]
      show ?thesis
      proof (cases "p = []")
        case True
        then show ?thesis using lc res e by auto
      next
        case pN: False
        then have "resolve_loop st follow dent depth c [] (tl p) = Some n" using res e by simp
        then show ?thesis using "1.IH"(1) [OF part(1) refl pN wf pl] lc sl by blast
      qed
    qed
  qed
qed

lemma resolve_live:
  assumes wf: "fs_wf st" "plain st" and cwd: "live (nodes st cwd)" "hl (nodes st cwd) = None" and r: "resolve st cwd path follow 0 dent = Some n"
  shows "live (nodes st n)" "hl (nodes st n) = None \<or> \<not> follow \<and> dent"
proof -
  have "live (nodes st n) \<and> (hl (nodes st n) = None \<or> \<not> follow \<and> dent)"
  proof (cases "path = []")
    case True
    then show ?thesis using r cwd by (simp add: resolve_def)
  next
    case False
    have "live (nodes st (start_of st cwd path))" "hl (nodes st (start_of st cwd path)) = None"
      using cwd wf_root [OF wf(1)] wf(2) by (simp_all add: start_of_def the_root_def plain_def)
    then show ?thesis using resolve_loop_live [OF wf] r False by (auto simp: resolve_def)
  qed
  then show "live (nodes st n)" "hl (nodes st n) = None \<or> \<not> follow \<and> dent" by auto
qed

text \<open>The base that \<open>split_dir_base\<close> finds has no slash.\<close>

lemma last_slash_Some: "last_slash p = Some i \<Longrightarrow> i < length p \<and> p ! i = CHR ''/'' \<and> CHR ''/'' \<notin> set (drop (Suc i) p)"
proof (induction p arbitrary: i)
  case (Cons c p)
  have "CHR ''/'' \<notin> set p" if "last_slash p = None" for p
    using that by (induction p) (auto split: option.splits if_splits)
  then show ?case using Cons by (auto split: option.splits if_splits)
qed simp

lemma last_slash_None: "last_slash p = None \<longleftrightarrow> CHR ''/'' \<notin> set p"
  by (induction p) (auto split: option.splits)

lemma split_base:
  assumes "split_dir_base path = Some (dir, base)"
  shows "CHR ''/'' \<notin> set base" "length base < FS_NAME_MAX"
proof -
  have "CHR ''/'' \<notin> set base \<and> length base < FS_NAME_MAX"
  proof (cases "last_slash path")
    case None
    then have "base = take 127 path" "CHR ''/'' \<notin> set path" using assms by (simp_all add: split_dir_base_def last_slash_None [symmetric])
    then show ?thesis using set_take_subset [of 127 path] by auto
  next
    case (Some i)
    have "base = take (FS_NAME_MAX - 1) (drop (Suc i) path)"
      using assms Some by (auto simp: split_dir_base_def drop_Suc split: if_splits)
    then show ?thesis using last_slash_Some [OF Some] set_take_subset [of "FS_NAME_MAX - 1" "drop (Suc i) path"] by auto
  qed
  then show "CHR ''/'' \<notin> set base" "length base < FS_NAME_MAX" by auto
qed

lemma fs_create_wf:
  assumes wf: "fs_wf st" "plain st" and cwd: "live (nodes st cwd)" "hl (nodes st cwd) = None"
    and sp: "split_dir_base path = Some (dir, base)" "base \<noteq> []"
  obtains r st' where "fs_create cwd path ty st = Some (r, st')" "fs_wf st'" "kept st st'"
proof -
  let ?par = "if dir \<noteq> [] then resolve st cwd dir True 0 False else Some cwd"
  let ?st1 = "if dir \<noteq> [] then fs_need (resolve st cwd dir True 0 False) st else st"
  have w1: "fs_wf ?st1" using wf need_wf by simp
  have k1: "kept st ?st1" using kept_need by simp
  have nd: "nodes ?st1 = nodes st" by simp
  have e: "fs_create cwd path ty st =
    (case ?par of None \<Rightarrow> Some (None, ?st1)
     | Some p \<Rightarrow> if ntype (nodes st p) \<noteq> FS_DIR then Some (None, ?st1) else if find_child (Some p) base ?st1 \<noteq> None then Some (None, ?st1)
        else (case node_new base ty (Some p) ?st1 of (None, st2) \<Rightarrow> Some (None, st2)
              | (Some n, st2) \<Rightarrow> do { st3 \<leftarrow> fs_touch (Some p) (link_child p n st2); Some (Some n, st3) }))"
    using sp(1) by (cases "dir = []"; cases "resolve st cwd dir True 0 False") (simp_all add: fs_create_def fs_resolve_def Let_def)
  show ?thesis
  proof (cases "\<exists>p. ?par = Some p \<and> ntype (nodes st p) = FS_DIR \<and> find_child (Some p) base ?st1 = None")
    case False
    then have "fs_create cwd path ty st = Some (None, ?st1)" unfolding e by (cases ?par) auto
    then show ?thesis using that w1 k1 by blast
  next
    case True
    then obtain p where p: "?par = Some p" "ntype (nodes st p) = FS_DIR" "find_child (Some p) base ?st1 = None" by blast
    have lp: "live (nodes st p)" "hl (nodes st p) = None" using p(1) cwd resolve_live [OF wf cwd, of dir True False p] by (auto split: if_splits)
    have "base \<noteq> ''.''" "base \<noteq> ''..''" using p(2,3) nd by (auto simp: find_child_def split: option.splits)
    then have g: "good_name base" using split_base [OF sp(1)] sp(2) by (simp add: good_name_def)
    obtain r st2 where new: "node_new base ty (Some p) ?st1 = (r, st2)" by fastforce
    show ?thesis
    proof (cases r)
      case None
      then have "fs_create cwd path ty st = Some (None, st2)" using p new unfolding e by simp
      moreover have "st2 = ?st1" using new None node_new_NoneD by blast
      ultimately show ?thesis using that w1 k1 by blast
    next
      case (Some a)
      then have n: "node_new base ty (Some p) ?st1 = (Some a, st2)" using new by simp
      have d1: "live (nodes ?st1 p)" "ntype (nodes ?st1 p) = FS_DIR" "hl (nodes ?st1 p) = None" using lp p(2) nd by simp_all
      obtain l where l: "fs_touch (Some p) (link_child p a st2) = Some ((link_child p a st2)\<lparr>log := l\<rparr>)" "fs_wf ((link_child p a st2)\<lparr>log := l\<rparr>)"
        using new_file_wf [OF w1 d1 g p(3) n] by blast
      have "fs_create cwd path ty st = Some (Some a, (link_child p a st2)\<lparr>log := l\<rparr>)" unfolding e using p n l(1) by simp
      moreover have "kept st ((link_child p a st2)\<lparr>log := l\<rparr>)"
        unfolding link_child_def by (intro kept_log kept_upd kept_trans [OF k1 kept_new [OF n]]) simp
      ultimately show ?thesis using that l(2) by blast
    qed
  qed
qed

section \<open>The path of a node leads back to it\<close>

fun linked :: "fs \<Rightarrow> nat \<Rightarrow> nat list \<Rightarrow> bool" where
  "linked st cur [] = True"
| "linked st cur (c # cs) = (live (nodes st c) \<and> nparent (nodes st c) = Some cur \<and> linked st c cs)"

fun path_str :: "fs \<Rightarrow> nat list \<Rightarrow> string" where
  "path_str st [] = []"
| "path_str st (c # cs) = nname (nodes st c) @ (if cs = [] then [] else CHR ''/'' # path_str st cs)"

lemma linked_snoc: "linked st cur (cs @ [x]) = (linked st cur cs \<and> live (nodes st x) \<and> nparent (nodes st x) = Some (last (cur # cs)))"
  by (induction cs arbitrary: cur) auto

lemma rl_name:
  assumes "CHR ''/'' \<notin> set nm" "length part + length nm < FS_NAME_MAX"
  shows "resolve_loop st follow dent depth cur part (nm @ q) = resolve_loop st follow dent depth cur (part @ nm) q"
  using assms
proof (induction nm arbitrary: part)
  case (Cons c nm)
  then have "\<not> is_abs ((c # nm) @ q)" by (auto simp: is_abs_def)
  then have "resolve_loop st follow dent depth cur part ((c # nm) @ q) = resolve_loop st follow dent depth cur (part @ [c]) (nm @ q)"
    using Cons.prems rl_char [of "(c # nm) @ q"] by simp
  then show ?case using Cons by simp
qed simp

lemma find_inj: "c \<in> set xs \<Longrightarrow> inj_on f (set xs) \<Longrightarrow> find (\<lambda>d. f d = f c) xs = Some c"
  by (induction xs) (auto simp: inj_on_def)

lemma find_kid:
  assumes wf: "fs_wf st" and c: "live (nodes st c)" "nparent (nodes st c) = Some cur"
  shows "find_child (Some cur) (nname (nodes st c)) st = Some c"
proof -
  note q = wf_par [OF wf c]
  note k = wf_kid [OF wf q]
  have "inj_on (\<lambda>c. nname (nodes st c)) (set (kids (nodes st cur)))"
    using wf_dir [OF wf q(1)] by (simp add: dir_ok_def distinct_map)
  then have "find (\<lambda>d. nname (nodes st d) = nname (nodes st c)) (kids (nodes st cur)) = Some c"
    by (rule find_inj [OF q(2)])
  then show ?thesis using k(3,4) by (auto simp: find_child_def good_name_def)
qed

lemma skip_name: "good_name nm \<Longrightarrow> skip_slashes (nm @ q) = nm @ q"
  by (cases nm) (auto simp: good_name_def skip_slashes_def)

lemma rl_path:
  assumes wf: "fs_wf st" "plain st" and l: "linked st cur cs" "cs \<noteq> []"
  shows "resolve_loop st False True depth cur [] (path_str st cs) = Some (last cs)"
  using l
proof (induction cs arbitrary: cur)
  case (Cons c cs)
  let ?nm = "nname (nodes st c)"
  have c: "live (nodes st c)" "nparent (nodes st c) = Some cur" and lc: "linked st c cs" using Cons.prems by auto
  have g: "good_name ?nm" using wf_kid(3) [OF wf(1) wf_par [OF wf(1) c]] .
  define q where "q = (if cs = [] then [] else CHR ''/'' # path_str st cs)"
  have e: "resolve_loop st False True depth cur [] (path_str st (c # cs)) = resolve_loop st False True depth cur ?nm q"
    using rl_name [of ?nm "[]" st False True depth cur q] g by (simp add: q_def good_name_def)
  have cc: "cs \<noteq> [] \<Longrightarrow> ntype (nodes st c) = FS_DIR \<and> hl (nodes st c) = None \<and> skip_slashes q \<noteq> [] \<and> skip_slashes q = path_str st cs"
  proof -
    assume "cs \<noteq> []"
    then obtain d ds where d: "cs = d # ds" by (cases cs) auto
    then have dl: "live (nodes st d)" "nparent (nodes st d) = Some c" using lc by auto
    note kd = wf_kid [OF wf(1) wf_par [OF wf(1) dl]]
    have "skip_slashes q = skip_slashes (path_str st cs)" using d by (simp add: q_def skip_slashes_def)
    also have "\<dots> = path_str st cs" using skip_name [OF kd(3)] d by simp
    finally show ?thesis using kd d by (auto simp: good_name_def)
  qed
  have nd: "?nm \<noteq> ''..''" "?nm \<noteq> []" using g by (auto simp: good_name_def)
  have al: "fs_alias c st = c" using wf(2) c(1) by (simp add: plain_def fs_alias_def)
  have q0: "cs = [] \<Longrightarrow> skip_slashes q = []" by (simp add: q_def skip_slashes_def)
  have s: "step_to st False True cur ?nm (skip_slashes q) = Some c"
    using find_kid [OF wf(1) c] nd al cc q0 by (cases "cs = []") (auto simp: step_to_def Let_def split: option.split)
  have qa: "q = [] \<or> is_abs q" by (simp add: q_def is_abs_def)
  have nl: "\<not> (ntype (nodes st c) = FS_LINK \<and> (skip_slashes q \<noteq> [] \<or> False))" using cc q0 by (cases "cs = []") auto
  show ?case
  proof (cases "cs = []")
    case True
    then show ?thesis using e rl_part [OF qa nd(2) s nl, of depth] by (simp add: q_def)
  next
    case False
    then show ?thesis using e rl_part [OF qa nd(2) s nl, of depth] Cons.IH [OF lc False] by (simp add: q_def)
  qed
qed simp

lemma up_false:
  assumes wf: "fs_wf st" and a: "live (nodes st a)"
  shows "up (\<lambda>_. False) (Some a) st = Some None"
proof -
  obtain r where r: "ranked r st" using wf by (auto simp: fs_wf_def)
  from a show ?thesis
  proof (induction "r a" arbitrary: a rule: less_induct)
    case less
    show ?case
    proof (cases "nparent (nodes st a)")
      case (Some p)
      have "r p < r a" using r Some less.prems unfolding ranked_def by blast
      then show ?thesis using less.hyps wf_par(1) [OF wf less.prems Some] Some by (subst up.simps) simp
    qed (simp add: up.simps)
  qed
qed

lemma ancestors_ends:
  assumes wf: "fs_wf st" and a: "live (nodes st a)"
  shows "\<exists>as. ancestors (Some a) st = Some as"
proof -
  obtain r where r: "ranked r st" using wf by (auto simp: fs_wf_def)
  from a show ?thesis
  proof (induction "r a" arbitrary: a rule: less_induct)
    case less
    show ?case
    proof (cases "nparent (nodes st a)")
      case (Some p)
      have "r p < r a" using r Some less.prems unfolding ranked_def by blast
      then obtain as where "ancestors (Some p) st = Some as" using less.hyps wf_par(1) [OF wf less.prems Some] by blast
      then show ?thesis using Some by (subst ancestors.simps) simp
    qed (simp add: ancestors.simps)
  qed
qed

text \<open>The node is in the tree: the way up from it meets the root.\<close>

definition in_tree :: "fs \<Rightarrow> nat \<Rightarrow> bool" where
  "in_tree st n \<longleftrightarrow> live (nodes st n) \<and> up (\<lambda>a. a = root st) (Some n) st = Some (Some (root st))"

lemma up_list_linked:
  assumes wf: "fs_wf st" and n: "in_tree st n" "n \<noteq> root st" and k: "length (up_list k (Some (root st)) (Some n) st) < k"
  shows "linked st (root st) (rev (up_list k (Some (root st)) (Some n) st)) \<and> up_list k (Some (root st)) (Some n) st \<noteq> [] \<and>
    hd (up_list k (Some (root st)) (Some n) st) = n"
  using n k
proof (induction k arbitrary: n)
  case (Suc k)
  have l: "live (nodes st n)" and u: "up (\<lambda>a. a = root st) (nparent (nodes st n)) st = Some (Some (root st))"
    using Suc.prems(1,2) by (auto simp: in_tree_def up.simps [of _ "Some n"])
  then obtain p where p: "nparent (nodes st n) = Some p" by (cases "nparent (nodes st n)") (auto simp: up.simps)
  note q = wf_par [OF wf l p]
  have e: "up_list (Suc k) (Some (root st)) (Some n) st = n # up_list k (Some (root st)) (Some p) st" using Suc.prems(2) p by simp
  show ?case
  proof (cases "p = root st")
    case True
    then have "up_list k (Some (root st)) (Some p) st = []" by (cases k) auto
    then show ?thesis using e l p True by simp
  next
    case False
    have "in_tree st p" using u p q(1) by (simp add: in_tree_def)
    then have IH: "linked st (root st) (rev (up_list k (Some (root st)) (Some p) st)) \<and> up_list k (Some (root st)) (Some p) st \<noteq> [] \<and>
        hd (up_list k (Some (root st)) (Some p) st) = p"
      using Suc.IH [OF _ False] Suc.prems(3) e by simp
    then show ?thesis using e l p by (simp add: linked_snoc last_rev)
  qed
qed simp

lemma put_parts_all:
  assumes "(\<Sum>nm\<leftarrow>nms. Suc (length nm)) + length t < 255"
  shows "put_parts nms t = Some (t @ concat (map (\<lambda>nm. CHR ''/'' # nm) nms))"
  using assms
proof (induction nms arbitrary: t)
  case (Cons nm nms)
  then have "put_part t nm = Some (t @ CHR ''/'' # nm)" by (simp add: put_part_def)
  then show ?case using Cons.prems Cons.IH [of "t @ CHR ''/'' # nm"] by simp
qed simp

lemma concat_path: "cs \<noteq> [] \<Longrightarrow> concat (map (\<lambda>nm. CHR ''/'' # nm) (map (\<lambda>c. nname (nodes st c)) cs)) = CHR ''/'' # path_str st cs"
  by (induction cs) (auto simp: neq_Nil_conv)

lemma fs_path_resolve_ok:
  assumes wf: "fs_wf st" "plain st" and ns: "mntns st = 0" and n: "in_tree st n"
    and depth: "length (up_list 64 (Some (root st)) (Some n) st) < 64"
    and len: "(\<Sum>c\<leftarrow>up_list 64 (Some (root st)) (Some n) st. Suc (length (nname (nodes st c)))) < 255"
  shows "\<exists>p. fs_path (Some n) 256 st = Some p \<and> fs_peek_d cwd p st = Some n"
proof -
  have live: "live (nodes st n)" using n by (simp add: in_tree_def)
  have pr: "proot st = None" using wf(2) by (simp add: plain_def)
  obtain as where "ancestors (Some n) st = Some as" using ancestors_ends [OF wf(1) live] by blast
  then have e: "fs_path (Some n) 256 st = path_from (Some (root st)) n 256 st"
    using up_false [OF wf(1) live] ns pr by (simp add: fs_path_def below_def)
  show ?thesis
  proof (cases "n = root st")
    case True
    have "resolve st cwd ''/'' False 0 True = Some n"
      using True pr by (simp add: resolve_def start_of_def is_abs_def skip_abs_def the_root_def rl_none)
    then show ?thesis using e True by (simp add: path_from_def fs_peek_d_def)
  next
    case False
    let ?L = "up_list 64 (Some (root st)) (Some n) st"
    note L = up_list_linked [OF wf(1) n False depth]
    have ne: "rev ?L \<noteq> []" using L by (metis rev_is_Nil_conv)
    let ?p = "CHR ''/'' # path_str st (rev ?L)"
    have s: "(\<Sum>nm\<leftarrow>rev (map (\<lambda>c. nname (nodes st c)) ?L). Suc (length nm)) < 255"
      using len by (simp only: rev_map [symmetric] map_map comp_def sum_list_rev)
    have "put_parts (rev (map (\<lambda>c. nname (nodes st c)) ?L)) [] = Some ?p"
      using put_parts_all [of _ "[]"] s concat_path [OF ne, of st] by (simp only: list.size add_0_right rev_map append_Nil)
    moreover from this have "length ?p < 255"
    proof -
      have "length (concat (map (\<lambda>nm. CHR ''/'' # nm) nms)) = (\<Sum>nm\<leftarrow>nms. Suc (length nm))" for nms by (induction nms) auto
      then show ?thesis using s unfolding concat_path [OF ne, of st, symmetric] rev_map by (simp only:)
    qed
    ultimately have "fs_path (Some n) 256 st = Some ?p" using e False by (simp add: path_from_def print_path_def del: up_list.simps)
    moreover have "resolve st cwd ?p False 0 True = Some n"
      using rl_path [OF wf _ ne, of "root st" 0] L pr ne
      by (simp add: resolve_def start_of_def is_abs_def skip_abs_def the_root_def last_rev del: up_list.simps)
    ultimately show ?thesis unfolding fs_peek_d_def by blast
  qed
qed

section \<open>Contents\<close>

definition file_bytes :: "fs_node \<Rightarrow> string" where
  "file_bytes x = (case ndata x of Some b \<Rightarrow> take (nsize x) b | None \<Rightarrow> [])"

text \<open>A file whose buffer holds its bytes, with room for a zero behind them unless it is borrowed.\<close>

definition buf_ok :: "fs_node \<Rightarrow> bool" where
  "buf_ok x \<longleftrightarrow> (case ndata x of Some b \<Rightarrow> length b = nsize x | None \<Rightarrow> nsize x = 0 \<and> ncap x = 0) \<and> (ncap x = 0 \<or> nsize x < ncap x)"

lemma fs_write_contents_ok:
  assumes wf: "fs_wf st" and f: "live (nodes st f)" "ntype (nodes st f) = FS_FILE" and d: "length d + 64 < 2 ^ 64"
    and mem: "mem \<or> length d < ncap (nodes st f)"
  shows "\<exists>st'. fs_write mem (Some f) d st = Some (int (length d), st') \<and> file_bytes (nodes st' f) = d \<and> buf_ok (nodes st' f) \<and>
    0 < ncap (nodes st' f) \<and> (\<forall>m. m \<noteq> f \<longrightarrow> nodes st' m = nodes st m)"
proof -
  let ?s1 = "if ncap (nodes st f) < add64 (length d) 1 then upd f (\<lambda>x. x\<lparr>ncap := add64 (length d) 64\<rparr>) (fs_data_free f st) else st"
  let ?s2 = "upd f (\<lambda>x. x\<lparr>ndata := Some d, nsize := length d, mtime := now st\<rparr>) ?s1"
  have w1: "fs_wf ?s1" using wf fs_data_free_wf [OF wf, of f] by (auto intro: upd_wf simp: flat_def)
  have w2: "fs_wf ?s2" by (rule upd_wf [OF w1]) (simp add: flat_def)
  have a: "add64 (length d) 1 = length d + 1" "add64 (length d) 64 = length d + 64" using d by (simp_all add: add64_exact)
  have "live (nodes ?s2 f)" using f by (simp add: upd_def fs_data_free_def)
  then obtain l where l: "fs_touch (Some f) ?s2 = Some (?s2\<lparr>log := l\<rparr>)" using touch_wf [OF w2] by blast
  have "fs_write mem (Some f) d st = Some (int (length d), ?s2\<lparr>log := l\<rparr>)"
    using l f(2) mem a(1) by (auto simp: fs_write_def Let_def)
  moreover have "file_bytes (nodes (?s2\<lparr>log := l\<rparr>) f) = d" "buf_ok (nodes (?s2\<lparr>log := l\<rparr>) f)" "0 < ncap (nodes (?s2\<lparr>log := l\<rparr>) f)"
    "\<forall>m. m \<noteq> f \<longrightarrow> nodes (?s2\<lparr>log := l\<rparr>) m = nodes st m"
    using a by (auto simp: file_bytes_def buf_ok_def upd_def fs_data_free_def)
  ultimately show ?thesis by blast
qed

lemma fs_append_contents_ok:
  assumes wf: "fs_wf st" and f: "live (nodes st f)" "ntype (nodes st f) = FS_FILE" "buf_ok (nodes st f)"
    and d: "nsize (nodes st f) + length d + 65 < 2 ^ 64"
  shows "\<exists>r st'. fs_append mem junk (Some f) d st = Some (r, st') \<and> (\<forall>m. m \<noteq> f \<longrightarrow> nodes st' m = nodes st m) \<and>
    (if mem \<or> nsize (nodes st f) + length d < ncap (nodes st f)
     then r = int (length d) \<and> file_bytes (nodes st' f) = file_bytes (nodes st f) @ d \<and> buf_ok (nodes st' f) else r = - 1 \<and> st' = st)"
proof -
  let ?x = "nodes st f"
  let ?need = "add64 (add64 (nsize ?x) (length d)) 1"
  let ?old = "case ndata ?x of Some b \<Rightarrow> take (nsize ?x) b | None \<Rightarrow> map junk [0..<nsize ?x]"
  let ?s1 = "if ncap ?x < ?need then upd f (\<lambda>x. x\<lparr>ncap := add64 ?need 64\<rparr>) (fs_data_free f st) else st"
  let ?s2 = "upd f (\<lambda>y. y\<lparr>ndata := Some (?old @ d), nsize := add64 (nsize ?x) (length d), mtime := now st\<rparr>) ?s1"
  have a: "add64 (nsize ?x) (length d) = nsize ?x + length d" "?need = nsize ?x + length d + 1" "add64 ?need 64 = nsize ?x + length d + 65"
    using d by (simp_all add: add64_exact)
  have old: "?old = file_bytes ?x" "length ?old = nsize ?x" using f(3) by (auto simp: file_bytes_def buf_ok_def split: option.splits)
  show ?thesis
  proof (cases "mem \<or> nsize ?x + length d < ncap ?x")
    case True
    have w1: "fs_wf ?s1" using wf fs_data_free_wf [OF wf, of f] by (auto intro: upd_wf simp: flat_def)
    have w2: "fs_wf ?s2" by (rule upd_wf [OF w1]) (simp add: flat_def)
    have "live (nodes ?s2 f)" using f by (simp add: upd_def fs_data_free_def)
    then obtain l where l: "fs_touch (Some f) ?s2 = Some (?s2\<lparr>log := l\<rparr>)" using touch_wf [OF w2] by blast
    have "\<not> (ncap ?x < ?need \<and> \<not> mem)" using True a by auto
    then have "fs_append mem junk (Some f) d st = Some (int (length d), ?s2\<lparr>log := l\<rparr>)"
      using l f(2) by (simp add: fs_append_def Let_def del: One_nat_def)
    moreover have "file_bytes (nodes (?s2\<lparr>log := l\<rparr>) f) = file_bytes ?x @ d" "buf_ok (nodes (?s2\<lparr>log := l\<rparr>) f)"
      "\<forall>m. m \<noteq> f \<longrightarrow> nodes (?s2\<lparr>log := l\<rparr>) m = nodes st m"
      using a old by (simp_all add: file_bytes_def buf_ok_def upd_def fs_data_free_def del: One_nat_def) 
    ultimately show ?thesis using True by auto
  next
    case False
    then have "fs_append mem junk (Some f) d st = Some (- 1, st)" using a f(2) by (simp add: fs_append_def Let_def del: One_nat_def)
    then show ?thesis using False by simp
  qed
qed

section \<open>Properties\<close>

text \<open>A small tree: the root and one file in it.\<close>

definition demo_fs :: fs where
  "demo_fs = \<lparr>nodes = (\<lambda>_. empty_node\<lparr>live := False\<rparr>)
      (0 := empty_node\<lparr>nname := ''/'', ntype := FS_DIR, kids := [1]\<rparr>, 1 := empty_node\<lparr>nname := ''a'', nparent := Some 0\<rparr>),
    root = 0, bt = [], recent = [], recent_i = 0, pool = [2, 3], now = 0, mntns = 0, proot = None, ro = (\<lambda>_. False), log = []\<rparr>"

lemma demo_nodes: "nodes demo_fs n = (if n = 0 then empty_node\<lparr>nname := ''/'', ntype := FS_DIR, kids := [1]\<rparr>
    else if n = 1 then empty_node\<lparr>nname := ''a'', nparent := Some 0\<rparr> else empty_node\<lparr>live := False\<rparr>)"
  "root demo_fs = 0" "pool demo_fs = [2, 3]" "proot demo_fs = None" "mntns demo_fs = 0"
  by (simp_all add: demo_fs_def)

lemma demo_wf: "fs_wf demo_fs" "plain demo_fs"
proof -
  have "ranked (\<lambda>n. n) demo_fs" by (auto simp: ranked_def demo_nodes empty_node_def)
  moreover have "finite {n. live (nodes demo_fs n)}" by (rule finite_subset [of _ "{0, 1}"]) (auto simp: demo_nodes empty_node_def split: if_splits)
  moreover have "dir_ok demo_fs d" for d by (auto simp: dir_ok_def demo_nodes empty_node_def good_name_def)
  ultimately show "fs_wf demo_fs"
    by (intro fs_wfI) (auto simp: demo_nodes empty_node_def split: if_splits)
  show "plain demo_fs" by (simp add: plain_def demo_nodes empty_node_def)
qed

text \<open>C10: The path that \<open>fs_path\<close> prints for a node of the tree into a buffer of 256 bytes leads back to that node from any
  directory, if the path has fewer than 255 bytes and fewer than 64 components, in the first mount namespace, without
  aliases by bind mounts and without \<open>chroot\<close>.\<close>

theorem fs_path_resolve:
  assumes "fs_wf st" "plain st" "mntns st = 0" "in_tree st n"
    and "length (up_list 64 (Some (root st)) (Some n) st) < 64"
    and "(\<Sum>c\<leftarrow>up_list 64 (Some (root st)) (Some n) st. Suc (length (nname (nodes st c)))) < 255"
  shows "\<exists>p. fs_path (Some n) 256 st = Some p \<and> fs_peek_d cwd p st = Some n"
  by (rule fs_path_resolve_ok [OF assms])

theorem fs_path_resolve_witness: "\<exists>p. fs_path (Some 1) 256 demo_fs = Some p \<and> fs_peek_d 0 p demo_fs = Some 1"
proof (rule fs_path_resolve [OF demo_wf demo_nodes(5)])
  have l: "up_list 64 (Some 0) (Some 1) demo_fs = [1]" by (simp add: numeral_eq_Suc demo_nodes empty_node_def)
  show "in_tree demo_fs 1" by (simp add: in_tree_def demo_nodes empty_node_def up.simps)
  show "length (up_list 64 (Some (root demo_fs)) (Some 1) demo_fs) < 64"
    "(\<Sum>c\<leftarrow>up_list 64 (Some (root demo_fs)) (Some 1) demo_fs. Suc (length (nname (nodes demo_fs c)))) < 255"
    unfolding demo_nodes(2) l by (simp_all add: demo_nodes)
qed

text \<open>C40: Appending to a file puts the new bytes behind the old ones and leaves every other node alone; without
  memory for a larger buffer it answers \<open>-1\<close> and changes nothing at all.\<close>

theorem fs_append_contents:
  assumes "fs_wf st" "live (nodes st f)" "ntype (nodes st f) = FS_FILE" "buf_ok (nodes st f)"
    and "nsize (nodes st f) + length d + 65 < 2 ^ 64"
  shows "\<exists>r st'. fs_append mem junk (Some f) d st = Some (r, st') \<and> (\<forall>m. m \<noteq> f \<longrightarrow> nodes st' m = nodes st m) \<and>
    (if mem \<or> nsize (nodes st f) + length d < ncap (nodes st f)
     then r = int (length d) \<and> file_bytes (nodes st' f) = file_bytes (nodes st f) @ d \<and> buf_ok (nodes st' f) else r = - 1 \<and> st' = st)"
  by (rule fs_append_contents_ok [OF assms])

theorem fs_append_contents_witness:
  "\<exists>st'. fs_append True (\<lambda>_. CHR ''x'') (Some 1) ''hi'' demo_fs = Some (2, st') \<and> file_bytes (nodes st' 1) = ''hi''"
  using fs_append_contents [OF demo_wf(1), of 1 "''hi''" True "\<lambda>_. CHR ''x''"]
  by (auto simp: demo_nodes empty_node_def buf_ok_def file_bytes_def)

end
