(* ===== verification/Mount_Correct.thy ===== *)
theory Mount_Correct
  imports Mount Fs_Correct
begin

text \<open>
  The limit of a \<open>tmpfs\<close>: a walk counts every file of a mount once; \<open>mnt_grow\<close> keeps an estimate of the bytes in
  use and walks only when the estimate does not fit. On a mount that begins without bytes the estimate never falls
  below the real use, so the limit holds, and a file is refused only when it really does not fit. The other lemmas
  are about the table and the numbers of the mount options.
\<close>

section \<open>The table\<close>

lemma find_at_SomeD: "find_at a v = Some i \<Longrightarrow> i < length (tab v) \<and> mused (tab v ! i) \<and> mat (tab v ! i) = Some a"
  by (simp add: find_at_def first_idx_Some)

lemma upd_mnt_simps [simp]: "vf (upd_mnt i f v) = vf v" "length (tab (upd_mnt i f v)) = length (tab v)"
  "i < length (tab v) \<Longrightarrow> tab (upd_mnt i f v) ! i = f (tab v ! i)" "j \<noteq> i \<Longrightarrow> tab (upd_mnt i f v) ! j = tab v ! j"
  by (simp_all add: upd_mnt_def)

lemma mnt_find_SomeD:
  assumes "mnt_find n v = Some (Some i)"
  shows "i < length (tab v)" "mused (tab v ! i)" "\<exists>a. mat (tab v ! i) = Some a"
  using assms by (auto simp: mnt_find_def dest: find_at_SomeD split: option.splits)

text \<open>What is mounted on a node is found there and hides the mounts further up.\<close>

lemma mnt_add_find:
  assumes "find_at a v \<noteq> None \<or> (\<exists>e\<in>set (tab v). \<not> mused e)"
  shows "\<exists>i. mnt_find (Some a) (mnt_add ty dev a disk v) = Some (Some i) \<and> mat (tab (mnt_add ty dev a disk v) ! i) = Some a \<and>
    mdisk (tab (mnt_add ty dev a disk v) ! i) = disk \<and> mtype (tab (mnt_add ty dev a disk v) ! i) = take 11 ty"
proof -
  obtain i v1 where i: "(case find_at a v of Some i \<Rightarrow> Some (i, v) | None \<Rightarrow> slot v) = Some (i, v1)" and l: "i < length (tab v1)"
  proof (cases "find_at a v")
    case None
    then obtain i where "first_idx (\<lambda>e. \<not> mused e) (tab v) = Some i"
      using assms by (cases "first_idx (\<lambda>e. \<not> mused e) (tab v)") (auto simp: first_idx_None)
    then show ?thesis using that [of i "upd_mnt i (\<lambda>_. mnt_zero\<lparr>mused := True\<rparr>) v"] None first_idx_SomeD by (fastforce simp: slot_def)
  next
    case (Some i)
    then show ?thesis using that find_at_SomeD by auto
  qed
  define e where "e = mnt_zero\<lparr>mused := True, mat := Some a, mdisk := disk, mtype := take 11 ty, mdev := take 23 dev,
            mkind := (if ty = ''vfat'' then K_FAT else if take 3 ty = ''ext'' then K_EXT else K_PSEUDO)\<rparr>"
  have w: "mnt_add ty dev a disk v = upd_mnt i (\<lambda>_. e) v1" using i by (simp add: mnt_add_def e_def)
  have f: "\<forall>j<i. \<not> (mused (tab v1 ! j) \<and> mat (tab v1 ! j) = Some a)"
  proof (cases "find_at a v")
    case None
    then show ?thesis using i l by (auto simp: slot_def find_at_def first_idx_None split: option.splits)
  next
    case (Some k)
    then have "k = i" "v1 = v" using i by simp_all
    then show ?thesis using Some unfolding find_at_def first_idx_Some by blast
  qed
  have "tab (upd_mnt i (\<lambda>_. e) v1) ! j = tab v1 ! j" if "j < i" for j using that by simp
  then have "find_at a (upd_mnt i (\<lambda>_. e) v1) = Some i"
    using f l unfolding find_at_def first_idx_Some by (simp add: e_def)
  then have "mnt_find (Some a) (upd_mnt i (\<lambda>_. e) v1) = Some (Some i)" by (simp add: mnt_find_def up.simps)
  then show ?thesis using l unfolding w by (auto simp: e_def)
qed

section \<open>Numbers\<close>

lemma dec_char:
  assumes "d < 10"
  shows "of_char (''0123456789'' ! d) = (48 + d :: nat)"
proof -
  have "d = 0 \<or> d = 1 \<or> d = 2 \<or> d = 3 \<or> d = 4 \<or> d = 5 \<or> d = 6 \<or> d = 7 \<or> d = 8 \<or> d = 9" using assms by arith
  then show ?thesis by (elim disjE) simp_all
qed

lemma digits_app:
  assumes "\<forall>c\<in>set s. 48 \<le> (of_char c :: nat) \<and> (of_char c :: nat) \<le> 57"
  shows "digits v (s @ r) = digits (fst (digits v s)) r"
  using assms by (induction v s rule: digits.induct) auto

lemma put_digits_digit: "\<forall>c\<in>set (put_digits v). 48 \<le> (of_char c :: nat) \<and> (of_char c :: nat) \<le> 57"
proof (induction v rule: put_digits.induct)
  case (1 v)
  then show ?case using dec_char [of "v mod 10"] by (subst put_digits.simps) auto
qed

text \<open>What the mount text prints as a number, the mount options read back.\<close>

lemma num_put_u:
  assumes "v < 2 ^ 64"
  shows "fst (digits 0 (put_u v)) = v \<and> snd (digits 0 (put_u v)) = []"
  using assms
proof (induction v rule: put_digits.induct)
  case (1 v)
  let ?c = "''0123456789'' ! (v mod 10)"
  have c: "of_char ?c = (48 + v mod 10 :: nat)" by (rule dec_char) simp
  show ?case
  proof (cases "v div 10 = 0")
    case True
    then have "put_u v = [?c]" by (simp add: put_u_def put_digits.simps)
    then show ?thesis using True c 1(2) by (simp add: add64_def mul64_def)
  next
    case False
    have IH: "fst (digits 0 (put_u (v div 10))) = v div 10" using 1 False by auto
    have e: "put_u v = put_u (v div 10) @ [?c]" using False by (simp add: put_u_def put_digits.simps [of v])
    have m: "mul64 (v div 10) 10 = v div 10 * 10" using 1(2) by (intro mul64_exact) linarith
    have "add64 (v div 10 * 10) (v mod 10) = v" using 1(2) by (simp add: add64_def)
    then have "digits 0 (put_u v) = (v, [])"
      unfolding e using digits_app [of "put_u (v div 10)" 0 "[?c]"] put_digits_digit [of "v div 10"] IH c m
      by (simp add: put_u_def)
    then show ?thesis by simp
  qed
qed

section \<open>What a walk counts\<close>

text \<open>The nodes that \<open>walk\<close> counts for the child \<open>n\<close> of a directory, and those on a mount on \<open>d\<close>.\<close>

inductive_set down :: "fs \<Rightarrow> nat \<Rightarrow> nat set" for st :: fs and n :: nat where
  self: "hl (nodes st n) = None \<Longrightarrow> n \<in> down st n"
| kid: "x \<in> down st n \<Longrightarrow> ntype (nodes st x) = FS_DIR \<Longrightarrow> mount_id (nodes st x) = 0 \<Longrightarrow> c \<in> set (kids (nodes st x)) \<Longrightarrow>
    hl (nodes st c) = None \<Longrightarrow> c \<in> down st n"

definition held :: "fs \<Rightarrow> nat \<Rightarrow> nat set" where "held st d = (\<Union>c\<in>set (kids (nodes st d)). down st c)"

definition fbytes :: "fs_node \<Rightarrow> nat" where "fbytes x = (if ntype x = FS_FILE \<and> ndev x = 0 then nsize x else 0)"

text \<open>The bytes of the files on a mount on \<open>d\<close>.\<close>

definition bytes_used :: "fs \<Rightarrow> nat \<Rightarrow> nat" where "bytes_used st d = (\<Sum>x\<in>held st d. fbytes (nodes st x))"

lemma down_step:
  assumes "c \<in> set (kids (nodes st n))" "hl (nodes st n) = None" "ntype (nodes st n) = FS_DIR" "mount_id (nodes st n) = 0"
  shows "x \<in> down st c \<Longrightarrow> x \<in> down st n"
proof (induction rule: down.induct)
  case self
  then show ?case using down.kid [OF down.self] assms by blast
qed (rule down.kid)

lemma down_eq:
  "down st n = (if hl (nodes st n) \<noteq> None then {} else insert n
     (if ntype (nodes st n) = FS_DIR \<and> mount_id (nodes st n) = 0 then held st n else {}))" (is "_ = ?D")
proof
  show "down st n \<subseteq> ?D"
  proof
    fix x assume "x \<in> down st n"
    then show "x \<in> ?D"
    proof (induction rule: down.induct)
      case (kid x c)
      show ?case
      proof (cases "x = n")
        case True
        then show ?thesis using kid by (auto simp: held_def split: if_splits intro: down.self)
      next
        case False
        then show ?thesis using kid by (auto simp: held_def split: if_splits intro: down.kid)
      qed
    qed simp
  qed
  show "?D \<subseteq> down st n" using down_step [of _ st n] by (auto simp: held_def intro: down.self)
qed

text \<open>A node has one way up, so that no node is counted twice.\<close>

definition child_of :: "fs \<Rightarrow> (nat \<times> nat) set" where "child_of st = {(c, d). live (nodes st c) \<and> nparent (nodes st c) = Some d}"

lemma par_up:
  assumes wf: "fs_wf st" and r: "ranked r st"
  shows "(a, b) \<in> (child_of st)\<^sup>* \<Longrightarrow> live (nodes st a) \<Longrightarrow> live (nodes st b) \<and> r b \<le> r a"
proof (induction rule: rtrancl_induct)
  case (step b c)
  then have "nparent (nodes st b) = Some c" "live (nodes st b)" "r b \<le> r a" by (auto simp: child_of_def)
  moreover from this have "r c < r b" using r unfolding ranked_def by blast
  ultimately show ?case using wf_par(1) [OF wf] by fastforce
qed simp

lemma down_par:
  assumes wf: "fs_wf st"
  shows "x \<in> down st n \<Longrightarrow> live (nodes st n) \<Longrightarrow> live (nodes st x) \<and> (x, n) \<in> (child_of st)\<^sup>*"
proof (induction rule: down.induct)
  case (kid x c)
  then have c: "live (nodes st c)" "nparent (nodes st c) = Some x" using wf_kid(1,2) [OF wf] by blast+
  then have "(c, x) \<in> child_of st" by (simp add: child_of_def)
  then show ?case using kid c by (auto intro: converse_rtrancl_into_rtrancl)
qed simp

lemma par_siblings:
  assumes wf: "fs_wf st" and d: "live (nodes st d)" "a \<in> set (kids (nodes st d))" "b \<in> set (kids (nodes st d))" "a \<noteq> b"
  shows "(a, b) \<notin> (child_of st)\<^sup>*"
proof
  assume p: "(a, b) \<in> (child_of st)\<^sup>*"
  obtain r where r: "ranked r st" using wf by (auto simp: fs_wf_def)
  note k = wf_kid(1,2) [OF wf d(1)]
  obtain y where "(a, y) \<in> child_of st" "(y, b) \<in> (child_of st)\<^sup>*" using converse_rtranclE [OF p] d(4) by blast
  then have "r b \<le> r d" using par_up [OF wf r, of d b] k [OF d(2)] d(1) by (simp add: child_of_def)
  moreover have "r d < r b" using r k [OF d(3)] unfolding ranked_def by blast
  ultimately show False by simp
qed

lemma down_disjoint:
  assumes wf: "fs_wf st" and d: "live (nodes st d)" "a \<in> set (kids (nodes st d))" "b \<in> set (kids (nodes st d))" "a \<noteq> b"
  shows "down st a \<inter> down st b = {}"
proof (rule ccontr)
  assume "down st a \<inter> down st b \<noteq> {}"
  then obtain x where "x \<in> down st a" "x \<in> down st b" by blast
  then have "(x, a) \<in> (child_of st)\<^sup>*" "(x, b) \<in> (child_of st)\<^sup>*" using down_par [OF wf] wf_kid(1) [OF wf d(1)] d by blast+
  moreover have "single_valued (child_of st)" by (simp add: single_valued_def child_of_def)
  ultimately have "(a, b) \<in> (child_of st)\<^sup>* \<or> (b, a) \<in> (child_of st)\<^sup>*" by (metis single_valued_confluent)
  then show False using par_siblings [OF wf d(1)] d by metis
qed

lemma held_live: "fs_wf st \<Longrightarrow> live (nodes st d) \<Longrightarrow> held st d \<subseteq> {x. live (nodes st x)}"
  unfolding held_def using down_par wf_kid(1) by blast

lemma held_finite: "fs_wf st \<Longrightarrow> live (nodes st d) \<Longrightarrow> finite (held st d)"
  using held_live wf_finite finite_subset by blast

lemma held_not_self:
  assumes wf: "fs_wf st" and d: "live (nodes st d)"
  shows "d \<notin> held st d"
proof
  assume "d \<in> held st d"
  then obtain c where c: "c \<in> set (kids (nodes st d))" "d \<in> down st c" by (auto simp: held_def)
  obtain r where r: "ranked r st" using wf by (auto simp: fs_wf_def)
  note k = wf_kid(1,2) [OF wf d c(1)]
  have "r c \<le> r d" using par_up [OF wf r] down_par [OF wf c(2) k(1)] d by blast
  moreover have "r d < r c" using r k unfolding ranked_def by blast
  ultimately show False by simp
qed

text \<open>One child of a directory, then its children one after the other.\<close>

definition walk_adds :: "fs \<Rightarrow> nat \<Rightarrow> bool" where
  "walk_adds st n \<longleftrightarrow> (\<forall>r sz k. sz < 2 ^ 64 \<longrightarrow> k < 2 ^ 32 \<longrightarrow> walk_kids (n # r) sz k st =
     walk_kids r ((sz + (\<Sum>x\<in>down st n. fbytes (nodes st x))) mod 2 ^ 64) ((k + card (down st n)) mod 2 ^ 32) st)"

lemma walk_kids_adds:
  assumes wf: "fs_wf st" and d: "live (nodes st d)"
  shows "set cs \<subseteq> set (kids (nodes st d)) \<Longrightarrow> distinct cs \<Longrightarrow> \<forall>c\<in>set cs. walk_adds st c \<Longrightarrow> sz < 2 ^ 64 \<Longrightarrow> k < 2 ^ 32 \<Longrightarrow>
    walk_kids cs sz k st = Some ((sz + (\<Sum>x\<in>(\<Union>c\<in>set cs. down st c). fbytes (nodes st x))) mod 2 ^ 64,
      (k + card (\<Union>c\<in>set cs. down st c)) mod 2 ^ 32)"
proof (induction cs arbitrary: sz k)
  case Nil
  then show ?case by (simp add: walk_kids.simps [of "[]"])
next
  case (Cons c cs)
  let ?U = "\<Union>c\<in>set cs. down st c"
  have fin: "finite (down st c)" "finite ?U"
    using held_finite [OF wf d] Cons.prems(1) by (auto simp: held_def intro: finite_subset)
  have "down st c \<inter> ?U = {}" using Cons.prems(1,2) down_disjoint [OF wf d, of c] by fastforce
  then have u: "(\<Sum>x\<in>down st c \<union> ?U. fbytes (nodes st x)) = (\<Sum>x\<in>down st c. fbytes (nodes st x)) + (\<Sum>x\<in>?U. fbytes (nodes st x))"
    "card (down st c \<union> ?U) = card (down st c) + card ?U"
    using fin by (simp_all add: sum.union_disjoint card_Un_disjoint)
  have "walk_kids (c # cs) sz k st =
      walk_kids cs ((sz + (\<Sum>x\<in>down st c. fbytes (nodes st x))) mod 2 ^ 64) ((k + card (down st c)) mod 2 ^ 32) st"
    using Cons.prems by (simp add: walk_adds_def)
  also have "\<dots> = Some (((sz + (\<Sum>x\<in>down st c. fbytes (nodes st x))) mod 2 ^ 64 + (\<Sum>x\<in>?U. fbytes (nodes st x))) mod 2 ^ 64,
      ((k + card (down st c)) mod 2 ^ 32 + card ?U) mod 2 ^ 32)"
    using Cons.prems by (intro Cons.IH) auto
  finally show ?case by (simp add: u mod_add_left_eq add.assoc)
qed

lemma kids_distinct: "fs_wf st \<Longrightarrow> live (nodes st d) \<Longrightarrow> distinct (kids (nodes st d))"
  using wf_dir by (auto simp: dir_ok_def distinct_map)

lemma walk_adds_all:
  assumes wf: "fs_wf st" and n: "live (nodes st n)"
  shows "walk_adds st n"
  using wf _ n
proof (rule kids_induct)
  fix n assume n: "live (nodes st n)" and IH: "\<And>c. c \<in> set (kids (nodes st n)) \<Longrightarrow> walk_adds st c"
  have held: "walk_kids (kids (nodes st n)) sz k st =
      Some ((sz + (\<Sum>x\<in>held st n. fbytes (nodes st x))) mod 2 ^ 64, (k + card (held st n)) mod 2 ^ 32)" if "sz < 2 ^ 64" "k < 2 ^ 32" for sz k
    unfolding held_def using IH that by (intro walk_kids_adds [OF wf n]) (simp_all add: kids_distinct [OF wf n])
  have s: "n \<notin> held st n" "finite (held st n)" using held_not_self held_finite wf n by blast+
  show "walk_adds st n"
    unfolding walk_adds_def
  proof (intro allI impI)
    fix r sz k assume b: "(sz :: nat) < 2 ^ 64" "(k :: nat) < 2 ^ 32"
    have "(sz + fbytes (nodes st n)) mod 2 ^ 64 < 2 ^ 64" "(k + 1) mod 2 ^ 32 < (2 ^ 32 :: nat)" by simp_all
    note h = held [OF this]
    have "(if ntype (nodes st n) = FS_FILE \<and> ndev (nodes st n) = 0 then add64 sz (nsize (nodes st n)) else sz) =
        (sz + fbytes (nodes st n)) mod 2 ^ 64" using b by (simp add: fbytes_def add64_def)
    then show "walk_kids (n # r) sz k st = walk_kids r ((sz + (\<Sum>x\<in>down st n. fbytes (nodes st x))) mod 2 ^ 64)
        ((k + card (down st n)) mod 2 ^ 32) st"
      using b h s unfolding down_eq [of st n] by (subst walk_kids.simps) (simp add: Let_def add32_def mod_simps add.assoc)
  qed
qed

text \<open>The walk of a mount returns, and counts every node on the mount once.\<close>

lemma walk_counts:
  assumes wf: "fs_wf st" and d: "live (nodes st d)"
  shows "walk d st = Some (bytes_used st d mod 2 ^ 64, (1 + card (held st d)) mod 2 ^ 32)"
  using walk_kids_adds [OF wf d subset_refl kids_distinct [OF wf d], of 0 1] walk_adds_all [OF wf] wf_kid(1) [OF wf d]
  by (simp add: walk_def bytes_used_def held_def)

lemma walk_ends: "fs_wf st \<Longrightarrow> live (nodes st d) \<Longrightarrow> \<exists>sz c. walk d st = Some (sz, c)"
  by (simp add: walk_counts)

section \<open>The limit of a \<open>tmpfs\<close>\<close>

lemma mnt_grow_ok:
  assumes f: "mnt_find (Some n) v = Some (Some i)" and t: "mkind (tab v ! i) = K_TMP" "0 < limit (tab v ! i)" "\<not> mro (tab v ! i)"
    and w: "walk (the (mat (tab v ! i))) (vf v) = Some (S, c)"
    and S: "S \<le> used_b (tab v ! i) + added (tab v ! i)" "used_b (tab v ! i) + added (tab v ! i) \<le> limit (tab v ! i)"
    and b: "limit (tab v ! i) + 2 ^ 32 \<le> 2 ^ 64" "newsize < 2 ^ 32"
  obtains u a k where "mnt_grow n newsize v =
      Some (if S + (newsize - nsize (nodes (vf v) n)) \<le> limit (tab v ! i) then 0 else - ENOSPC,
            upd_mnt i (\<lambda>e. e\<lparr>used_b := u, cnt := k, added := a\<rparr>) v)"
    and "u + a \<le> limit (tab v ! i)" "S \<le> u + a"
    and "S + (newsize - nsize (nodes (vf v) n)) \<le> limit (tab v ! i) \<Longrightarrow> S + (newsize - nsize (nodes (vf v) n)) \<le> u + a"
proof -
  let ?e = "tab v ! i" and ?sz = "nsize (nodes (vf v) n)"
  define d where "d = newsize - ?sz"
  note i = mnt_find_SomeD(1) [OF f]
  have d: "d < 2 ^ 32" using b(2) by (simp add: d_def)
  have a: "add64 (used_b ?e) (added ?e) = used_b ?e + added ?e" "add64 (used_b ?e + added ?e) d = used_b ?e + added ?e + d"
    "add64 S d = S + d" "add64 (added ?e) d = added ?e + d" "add64 0 d = d" using S b d by (simp_all add: add64_exact)
  have r: "recount i v = Some (upd_mnt i (\<lambda>e. e\<lparr>used_b := S, cnt := c, added := 0\<rparr>) v)" using w by (simp add: recount_def)
  consider (small) "newsize \<le> ?sz" | (fits) "?sz < newsize" "used_b ?e + added ?e + d \<le> limit ?e"
    | (counted) "?sz < newsize" "limit ?e < used_b ?e + added ?e + d" "S + d \<le> limit ?e"
    | (full) "?sz < newsize" "limit ?e < used_b ?e + added ?e + d" "limit ?e < S + d" by linarith
  then show thesis
  proof cases
    case small
    then have "mnt_grow n newsize v = Some (0, v)" using f t by (simp add: mnt_grow_def Let_def)
    then show ?thesis using small S that [where u = "used_b ?e" and a = "added ?e" and k = "cnt ?e"] by (simp add: upd_mnt_def)
  next
    case fits
    then have "mnt_grow n newsize v = Some (0, upd_mnt i (\<lambda>e. e\<lparr>added := add64 (added e) d\<rparr>) v)"
      using f t a by (simp add: mnt_grow_def Let_def d_def)
    then show ?thesis using fits S a that [where u = "used_b ?e" and a = "added ?e + d" and k = "cnt ?e"] by (simp add: upd_mnt_def flip: d_def)
  next
    case counted
    then have "mnt_grow n newsize v = Some (0, upd_mnt i (\<lambda>e. e\<lparr>used_b := S, cnt := c, added := d\<rparr>) v)"
      using f t a r i by (simp add: mnt_grow_def Let_def upd_mnt_def flip: d_def)
    then show ?thesis using counted that [where u = S and a = d and k = c] by (simp add: upd_mnt_def flip: d_def)
  next
    case full
    then have "mnt_grow n newsize v = Some (- ENOSPC, upd_mnt i (\<lambda>e. e\<lparr>used_b := S, cnt := c, added := 0\<rparr>) v)"
      using f t a r i by (simp add: mnt_grow_def Let_def upd_mnt_def flip: d_def)
    then show ?thesis using full S that [where u = S and a = 0 and k = c] by (simp add: upd_mnt_def flip: d_def)
  qed
qed

text \<open>The life of the mount \<open>i\<close> on the directory \<open>d\<close>: \<open>mnt_grow\<close> is asked before a file grows, and a file grows only if it
  allows it and at most to the size asked for; anything else that happens keeps the tree well-formed, does not touch
  the entry of the mount and adds no bytes to it (opening, creating, truncating and deleting files, other mounts).\<close>

definition set_size :: "nat \<Rightarrow> nat \<Rightarrow> vfs \<Rightarrow> vfs" where
  "set_size n s v = v\<lparr>vf := upd n (\<lambda>x. x\<lparr>nsize := s\<rparr>) (vf v)\<rparr>"

inductive tmpfs_run :: "nat \<Rightarrow> nat \<Rightarrow> vfs \<Rightarrow> vfs \<Rightarrow> bool" for i d v where
  start: "tmpfs_run i d v v"
| granted: "tmpfs_run i d v v1 \<Longrightarrow> mnt_find (Some n) v1 = Some (Some i) \<Longrightarrow> newsize < 2 ^ 32 \<Longrightarrow> mnt_grow n newsize v1 = Some (0, v2) \<Longrightarrow>
    s \<le> max newsize (nsize (nodes (vf v1) n)) \<Longrightarrow> tmpfs_run i d v (set_size n s v2)"
| refused: "tmpfs_run i d v v1 \<Longrightarrow> mnt_find (Some n) v1 = Some (Some i) \<Longrightarrow> newsize < 2 ^ 32 \<Longrightarrow> mnt_grow n newsize v1 = Some (r, v2) \<Longrightarrow>
    r < 0 \<Longrightarrow> tmpfs_run i d v v2"
| other: "tmpfs_run i d v v1 \<Longrightarrow> i < length (tab v2) \<Longrightarrow> tab v2 ! i = tab v1 ! i \<Longrightarrow> fs_wf (vf v2) \<Longrightarrow> live (nodes (vf v2) d) \<Longrightarrow>
    bytes_used (vf v2) d \<le> bytes_used (vf v1) d \<Longrightarrow> tmpfs_run i d v v2"

text \<open>The books of the mount are right.\<close>

definition tmp_books :: "nat \<Rightarrow> nat \<Rightarrow> nat \<Rightarrow> vfs \<Rightarrow> bool" where
  "tmp_books i d L v \<longleftrightarrow> fs_wf (vf v) \<and> live (nodes (vf v) d) \<and> i < length (tab v) \<and> mat (tab v ! i) = Some d \<and>
     mkind (tab v ! i) = K_TMP \<and> \<not> mro (tab v ! i) \<and> limit (tab v ! i) = L \<and>
     bytes_used (vf v) d \<le> used_b (tab v ! i) + added (tab v ! i) \<and> used_b (tab v ! i) + added (tab v ! i) \<le> L"

lemma down_same:
  assumes "\<And>x. hl (nodes st' x) = hl (nodes st x)" "\<And>x. ntype (nodes st' x) = ntype (nodes st x)"
    "\<And>x. mount_id (nodes st' x) = mount_id (nodes st x)" "\<And>x. kids (nodes st' x) = kids (nodes st x)"
  shows "down st' n = down st n"
proof -
  have "x \<in> down st' n \<Longrightarrow> x \<in> down st n" for x by (induction rule: down.induct) (use assms in \<open>auto intro: down.intros\<close>)
  moreover have "x \<in> down st n \<Longrightarrow> x \<in> down st' n" for x by (induction rule: down.induct) (use assms in \<open>auto intro: down.intros\<close>)
  ultimately show ?thesis by blast
qed

lemma bytes_set_size:
  assumes wf: "fs_wf (vf v)" and d: "live (nodes (vf v) d)"
  shows "bytes_used (vf (set_size n s v)) d \<le> bytes_used (vf v) d + (s - nsize (nodes (vf v) n))"
proof -
  let ?N = "nodes (vf v)" and ?M = "nodes (vf (set_size n s v))" and ?k = "s - nsize (nodes (vf v) n)"
  have M: "?M x = (if x = n then (?N x)\<lparr>nsize := s\<rparr> else ?N x)" for x by (simp add: set_size_def upd_def)
  have "down (vf (set_size n s v)) c = down (vf v) c" for c by (rule down_same) (simp_all add: M)
  then have h: "held (vf (set_size n s v)) d = held (vf v) d" by (simp add: held_def M)
  have "bytes_used (vf (set_size n s v)) d \<le> (\<Sum>x\<in>held (vf v) d. fbytes (?N x) + (if x = n then ?k else 0))"
    unfolding bytes_used_def h by (intro sum_mono) (auto simp: fbytes_def M)
  also have "\<dots> \<le> bytes_used (vf v) d + ?k"
    using held_finite [OF wf d] by (simp add: sum.distrib bytes_used_def)
  finally show ?thesis .
qed

lemma books_grow:
  assumes b: "tmp_books i d L v" "0 < L" "L + 2 ^ 32 \<le> 2 ^ 64" and n: "mnt_find (Some n) v = Some (Some i)" "newsize < 2 ^ 32"
  obtains v' where "mnt_grow n newsize v =
      Some (if bytes_used (vf v) d + (newsize - nsize (nodes (vf v) n)) \<le> L then 0 else - ENOSPC, v')"
    and "tmp_books i d L v'" "vf v' = vf v"
    and "bytes_used (vf v) d + (newsize - nsize (nodes (vf v) n)) \<le> L \<Longrightarrow>
      bytes_used (vf v) d + (newsize - nsize (nodes (vf v) n)) \<le> used_b (tab v' ! i) + added (tab v' ! i)"
proof -
  have B: "fs_wf (vf v)" "live (nodes (vf v) d)" "i < length (tab v)" "mat (tab v ! i) = Some d" "mkind (tab v ! i) = K_TMP"
    "\<not> mro (tab v ! i)" "limit (tab v ! i) = L" "bytes_used (vf v) d \<le> used_b (tab v ! i) + added (tab v ! i)"
    "used_b (tab v ! i) + added (tab v ! i) \<le> L" using b(1) by (simp_all add: tmp_books_def)
  then have "walk (the (mat (tab v ! i))) (vf v) = Some (bytes_used (vf v) d, (1 + card (held (vf v) d)) mod 2 ^ 32)"
    using walk_counts [OF B(1,2)] b(3) by simp
  from mnt_grow_ok [OF n(1) B(5) _ B(6) this B(8) _ _ n(2)] B(7,9) b(2,3)
  obtain u a k where g: "mnt_grow n newsize v =
      Some (if bytes_used (vf v) d + (newsize - nsize (nodes (vf v) n)) \<le> L then 0 else - ENOSPC,
            upd_mnt i (\<lambda>e. e\<lparr>used_b := u, cnt := k, added := a\<rparr>) v)"
    and u: "u + a \<le> L" "bytes_used (vf v) d \<le> u + a"
    "bytes_used (vf v) d + (newsize - nsize (nodes (vf v) n)) \<le> L \<Longrightarrow> bytes_used (vf v) d + (newsize - nsize (nodes (vf v) n)) \<le> u + a"
    by metis
  show thesis using u B by (intro that [OF g]) (simp_all add: tmp_books_def)
qed

lemma tmpfs_run_books:
  assumes L: "0 < L" "L + 2 ^ 32 \<le> 2 ^ 64"
  shows "tmpfs_run i d v w \<Longrightarrow> tmp_books i d L v \<Longrightarrow> tmp_books i d L w"
proof (induction rule: tmpfs_run.induct)
  case (granted v1 n newsize v2 s)
  have b: "tmp_books i d L v1" using granted by blast
  obtain v' where v': "mnt_grow n newsize v1 =
      Some (if bytes_used (vf v1) d + (newsize - nsize (nodes (vf v1) n)) \<le> L then 0 else - ENOSPC, v')" "tmp_books i d L v'" "vf v' = vf v1"
    "bytes_used (vf v1) d + (newsize - nsize (nodes (vf v1) n)) \<le> L \<Longrightarrow>
      bytes_used (vf v1) d + (newsize - nsize (nodes (vf v1) n)) \<le> used_b (tab v' ! i) + added (tab v' ! i)"
    by (rule books_grow [OF b L granted(2,3)]) blast
  then have e: "v2 = v'" and le: "bytes_used (vf v1) d + (newsize - nsize (nodes (vf v1) n)) \<le> L"
    using granted(4) by (auto split: if_splits)
  have B: "fs_wf (vf v2)" "live (nodes (vf v2) d)" using v'(2) e by (simp_all add: tmp_books_def)
  have "bytes_used (vf (set_size n s v2)) d \<le> bytes_used (vf v2) d + (s - nsize (nodes (vf v2) n))"
    by (rule bytes_set_size [OF B])
  also have "\<dots> \<le> bytes_used (vf v1) d + (newsize - nsize (nodes (vf v1) n))" using granted(5) v'(3) e by auto
  also have "\<dots> \<le> used_b (tab v2 ! i) + added (tab v2 ! i)" using v'(4) [OF le] e by simp
  finally have u: "bytes_used (vf (set_size n s v2)) d \<le> used_b (tab v2 ! i) + added (tab v2 ! i)" .
  have "flat (\<lambda>x. x\<lparr>nsize := s\<rparr>)" by (simp add: flat_def)
  then have "fs_wf (vf (set_size n s v2))" "live (nodes (vf (set_size n s v2)) d)"
    using upd_wf [OF B(1)] B(2) by (simp_all add: set_size_def upd_live)
  moreover have "tab (set_size n s v2) = tab v2" by (simp add: set_size_def)
  ultimately show ?case using v'(2) e u by (simp add: tmp_books_def)
next
  case (refused v1 n newsize r v2)
  then have b: "tmp_books i d L v1" by blast
  show ?case by (rule books_grow [OF b L refused(2,3)]) (use refused(4) in simp)
next
  case (other v1 v2)
  then show ?case by (simp add: tmp_books_def)
qed

text \<open>A mount of a \<open>tmpfs\<close> begins with empty books.\<close>

lemma opts_keeps:
  "used_b (fst (opts E data e)) = used_b e \<and> added (fst (opts E data e)) = added e \<and> mkind (fst (opts E data e)) = mkind e \<and>
   mat (fst (opts E data e)) = mat e \<and> mused (fst (opts E data e)) = mused e"
proof -
  have "used_b (fst (fold (opt_one E) ts p)) = used_b (fst p) \<and> added (fst (fold (opt_one E) ts p)) = added (fst p) \<and>
    mkind (fst (fold (opt_one E) ts p)) = mkind (fst p) \<and> mat (fst (fold (opt_one E) ts p)) = mat (fst p) \<and>
    mused (fst (fold (opt_one E) ts p)) = mused (fst p)" for ts p
  proof (induction ts arbitrary: p)
    case (Cons t ts)
    then show ?case by (cases p) (simp add: opt_one_def Let_def)
  qed simp
  then show ?thesis by (simp add: opts_def split: option.split)
qed

lemma mount_tmp_fresh:
  assumes m: "mount_tmp E src d ty flags data v0 = (0, v)"
  obtains i f where "find_at d v = Some i" "mat (tab v ! i) = Some d" "mkind (tab v ! i) = K_TMP" "used_b (tab v ! i) = 0"
    "added (tab v ! i) = 0" "flat f" "vf v = upd d f (vf v0)"
proof -
  from m obtain k v1 j where k: "find_at d v0 = None" "slot v0 = Some (k, v1)" "tmp_id v0 = Some j"
    by (auto simp: mount_tmp_def Let_def split: if_splits option.splits prod.splits)
  define e0 where "e0 = (tab v1 ! k)\<lparr>mkind := K_TMP, mat := Some d, mdisk := - 1, mro := bit flags MS_RDONLY, mtype := ty,
      mdev := (case src of None \<Rightarrow> ''tmpfs'' | Some s \<Rightarrow> if ndev (nodes (vf v0) s) \<noteq> 0 \<or> ntype (nodes (vf v0) s) \<noteq> FS_DIR then ''tmpfs''
                 else take 23 (nname (nodes (vf v0) s)))\<rparr>"
  obtain e mode where e: "opts E data e0 = (e, mode)" by (cases "opts E data e0")
  define f where "f = (\<lambda>x :: fs_node. x\<lparr>nmode := (case mode of Some m \<Rightarrow> if m < 2 ^ 31 then m mod 2 ^ 16 else nmode x | None \<Rightarrow> nmode x),
      mount_id := j mod 256\<rparr>)"
  have v: "v = (upd_mnt k (\<lambda>_. e) v1)\<lparr>vf := upd d f (vf v1)\<rparr>"
    using m k e unfolding mount_tmp_def e0_def f_def by (auto simp: Let_def split: if_splits)
  have s: "k < length (tab v0)" "v1 = upd_mnt k (\<lambda>_. mnt_zero\<lparr>mused := True\<rparr>) v0" "\<forall>q<k. mused (tab v0 ! q)"
    using k(2) by (auto simp: slot_def first_idx_Some split: option.splits)
  have o: "used_b e = 0" "added e = 0" "mkind e = K_TMP" "mat e = Some d" "mused e"
    using opts_keeps [of E data e0] e s by (simp_all add: e0_def mnt_zero_def)
  have t: "tab v ! k = e" "tab v ! q = tab v0 ! q" if "q \<noteq> k" for q using s that by (simp_all add: v upd_mnt_def)
  have "\<forall>q<k. \<not> (mused (tab v0 ! q) \<and> mat (tab v0 ! q) = Some d)"
    using k(1) s(1) by (auto simp: find_at_def first_idx_None)
  then have "find_at d v = Some k" using s o by (auto simp: find_at_def first_idx_Some v upd_mnt_def)
  moreover have "tab v ! k = e" "vf v = upd d f (vf v0)" using s by (simp_all add: v upd_mnt_def)
  moreover have "flat f" by (simp add: flat_def f_def)
  ultimately show thesis using that o by blast
qed

text \<open>C14: The limit of a \<open>tmpfs\<close> holds and is used up. After a mount with a limit on a directory whose files hold no bytes,
  and after any sequence of growths that \<open>mnt_grow\<close> grants or refuses and of other changes that add no bytes, the files
  of the mount hold no more than the limit; and \<open>mnt_grow\<close> returns and grants a growth exactly when the bytes of the files
  with the growth are within the limit.\<close>

theorem tmpfs_limit_kept:
  assumes "fs_wf (vf v0)" "live (nodes (vf v0) d)" "mount_tmp E src d ty flags data v0 = (0, v)" "find_at d v = Some i"
    and "\<not> mro (tab v ! i)" "0 < limit (tab v ! i)" "limit (tab v ! i) + 2 ^ 32 \<le> 2 ^ 64" "bytes_used (vf v) d = 0"
    and "tmpfs_run i d v w"
  shows "bytes_used (vf w) d \<le> limit (tab v ! i) \<and>
    (\<forall>n newsize. mnt_find (Some n) w = Some (Some i) \<and> newsize < 2 ^ 32 \<longrightarrow>
       (\<exists>w'. mnt_grow n newsize w =
         Some (if bytes_used (vf w) d + (newsize - nsize (nodes (vf w) n)) \<le> limit (tab v ! i) then 0 else - ENOSPC, w')))"
proof -
  obtain f where f: "mat (tab v ! i) = Some d" "mkind (tab v ! i) = K_TMP" "used_b (tab v ! i) = 0" "added (tab v ! i) = 0"
    "flat f" "vf v = upd d f (vf v0)" using mount_tmp_fresh [OF assms(3)] assms(4) by (metis option.sel)
  have "fs_wf (vf v)" "live (nodes (vf v) d)" using f(6) upd_wf [OF assms(1) f(5)] upd_live [OF f(5)] assms(2) by simp_all
  then have "tmp_books i d (limit (tab v ! i)) v"
    using f assms(5,8) find_at_SomeD [OF assms(4)] by (simp add: tmp_books_def)
  from tmpfs_run_books [OF assms(6,7,9) this] have b: "tmp_books i d (limit (tab v ! i)) w" .
  then have "bytes_used (vf w) d \<le> limit (tab v ! i)" unfolding tmp_books_def by linarith
  moreover have "\<exists>w'. mnt_grow n newsize w =
      Some (if bytes_used (vf w) d + (newsize - nsize (nodes (vf w) n)) \<le> limit (tab v ! i) then 0 else - ENOSPC, w')"
    if "mnt_find (Some n) w = Some (Some i) \<and> newsize < 2 ^ 32" for n newsize
    using books_grow [OF b assms(6,7), of n newsize] that by blast
  ultimately show ?thesis by blast
qed

text \<open>A \<open>tmpfs\<close> of 100 bytes on the root of the example tree, and a file on it that grows to 60 bytes.\<close>

definition demo_env :: env where
  "demo_env = \<lparr>ext2_probe = (\<lambda>_. False), fatfs_probe = (\<lambda>_. False), ext2_mount = (\<lambda>_ _ v. (- 1, v)), fatfs_mount = (\<lambda>_ _ v. (- 1, v)),
     ext2_umount = (\<lambda>_ v. (- 1, v)), fatfs_umount = (\<lambda>_ v. (- 1, v)), fatfs_statfs = (\<lambda>_. None), ext2_statfs = (\<lambda>_. None),
     total_frames = 1000, free_frames = 10\<rparr>"

definition demo_vfs :: vfs where "demo_vfs = \<lparr>vf = demo_fs, tab = mnt_zero # replicate 23 mnt_zero\<rparr>"

definition demo_tmp :: vfs where "demo_tmp = snd (mount_tmp demo_env None 0 ''tmpfs'' 0 (Some ''size=100'') demo_vfs)"

lemma demo_opts: "opts demo_env (Some ''size=100'') e = (e\<lparr>limit := 100\<rparr>, None)"
proof -
  have "commas ''size=100'' = [''size=100'']" by (simp add: commas.simps [of "CHR ''s'' # _"] commas.simps [of "[]"])
  then show ?thesis by (simp add: opts_def opt_one_def num_def add64_def mul64_def)
qed

lemma demo_tmp:
  "mount_tmp demo_env None 0 ''tmpfs'' 0 (Some ''size=100'') demo_vfs = (0, demo_tmp)"
  "tab demo_tmp = mnt_zero\<lparr>mused := True, mkind := K_TMP, mat := Some 0, mdisk := - 1, mtype := ''tmpfs'', mdev := ''tmpfs'', limit := 100\<rparr>
     # replicate 23 mnt_zero"
  "vf demo_tmp = upd 0 (\<lambda>x. x\<lparr>mount_id := 16\<rparr>) demo_fs"
proof -
  have z: "\<not> mused mnt_zero" by (simp add: mnt_zero_def)
  have "find_at 0 demo_vfs = None" by (simp add: find_at_def demo_vfs_def first_idx_None mnt_zero_def)
  moreover have "tmp_id demo_vfs = Some 16" by (simp add: tmp_id_def demo_vfs_def list_ex_iff z upt_rec)
  moreover have "slot demo_vfs = Some (0, upd_mnt 0 (\<lambda>_. mnt_zero\<lparr>mused := True\<rparr>) demo_vfs)" by (simp add: slot_def demo_vfs_def z)
  ultimately have m: "mount_tmp demo_env None 0 ''tmpfs'' 0 (Some ''size=100'') demo_vfs =
      (0, \<lparr>vf = upd 0 (\<lambda>x. x\<lparr>mount_id := 16\<rparr>) demo_fs,
           tab = mnt_zero\<lparr>mused := True, mkind := K_TMP, mat := Some 0, mdisk := - 1, mtype := ''tmpfs'', mdev := ''tmpfs'', limit := 100\<rparr>
             # replicate 23 mnt_zero\<rparr>)"
    using demo_opts by (simp add: mount_tmp_def demo_nodes empty_node_def upd_mnt_def demo_vfs_def mnt_zero_def)
  then show "mount_tmp demo_env None 0 ''tmpfs'' 0 (Some ''size=100'') demo_vfs = (0, demo_tmp)"
    "tab demo_tmp = mnt_zero\<lparr>mused := True, mkind := K_TMP, mat := Some 0, mdisk := - 1, mtype := ''tmpfs'', mdev := ''tmpfs'', limit := 100\<rparr>
     # replicate 23 mnt_zero" "vf demo_tmp = upd 0 (\<lambda>x. x\<lparr>mount_id := 16\<rparr>) demo_fs"
    by (simp_all add: demo_tmp_def)
qed

lemma demo_find:
  assumes "find_at 0 v = Some 0" "find_at 1 v = None" "nparent (nodes (vf v) 1) = Some 0"
  shows "mnt_find (Some 1) v = Some (Some 0)"
  using assms by (simp add: mnt_find_def up.simps)

theorem tmpfs_limit_kept_witness:
  "\<exists>v w. mnt_grow 1 60 demo_tmp = Some (0, v) \<and> bytes_used (vf (set_size 1 60 v)) 0 \<le> 100 \<and>
     mnt_grow 1 200 (set_size 1 60 v) = Some (- ENOSPC, w)"
proof -
  define v where "v = upd_mnt 0 (\<lambda>e. e\<lparr>added := 60\<rparr>) demo_tmp"
  have at: "find_at 0 demo_tmp = Some 0" "find_at 1 demo_tmp = None" by (simp_all add: find_at_def demo_tmp first_idx_None mnt_zero_def)
  have par: "nparent (nodes (vf demo_tmp) 1) = Some 0" by (simp add: demo_tmp upd_def demo_nodes empty_node_def)
  note f = demo_find [OF at par]
  have g: "mnt_grow 1 60 demo_tmp = Some (0, v)"
    using f by (simp add: mnt_grow_def demo_tmp mnt_zero_def upd_def demo_nodes empty_node_def add64_def v_def upd_mnt_def)
  have w: "mnt_find (Some 1) (set_size 1 60 v) = Some (Some 0)"
    by (rule demo_find) (simp_all add: find_at_def first_idx_None v_def set_size_def upd_mnt_def demo_tmp mnt_zero_def upd_def demo_nodes empty_node_def)
  have run: "tmpfs_run 0 0 demo_tmp (set_size 1 60 v)" by (rule tmpfs_run.granted [OF tmpfs_run.start f _ g]) simp_all
  have "fbytes (nodes (vf demo_tmp) x) = 0" for x by (auto simp: demo_tmp upd_def demo_nodes empty_node_def fbytes_def)
  then have u: "bytes_used (vf demo_tmp) 0 = 0" by (simp add: bytes_used_def)
  have s: "nsize (nodes (vf (set_size 1 60 v)) 1) = 60" by (simp add: set_size_def upd_def)
  have "fs_wf (vf demo_vfs)" "live (nodes (vf demo_vfs) 0)" using demo_wf by (simp_all add: demo_vfs_def demo_nodes empty_node_def)
  note k = tmpfs_limit_kept [OF this demo_tmp(1) at(1) _ _ _ u run]
  have "bytes_used (vf (set_size 1 60 v)) 0 \<le> 100" using k by (simp add: demo_tmp mnt_zero_def)
  moreover have "\<exists>w'. mnt_grow 1 200 (set_size 1 60 v) = Some (- ENOSPC, w')"
    using k [THEN conjunct2, rule_format, of 1 200] w s by (simp add: demo_tmp mnt_zero_def)
  ultimately show ?thesis using g by blast
qed

end
