(* ===== verification/FsCalls.thy ===== *)
theory FsCalls
  imports Mount
begin

text \<open>
  The system calls that change the tree, from \<open>src/src/proc/syscall.c\<close>: the lookups of a path or of its parent
  directory and \<open>unlink\<close>, \<open>rmdir\<close>, \<open>mkdir\<close>, \<open>rename\<close>, \<open>link\<close>, \<open>symlink\<close>, \<open>mknod\<close> over the tree and the mount
  table. A call gives an error number or a result with the new state; the outer \<open>None\<close> is a call that does not
  return. What the kernel tells other parts (inotify, shared memory, \<open>/proc\<close>) is the list \<open>evs\<close>; the contents
  of \<open>/proc\<close> that a refresh would make are not part of the tree here. A path is \<open>None\<close> when the pointer is bad.
\<close>

datatype sys_event = Ino_Ev nat nat string nat | Ino_Node nat nat | Ino_Gone nat bool | Shm_Drop nat | Proc_Refresh

record sys =
  kv :: vfs
  evs :: "sys_event list"
  cookie :: nat

text \<open>An open file as these calls see it: its node (if it is one) and its directory entry.\<close>

record fd =
  fd_node :: "nat option"
  fd_dent :: "nat option"

record me =
  cwd :: nat
  umask :: nat
  fds :: "int \<Rightarrow> fd option"
  cwds :: "nat list"

type_synonym 'r call = "sys \<Rightarrow> ((int + 'r) \<times> sys) option"

abbreviation (input) ENOENT :: int where "ENOENT \<equiv> 2"
abbreviation (input) EBADF :: int where "EBADF \<equiv> 9"
abbreviation (input) EFAULT :: int where "EFAULT \<equiv> 14"
abbreviation (input) EEXIST :: int where "EEXIST \<equiv> 17"
abbreviation (input) EXDEV :: int where "EXDEV \<equiv> 18"
abbreviation (input) EISDIR :: int where "EISDIR \<equiv> 21"
abbreviation (input) EMLINK :: int where "EMLINK \<equiv> 31"
abbreviation (input) ENAMETOOLONG :: int where "ENAMETOOLONG \<equiv> 36"
abbreviation (input) ENOTEMPTY :: int where "ENOTEMPTY \<equiv> 39"
abbreviation AT_FDCWD :: int where "AT_FDCWD \<equiv> - 100"

definition tree :: "sys \<Rightarrow> fs" where "tree s = vf (kv s)"

definition ret :: "'r \<Rightarrow> 'r call" where "ret x s = Some (Inr x, s)"

definition fail :: "int \<Rightarrow> 'r call" where "fail e s = Some (Inl (- e), s)"

definition andt :: "'a call \<Rightarrow> ('a \<Rightarrow> 'b call) \<Rightarrow> 'b call" where
  "andt m f s = (case m s of None \<Rightarrow> None | Some (Inl e, s1) \<Rightarrow> Some (Inl e, s1) | Some (Inr x, s1) \<Rightarrow> f x s1)"

definition ask :: "(sys \<Rightarrow> 'a option) \<Rightarrow> 'a call" where
  "ask f s = map_option (\<lambda>x. (Inr x, s)) (f s)"

definition stop_if :: "bool \<Rightarrow> int \<Rightarrow> unit call" where "stop_if b e = (if b then fail e else ret ())"

definition tell :: "sys_event \<Rightarrow> unit call" where "tell e s = Some (Inr (), s\<lparr>evs := evs s @ [e]\<rparr>)"

text \<open>A function of the file system, with the read-only volumes of the mount table.\<close>

definition on_tree :: "(fs \<Rightarrow> ('r \<times> fs) option) \<Rightarrow> 'r call" where
  "on_tree f s = map_option (\<lambda>(r, st). (Inr r, s\<lparr>kv := (kv s)\<lparr>vf := st\<rparr>\<rparr>)) (f ((tree s)\<lparr>ro := \<lambda>i. mnt_ro_id i (kv s)\<rparr>))"

definition on_mnt :: "(vfs \<Rightarrow> (int \<times> vfs) option) \<Rightarrow> unit call" where
  "on_mnt f s = map_option (\<lambda>(r, v). (if r < 0 then Inl r else Inr (), s\<lparr>kv := v\<rparr>)) (f (kv s))"

definition set_node :: "nat \<Rightarrow> (fs_node \<Rightarrow> fs_node) \<Rightarrow> unit call" where
  "set_node n f = on_tree (\<lambda>st. Some ((), upd n f st))"

section \<open>Lookups\<close>

definition dir_base :: "me \<Rightarrow> int \<Rightarrow> string \<Rightarrow> nat call" where
  "dir_base m dirfd path s =
     (if is_abs path \<or> dirfd = AT_FDCWD then ret (cwd m) s
      else (case fds m dirfd of
              None \<Rightarrow> fail EBADF s
            | Some f \<Rightarrow>
                (case fd_node f of
                   Some n \<Rightarrow>
                     if ntype (nodes (tree s) n) \<noteq> FS_DIR then fail ENOTDIR s
                     else ret (case fd_dent f of Some d \<Rightarrow> if mntns (tree s) \<noteq> 0 then fs_alias d (tree s) else n | None \<Rightarrow> n) s
                 | None \<Rightarrow> fail ENOTDIR s)))"

definition in_procfs :: "nat \<Rightarrow> fs \<Rightarrow> bool option" where
  "in_procfs n st = map_option (\<lambda>m. m \<noteq> None)
     (up (\<lambda>a. (case nparent (nodes st a) of Some p \<Rightarrow> (p = root st \<or> shadow (nodes st p)) \<and> nname (nodes st a) = ''proc'' | None \<Rightarrow> False)) (Some n) st)"

definition maybe_refresh_proc :: "nat \<Rightarrow> string \<Rightarrow> unit call" where
  "maybe_refresh_proc base path =
     andt (ask (\<lambda>s. if is_abs path then Some (take 5 path = ''/proc'') else in_procfs base (tree s)))
       (\<lambda>b. if b then tell Proc_Refresh else ret ())"

definition with_base :: "me \<Rightarrow> int \<Rightarrow> string option \<Rightarrow> (nat \<Rightarrow> string \<Rightarrow> nat option call) \<Rightarrow> nat call" where
  "with_base m dirfd path f =
     (case path of
        None \<Rightarrow> fail EFAULT
      | Some p \<Rightarrow>
          if p = [] then fail ENOENT
          else andt (dir_base m dirfd p) (\<lambda>b. andt (maybe_refresh_proc b p) (\<lambda>_. andt (f b p) (\<lambda>n. case n of Some a \<Rightarrow> ret a | None \<Rightarrow> fail ENOENT))))"

definition lookup_ex :: "me \<Rightarrow> int \<Rightarrow> string option \<Rightarrow> bool \<Rightarrow> nat call" where
  "lookup_ex m dirfd path follow =
     with_base m dirfd path (\<lambda>b p. on_tree (\<lambda>st. Some (if follow then fs_resolve b p st else fs_resolve_nf b p st)))"

definition lookup :: "me \<Rightarrow> int \<Rightarrow> string option \<Rightarrow> nat call" where "lookup m dirfd path = lookup_ex m dirfd path True"

definition lookup_peek :: "me \<Rightarrow> int \<Rightarrow> string option \<Rightarrow> bool \<Rightarrow> nat call" where
  "lookup_peek m dirfd path follow = with_base m dirfd path (\<lambda>b p. ask (\<lambda>s. Some (fs_peek b p follow (tree s))))"

definition lookup_dent :: "me \<Rightarrow> int \<Rightarrow> string option \<Rightarrow> nat call" where
  "lookup_dent m dirfd path = with_base m dirfd path (\<lambda>b p. ask (\<lambda>s. Some (fs_peek_d b p (tree s))))"

text \<open>\<open>a/b/c/\<close> is the node of \<open>a/b\<close> and the name \<open>c\<close>.\<close>

definition strip :: "string \<Rightarrow> string" where
  "strip p = (let t = rev (dropWhile (\<lambda>c. c = CHR ''/'') (rev p)) in if t = [] then take 1 p else t)"

definition lookup_parent :: "me \<Rightarrow> int \<Rightarrow> string option \<Rightarrow> (nat \<times> string) call" where
  "lookup_parent m dirfd path =
     (case path of
        None \<Rightarrow> fail EFAULT
      | Some p \<Rightarrow>
          if p = [] then fail ENOENT
          else if 256 \<le> length p then fail ENAMETOOLONG
          else let t = strip p; sl = last_slash t; base = (case sl of None \<Rightarrow> t | Some i \<Rightarrow> drop (i + 1) t) in
            if FS_NAME_MAX \<le> length base then fail ENAMETOOLONG
            else andt (dir_base m dirfd p) (\<lambda>b.
              andt (case sl of
                      None \<Rightarrow> ret (Some b)
                    | Some i \<Rightarrow> if i = 0 then ask (\<lambda>s. Some (Some (root (tree s)))) else on_tree (\<lambda>st. Some (fs_resolve b (take i t) st)))
                (\<lambda>par. case par of
                   None \<Rightarrow> fail ENOENT
                 | Some d \<Rightarrow> andt (ask (\<lambda>s. Some (ntype (nodes (tree s) d)))) (\<lambda>ty. if ty \<noteq> FS_DIR then fail ENOTDIR else ret (d, base)))))"

section \<open>Removing\<close>

definition is_shm :: "nat \<Rightarrow> fs \<Rightarrow> bool" where
  "is_shm n st \<longleftrightarrow>
     (case nparent (nodes st n) of
        None \<Rightarrow> take 6 (nname (nodes st n)) = ''memfd:''
      | Some p \<Rightarrow> nname (nodes st p) = ''shm'' \<and> (case nparent (nodes st p) of Some g \<Rightarrow> nname (nodes st g) = ''dev'' | None \<Rightarrow> False))"

definition IN_ISDIR :: "fs_node \<Rightarrow> nat" where "IN_ISDIR x = (if ntype x = FS_DIR then 0x40000000 else 0)"

definition check_ro :: "nat \<Rightarrow> unit call" where
  "check_ro d = andt (ask (\<lambda>s. mnt_ro (Some d) (kv s))) (\<lambda>b. stop_if b EROFS)"

text \<open>The rest of \<open>unlink\<close> and \<open>rmdir\<close>, for the node that the path names.\<close>

definition unlink_node :: "me \<Rightarrow> nat \<Rightarrow> nat \<Rightarrow> unit call" where
  "unlink_node m flags n =
     andt (ask (\<lambda>s. Some (nodes (tree s) n, root (tree s), is_shm n (tree s)))) (\<lambda>(x, rt, shm).
     andt (if bit flags 9 then
             (if ntype x \<noteq> FS_DIR then fail ENOTDIR else if kids x \<noteq> [] then fail ENOTEMPTY else if n = rt then fail EBUSY
              else stop_if (n \<in> set (cwds m)) EBUSY)
           else stop_if (ntype x = FS_DIR) EISDIR) (\<lambda>_.
     case nparent x of
       None \<Rightarrow> fail EBUSY
     | Some par \<Rightarrow>
         andt (check_ro par) (\<lambda>_.
         andt (if shm \<and> xl x = 0 \<and> hl x = None then tell (Shm_Drop n) else ret ()) (\<lambda>_.
         andt (tell (Ino_Ev par (0x200 + IN_ISDIR x) (nname x) 0)) (\<lambda>_.
         andt (tell (Ino_Gone n (xl x = 0 \<and> hl x = None))) (\<lambda>_.
         on_tree (\<lambda>st. map_option (Pair ()) (fs_drop_name n st))))))))"

definition do_unlink :: "me \<Rightarrow> int \<Rightarrow> string option \<Rightarrow> nat \<Rightarrow> unit call" where
  "do_unlink m dirfd path flags = andt (lookup_dent m dirfd path) (unlink_node m flags)"

section \<open>Making\<close>

text \<open>\<open>mode & ~umask\<close>, \<open>w\<close> bits of it.\<close>

definition new_mode :: "me \<Rightarrow> nat \<Rightarrow> nat \<Rightarrow> nat" where
  "new_mode m w mode = nat (take_bit w (and (int mode) (not (int (umask m)))))"

definition do_mkdir :: "me \<Rightarrow> int \<Rightarrow> string option \<Rightarrow> nat \<Rightarrow> unit call" where
  "do_mkdir m dirfd path mode s =
     (case lookup m dirfd path s of
        None \<Rightarrow> None
      | Some (Inr _, s1) \<Rightarrow> fail EEXIST s1
      | Some (Inl _, s1) \<Rightarrow>
          andt (lookup_parent m dirfd path) (\<lambda>(par, name).
          andt (check_ro par) (\<lambda>_.
          andt (on_mnt (mnt_newnode par)) (\<lambda>_.
          andt (on_tree (fs_create par name FS_DIR)) (\<lambda>no.
          case no of
            None \<Rightarrow> fail EEXIST
          | Some n \<Rightarrow> andt (set_node n (\<lambda>x. x\<lparr>nmode := new_mode m 12 mode\<rparr>)) (\<lambda>_. tell (Ino_Node n 0x100)))))) s1)"

definition has_child :: "nat \<Rightarrow> string \<Rightarrow> bool call" where
  "has_child par name = ask (\<lambda>s. Some (fs_child (Some par) name (tree s) \<noteq> None))"

text \<open>\<open>symlink\<close> and \<open>symlinkat\<close>; \<open>mem\<close> is whether \<open>kmalloc\<close> has room for the target.\<close>

definition sys_symlink :: "me \<Rightarrow> bool \<Rightarrow> string option \<Rightarrow> int \<Rightarrow> string option \<Rightarrow> unit call" where
  "sys_symlink m mem target dirfd path =
     (case target of
        None \<Rightarrow> fail EFAULT
      | Some tg \<Rightarrow>
          andt (lookup_parent m dirfd path) (\<lambda>(par, name).
          andt (has_child par name) (\<lambda>b. andt (stop_if b EEXIST) (\<lambda>_.
          andt (check_ro par) (\<lambda>_.
          andt (on_mnt (mnt_newnode par)) (\<lambda>_.
          andt (on_tree (fs_symlink mem (Some par) name tg)) (\<lambda>no.
          case no of None \<Rightarrow> fail ENOMEM | Some n \<Rightarrow> tell (Ino_Node n 0x100))))))))"

text \<open>\<open>mknod\<close> and \<open>mknodat\<close>: named pipes only. 4096 is \<open>S_IFIFO\<close>, 61440 is \<open>S_IFMT\<close>; 102 is \<open>FS_DEV_FIFO\<close>.\<close>

definition sys_mknod :: "me \<Rightarrow> int \<Rightarrow> string option \<Rightarrow> nat \<Rightarrow> unit call" where
  "sys_mknod m dirfd path md =
     (if path = None then fail EFAULT
      else if and md 61440 \<noteq> 4096 then fail EPERM
      else andt (lookup_parent m dirfd path) (\<lambda>(par, name).
        andt (has_child par name) (\<lambda>b. andt (stop_if b EEXIST) (\<lambda>_.
        andt (check_ro par) (\<lambda>_.
        andt (on_mnt (mnt_newnode par)) (\<lambda>_.
        andt (on_tree (fs_create par name FS_FILE)) (\<lambda>no.
        case no of
          None \<Rightarrow> fail ENOMEM
        | Some n \<Rightarrow> andt (set_node n (\<lambda>x. x\<lparr>ndev := 102, nmode := new_mode m 9 md\<rparr>)) (\<lambda>_. tell (Ino_Node n 0x100)))))))))"

section \<open>Moving and linking\<close>

definition is_ancestor :: "nat \<Rightarrow> nat \<Rightarrow> fs \<Rightarrow> bool option" where
  "is_ancestor a n st = map_option (\<lambda>m. m \<noteq> None) (up (\<lambda>x. x = a) (Some n) st)"

text \<open>The node that a name stands for.\<close>

definition real_node :: "nat \<Rightarrow> fs \<Rightarrow> nat" where
  "real_node n st = (case hl (nodes st n) of Some t \<Rightarrow> t | None \<Rightarrow> n)"

definition ask_owner :: "nat option \<Rightarrow> nat call" where "ask_owner n = ask (\<lambda>s. fs_owner n (tree s))"

text \<open>The last part of \<open>rename\<close>: the node leaves its directory and comes to the new one under the new name.\<close>

definition move_node :: "nat \<Rightarrow> nat \<Rightarrow> string \<Rightarrow> unit call" where
  "move_node src par name =
     andt (ask (\<lambda>s. Some (nodes (tree s) src, cookie s))) (\<lambda>(x, ck0).
     let ck = add32 ck0 1 in
     andt (\<lambda>s. ret () (s\<lparr>cookie := ck\<rparr>)) (\<lambda>_.
     andt (case nparent x of Some p \<Rightarrow> tell (Ino_Ev p (0x40 + IN_ISDIR x) (nname x) ck) | None \<Rightarrow> ret ()) (\<lambda>_.
     andt (on_tree (\<lambda>st. map_option (Pair ()) (do {
        st1 \<leftarrow> fs_detach src st;
        fs_attach par src (upd src (\<lambda>x. x\<lparr>nname := take (FS_NAME_MAX - 1) name\<rparr>) st1) }))) (\<lambda>_.
     andt (tell (Ino_Ev par (0x80 + IN_ISDIR x) (take (FS_NAME_MAX - 1) name) ck)) (\<lambda>_.
     tell (Ino_Ev src 0x800 [] 0))))))"

text \<open>An entry of that name is removed first, if it may be.\<close>

definition replace_node :: "me \<Rightarrow> int \<Rightarrow> string option \<Rightarrow> nat \<Rightarrow> nat \<Rightarrow> string \<Rightarrow> fs_node \<Rightarrow> nat \<Rightarrow> unit call" where
  "replace_node m nfd to' src par name x d =
     (if d = src then ret () else
      andt (ask (\<lambda>s. Some (nodes (tree s) d, real_node d (tree s) = real_node src (tree s)))) (\<lambda>(y, same).
      if same then ret ()
      else if ntype y = FS_DIR \<and> ntype x \<noteq> FS_DIR then fail EISDIR
      else if ntype y \<noteq> FS_DIR \<and> ntype x = FS_DIR then fail ENOTDIR
      else if ntype y = FS_DIR \<and> kids y \<noteq> [] then fail ENOTEMPTY
      else andt (do_unlink m nfd to' (if ntype y = FS_DIR then 512 else 0)) (\<lambda>_. move_node src par name)))"

definition rename_end :: "me \<Rightarrow> int \<Rightarrow> string option \<Rightarrow> nat \<Rightarrow> nat \<Rightarrow> string \<Rightarrow> fs_node \<Rightarrow> unit call" where
  "rename_end m nfd to' src par name x =
     andt (if ntype x = FS_DIR then andt (ask (\<lambda>s. is_ancestor src par (tree s))) (\<lambda>b. stop_if b EINVAL) else ret ()) (\<lambda>_.
     andt (ask (\<lambda>s. Some (fs_child (Some par) name (tree s)))) (\<lambda>dst.
     case dst of None \<Rightarrow> move_node src par name | Some d \<Rightarrow> replace_node m nfd to' src par name x d))"

text \<open>The checks of the volumes.\<close>

definition rename_to :: "me \<Rightarrow> int \<Rightarrow> string option \<Rightarrow> nat \<Rightarrow> nat \<Rightarrow> string \<Rightarrow> unit call" where
  "rename_to m nfd to' src par name =
     andt (check_ro par) (\<lambda>_.
     andt (ask (\<lambda>s. Some (nodes (tree s) src))) (\<lambda>x.
     andt (case nparent x of Some p \<Rightarrow> check_ro p | None \<Rightarrow> ret ()) (\<lambda>_.
     andt (ask_owner (nparent x)) (\<lambda>o1. andt (ask_owner (Some par)) (\<lambda>o2.
     andt (if o1 \<noteq> o2 then on_mnt (mnt_newnode par) else ret ()) (\<lambda>_.
     andt (stop_if ((hl x \<noteq> None \<or> xl x \<noteq> 0) \<and> o1 \<noteq> o2) EXDEV) (\<lambda>_.
     andt (if o1 \<noteq> o2 then on_tree (\<lambda>st. map_option (Pair ()) (fs_need_tree src st)) else ret ()) (\<lambda>_.
     rename_end m nfd to' src par name x))))))))"

definition do_rename :: "me \<Rightarrow> int \<Rightarrow> string option \<Rightarrow> int \<Rightarrow> string option \<Rightarrow> unit call" where
  "do_rename m ofd from nfd to' =
     (if from = None \<or> to' = None then fail EFAULT
      else andt (lookup_dent m ofd from) (\<lambda>src.
           andt (lookup_parent m nfd to') (\<lambda>(par, name). rename_to m nfd to' src par name)))"

text \<open>\<open>flags\<close>: 4096 is \<open>AT_EMPTY_PATH\<close>, 1024 is \<open>AT_SYMLINK_FOLLOW\<close>.\<close>

definition do_link :: "me \<Rightarrow> int \<Rightarrow> string option \<Rightarrow> int \<Rightarrow> string option \<Rightarrow> nat \<Rightarrow> unit call" where
  "do_link m ofd from nfd to' flags =
     (if from = None \<or> to' = None then fail EFAULT else
     andt (if bit flags 12 \<and> from = Some [] then
             (case fds m ofd of None \<Rightarrow> fail EBADF | Some f \<Rightarrow> (case fd_node f of None \<Rightarrow> fail ENOENT | Some n \<Rightarrow> ret n))
           else lookup_peek m ofd from (bit flags 10)) (\<lambda>src.
     andt (ask (\<lambda>s. Some (nodes (tree s) src))) (\<lambda>x.
     andt (stop_if (ntype x = FS_DIR) EPERM) (\<lambda>_.
     andt (stop_if (unlinked x) ENOENT) (\<lambda>_. andt (stop_if (ndev x \<noteq> 0) EPERM) (\<lambda>_.
     andt (lookup_parent m nfd to') (\<lambda>(par, name).
     andt (has_child par name) (\<lambda>b. andt (stop_if b EEXIST) (\<lambda>_.
     andt (ask_owner (Some src)) (\<lambda>ow. andt (ask_owner (Some par)) (\<lambda>o2.
     andt (stop_if (ow \<noteq> o2) EXDEV) (\<lambda>_.
     andt (check_ro par) (\<lambda>_.
     andt (ask (\<lambda>s. Some (mount_id (nodes (tree s) ow)))) (\<lambda>i. andt (stop_if (i \<noteq> 0 \<and> i < 8) EPERM) (\<lambda>_.
     andt (stop_if (60000 < xl x) EMLINK) (\<lambda>_.
     andt (on_tree (fs_hlink src par name)) (\<lambda>r.
     if r < 0 then fail ENOMEM else tell (Ino_Ev par 0x100 name 0))))))))))))))))))"

end
