(* ===== verification/FsCalls_Correct.thy ===== *)
theory FsCalls_Correct
  imports FsCalls Mount_Correct
begin

text \<open>
  The calls that change the tree return, and leave it well-formed: \<open>ok c s Q\<close> says that the call \<open>c\<close> returns
  from \<open>s\<close> in a state with a well-formed tree, and that \<open>Q\<close> holds of its result if it is no error. Every step
  of the handlers has a rule for it, and the rule for a handler follows its text.
\<close>

section \<open>Walks down the tree end\<close>

lemma need_list:
  fixes s :: fs
  assumes "\<And>c. c \<in> set cs \<Longrightarrow> \<forall>r s. nodes s = N \<longrightarrow> (\<exists>l i rc. need_all (c # r) s = need_all r (s\<lparr>log := l, recent := rc, recent_i := i\<rparr>))"
    and "nodes s = N"
  shows "\<exists>l i rc. need_all (cs @ r) s = need_all r (s\<lparr>log := l, recent := rc, recent_i := i\<rparr>)"
  using assms
proof (induction cs arbitrary: s)
  case Nil
  show ?case by (intro exI [of _ "log s"] exI [of _ "recent_i s"] exI [of _ "recent s"]) simp
next
  case (Cons c cs)
  have "\<forall>r s. nodes s = N \<longrightarrow> (\<exists>l i rc. need_all (c # r) s = need_all r (s\<lparr>log := l, recent := rc, recent_i := i\<rparr>))" by (rule Cons.prems) simp
  then obtain l i rc where "need_all (c # cs @ r) s = need_all (cs @ r) (s\<lparr>log := l, recent := rc, recent_i := i\<rparr>)" using Cons.prems(2) by blast
  moreover have "\<exists>l' i' rc'. need_all (cs @ r) (s\<lparr>log := l, recent := rc, recent_i := i\<rparr>) =
      need_all r (s\<lparr>log := l, recent := rc, recent_i := i\<rparr>\<lparr>log := l', recent := rc', recent_i := i'\<rparr>)"
    using Cons.prems by (intro Cons.IH) auto
  ultimately show ?case by auto
qed

lemma fs_need_eq: "\<exists>l i rc. fs_need n s = s\<lparr>log := l, recent := rc, recent_i := i\<rparr>"
proof (cases n)
  case None
  then show ?thesis by (intro exI [of _ "log s"] exI [of _ "recent_i s"] exI [of _ "recent s"]) (simp add: fs_need_def)
next
  case (Some a)
  then show ?thesis
    by (intro exI [of _ "if lazy (nodes s a) \<noteq> 0 then Lazy_Load a # log s else log s"] exI [of _ "recent_i s + 1"]
        exI [of _ "(recent s)[recent_i s mod 8 := Some a]"]) (simp add: fs_need_def say_def Let_def)
qed

lemma need_one:
  assumes wf: "fs_wf st" and n: "live (nodes st n)"
  shows "\<forall>r (s :: fs). nodes s = nodes st \<longrightarrow> (\<exists>l i rc. need_all (n # r) s = need_all r (s\<lparr>log := l, recent := rc, recent_i := i\<rparr>))"
  using wf _ n
proof (rule kids_induct)
  fix n assume IH: "\<And>c. c \<in> set (kids (nodes st n)) \<Longrightarrow>
    \<forall>r (s :: fs). nodes s = nodes st \<longrightarrow> (\<exists>l i rc. need_all (c # r) s = need_all r (s\<lparr>log := l, recent := rc, recent_i := i\<rparr>))"
  show "\<forall>r (s :: fs). nodes s = nodes st \<longrightarrow> (\<exists>l i rc. need_all (n # r) s = need_all r (s\<lparr>log := l, recent := rc, recent_i := i\<rparr>))"
  proof (intro allI impI)
    fix r and s :: fs assume s: "nodes s = nodes st"
    obtain l i rc where e: "fs_need (Some n) s = s\<lparr>log := l, recent := rc, recent_i := i\<rparr>" using fs_need_eq by blast
    let ?s1 = "s\<lparr>log := l, recent := rc, recent_i := i\<rparr>"
    have "\<exists>l' i' rc'. need_all ((if ntype (nodes s n) = FS_DIR then kids (nodes s n) else []) @ r) ?s1 =
        need_all r (?s1\<lparr>log := l', recent := rc', recent_i := i'\<rparr>)"
      using IH s by (intro need_list [of _ "nodes st"]) (auto split: if_splits)
    then show "\<exists>l i rc. need_all (n # r) s = need_all r (s\<lparr>log := l, recent := rc, recent_i := i\<rparr>)"
      by (subst need_all.simps) (auto simp: e)
  qed
qed

lemma need_tree_ends:
  assumes "fs_wf st" "live (nodes st n)" "nodes s = nodes st"
  shows "\<exists>l i rc. fs_need_tree n s = Some (s\<lparr>log := l, recent := rc, recent_i := i\<rparr>)"
proof -
  from need_one [OF assms(1,2)] assms(3) obtain l i rc where "need_all [n] s = need_all [] (s\<lparr>log := l, recent := rc, recent_i := i\<rparr>)" by blast
  then show ?thesis by (auto simp: fs_need_tree_def need_all.simps)
qed

lemma up_live:
  assumes wf: "fs_wf st" and n: "live (nodes st n)" and u: "up P (Some n) st = Some (Some a)"
  shows "live (nodes st a) \<and> P a"
proof -
  obtain r where r: "ranked r st" using wf by (auto simp: fs_wf_def)
  from n u show ?thesis
  proof (induction "r n" arbitrary: n rule: less_induct)
    case less
    show ?case
    proof (cases "P n")
      case True
      then show ?thesis using less.prems by (auto simp: up.simps [of P "Some n"])
    next
      case False
      then obtain p where p: "nparent (nodes st n) = Some p"
        using less.prems by (cases "nparent (nodes st n)") (auto simp: up.simps [of P "Some n"] up.simps [of P None])
      have "r p < r n" using r p less.prems(1) unfolding ranked_def by blast
      then show ?thesis using less.hyps [of p] wf_par(1) [OF wf less.prems(1) p] less.prems(2) False p by (simp add: up.simps [of P "Some n"])
    qed
  qed
qed

lemma wf_up: "fs_wf st \<Longrightarrow> live (nodes st n) \<Longrightarrow> \<exists>m. up P (Some n) st = Some m"
  using up_ends unfolding fs_wf_def by blast

lemma map_up:
  assumes "fs_wf st" "live (nodes st n)"
  shows "\<exists>y. map_option g (up P (Some n) st) = Some y"
proof -
  obtain m where "up P (Some n) st = Some m" using wf_up [OF assms] by blast
  then show ?thesis by simp
qed

lemma mnt_find_ends:
  assumes wf: "fs_wf (vf v)" and n: "live (nodes (vf v) n)"
  shows "\<exists>f. mnt_find (Some n) v = Some f \<and> (\<forall>i. f = Some i \<longrightarrow> (\<exists>a. mat (tab v ! i) = Some a \<and> live (nodes (vf v) a)))"
proof -
  obtain m where m: "up (\<lambda>a. find_at a v \<noteq> None) (Some n) (vf v) = Some m" using wf_up [OF wf n] by blast
  show ?thesis
  proof (cases m)
    case None
    then show ?thesis using m by (simp add: mnt_find_def)
  next
    case (Some a)
    have la: "live (nodes (vf v) a) \<and> find_at a v \<noteq> None" using up_live [OF wf n] m Some by blast
    then obtain i where "find_at a v = Some i" by auto
    then show ?thesis using m Some la by (auto simp: mnt_find_def find_at_def first_idx_Some)
  qed
qed

lemma mnt_newnode_ends:
  assumes wf: "fs_wf (vf v)" and n: "live (nodes (vf v) n)"
  shows "\<exists>r t. mnt_newnode n v = Some (r, v\<lparr>tab := t\<rparr>)"
proof -
  obtain f where f: "mnt_find (Some n) v = Some f" "\<forall>i. f = Some i \<longrightarrow> (\<exists>a. mat (tab v ! i) = Some a \<and> live (nodes (vf v) a))"
    using mnt_find_ends [OF wf n] by blast
  have id: "v = v\<lparr>tab := tab v\<rparr>" by simp
  show ?thesis
  proof (cases f)
    case None
    then have "mnt_newnode n v = Some (0, v)" using f(1) by (simp add: mnt_newnode_def)
    then show ?thesis using id by metis
  next
    case (Some i)
    then obtain a where a: "mat (tab v ! i) = Some a" "live (nodes (vf v) a)" using f(2) by blast
    obtain sz c where "walk a (vf v) = Some (sz, c)" using walk_ends [OF wf a(2)] by blast
    then have "recount i v = Some (v\<lparr>tab := (tab v)[i := (tab v ! i)\<lparr>used_b := sz, cnt := c, added := 0\<rparr>]\<rparr>)"
      using a by (simp add: recount_def upd_mnt_def)
    then have "(\<exists>r. mnt_newnode n v = Some (r, v)) \<or> (\<exists>r t. mnt_newnode n v = Some (r, v\<lparr>tab := t\<rparr>))"
      using f(1) Some by (cases "mro (tab v ! i) \<or> mkind (tab v ! i) \<noteq> K_TMP \<or> nino (tab v ! i) = 0") (auto simp: mnt_newnode_def Let_def)
    then show ?thesis using id by metis
  qed
qed

section \<open>Rules for calls\<close>

definition sys_ok :: "sys \<Rightarrow> bool" where "sys_ok s \<longleftrightarrow> fs_wf (tree s) \<and> plain (tree s)"

definition ok :: "'r call \<Rightarrow> sys \<Rightarrow> ('r \<Rightarrow> sys \<Rightarrow> bool) \<Rightarrow> bool" where
  "ok c s Q \<longleftrightarrow> (\<exists>r s1. c s = Some (r, s1) \<and> sys_ok s1 \<and> (\<forall>x. r = Inr x \<longrightarrow> Q x s1))"

text \<open>The tree is as it was; time stamps of the cache, the table and the events may differ.\<close>

definition eqt :: "sys \<Rightarrow> sys \<Rightarrow> bool" where
  "eqt s s1 \<longleftrightarrow> nodes (tree s1) = nodes (tree s) \<and> root (tree s1) = root (tree s) \<and> proot (tree s1) = proot (tree s)"

lemma eqt_refl [simp]: "eqt s s" by (simp add: eqt_def)

lemma ok_ret: "sys_ok s \<Longrightarrow> Q x s \<Longrightarrow> ok (ret x) s Q" by (simp add: ok_def ret_def)

lemma ok_fail: "sys_ok s \<Longrightarrow> ok (fail e) s Q" by (simp add: ok_def fail_def)

lemma ok_andt:
  assumes "ok m s P" "\<And>x s1. sys_ok s1 \<Longrightarrow> P x s1 \<Longrightarrow> ok (f x) s1 Q"
  shows "ok (andt m f) s Q"
proof -
  from assms(1) obtain r s1 where r: "m s = Some (r, s1)" "sys_ok s1" "\<forall>x. r = Inr x \<longrightarrow> P x s1" by (auto simp: ok_def)
  show ?thesis
  proof (cases r)
    case (Inl e)
    then show ?thesis using r by (simp add: ok_def andt_def)
  next
    case (Inr x)
    then show ?thesis using r assms(2) [of s1 x] by (simp add: ok_def andt_def)
  qed
qed

lemma ok_mono: "ok c s P \<Longrightarrow> (\<And>x s1. sys_ok s1 \<Longrightarrow> P x s1 \<Longrightarrow> Q x s1) \<Longrightarrow> ok c s Q"
  by (auto simp: ok_def)

lemma ok_ask: "sys_ok s \<Longrightarrow> g s = Some x \<Longrightarrow> Q x s \<Longrightarrow> ok (ask g) s Q"
  by (simp add: ok_def ask_def)

lemma ok_stop_if: "sys_ok s \<Longrightarrow> (\<not> b \<Longrightarrow> Q () s) \<Longrightarrow> ok (stop_if b e) s Q"
  by (simp add: stop_if_def ok_ret ok_fail)

lemma ok_tell:
  assumes "sys_ok s"
  shows "ok (tell e) s (\<lambda>_ s1. eqt s s1 \<and> kv s1 = kv s)"
  using assms by (simp add: ok_def tell_def sys_ok_def tree_def eqt_def)

lemma ok_on_tree:
  assumes "f ((tree s)\<lparr>ro := \<lambda>i. mnt_ro_id i (kv s)\<rparr>) = Some (r, st)" "fs_wf st" "plain st"
    "\<And>s1. tree s1 = st \<Longrightarrow> Q r s1"
  shows "ok (on_tree f) s Q"
  using assms by (simp add: ok_def on_tree_def sys_ok_def tree_def)

lemma ro_wf [simp]: "fs_wf (st\<lparr>ro := f\<rparr>) = fs_wf st" "plain (st\<lparr>ro := f\<rparr>) = plain st"
proof -
  have "same_tree st (st\<lparr>ro := f\<rparr>)" "same_tree (st\<lparr>ro := f\<rparr>) st" by (simp_all add: same_tree_def)
  then show "fs_wf (st\<lparr>ro := f\<rparr>) = fs_wf st" using same_tree_wf by blast
qed (simp add: plain_def)

lemma find_child_ro [simp]: "find_child d nm (st\<lparr>ro := f\<rparr>) = find_child d nm st"
  by (simp add: find_child_def split: option.split)

lemma place_ro [simp]: "place (st\<lparr>ro := f\<rparr>) d nm = place st d nm"
  by (simp add: place_def)

lemma kept_plain: "kept st st' \<Longrightarrow> plain st \<Longrightarrow> plain st'"
  by (auto simp: kept_def plain_def)

lemma dropped_plain: "dropped n st st' \<Longrightarrow> plain st \<Longrightarrow> plain st'"
  by (auto simp: dropped_def plain_def)

lemma need_plain: "plain st \<Longrightarrow> plain (fs_need n st)"
  by (simp add: plain_def)

section \<open>Lookups\<close>

text \<open>The process: its directory and its open files are in memory.\<close>

definition good :: "fs \<Rightarrow> nat \<Rightarrow> bool" where "good st n \<longleftrightarrow> live (nodes st n) \<and> hl (nodes st n) = None"

definition me_ok :: "me \<Rightarrow> fs \<Rightarrow> bool" where
  "me_ok m st \<longleftrightarrow> good st (cwd m) \<and>
     (\<forall>i f. fds m i = Some f \<longrightarrow> (\<forall>n. fd_node f = Some n \<longrightarrow> good st n) \<and> (\<forall>d. fd_dent f = Some d \<longrightarrow> good st d))"

lemma eqt_good: "eqt s s1 \<Longrightarrow> good (tree s1) n = good (tree s) n" "eqt s s1 \<Longrightarrow> me_ok m (tree s1) = me_ok m (tree s)"
  by (simp_all add: eqt_def good_def me_ok_def)

lemma ok_dir_base:
  assumes "sys_ok s" "me_ok m (tree s)"
  shows "ok (dir_base m dirfd p) s (\<lambda>b s1. s1 = s \<and> good (tree s) b)"
proof (cases "is_abs p \<or> dirfd = AT_FDCWD")
  case True
  then show ?thesis using assms by (simp add: ok_def dir_base_def ret_def me_ok_def)
next
  case False
  have al: "fs_alias d (tree s) = d" if "good (tree s) d" for d
    using that assms(1) by (simp add: sys_ok_def plain_def fs_alias_def good_def)
  show ?thesis
    using False assms al
    by (auto simp: ok_def dir_base_def ret_def fail_def me_ok_def split: option.splits if_splits)
qed

lemma ok_refresh:
  assumes "sys_ok s" "good (tree s) b"
  shows "ok (maybe_refresh_proc b p) s (\<lambda>_ s1. eqt s s1 \<and> kv s1 = kv s)"
proof -
  have "\<exists>x. in_procfs b (tree s) = Some x"
    unfolding in_procfs_def by (rule map_up) (use assms in \<open>simp_all add: sys_ok_def good_def\<close>)
  then obtain x where "in_procfs b (tree s) = Some x" by blast
  then have "ok (ask (\<lambda>s. if is_abs p then Some (take 5 p = ''/proc'') else in_procfs b (tree s))) s (\<lambda>_ s1. s1 = s)"
    using assms(1) by (cases "is_abs p") (auto intro: ok_ask)
  then show ?thesis unfolding maybe_refresh_proc_def
    by (rule ok_andt) (use assms(1) ok_tell in \<open>auto intro: ok_ret\<close>)
qed

lemma ok_with_base:
  assumes s: "sys_ok s" "me_ok m (tree s)"
    and f: "\<And>b p s1. sys_ok s1 \<Longrightarrow> eqt s s1 \<Longrightarrow> good (tree s) b \<Longrightarrow> ok (f b p) s1 (\<lambda>n s2. eqt s s2 \<and> (\<forall>a. n = Some a \<longrightarrow> Q a))"
  shows "ok (with_base m dirfd path f) s (\<lambda>a s2. eqt s s2 \<and> Q a)"
proof (cases "path = None \<or> path = Some []")
  case True
  then show ?thesis using s by (auto simp: with_base_def intro: ok_fail)
next
  case False
  then obtain p where p: "path = Some p" "p \<noteq> []" by auto
  have "ok (andt (dir_base m dirfd p) (\<lambda>b. andt (maybe_refresh_proc b p)
      (\<lambda>_. andt (f b p) (\<lambda>n. case n of Some a \<Rightarrow> ret a | None \<Rightarrow> fail ENOENT)))) s (\<lambda>a s2. eqt s s2 \<and> Q a)"
  proof (rule ok_andt [OF ok_dir_base [OF s]], rule ok_andt [OF ok_refresh])
    fix b s1 y s2 assume a: "sys_ok s1" "s1 = s \<and> good (tree s) b" "sys_ok s2" "eqt s1 s2 \<and> kv s2 = kv s1"
    show "ok (andt (f b p) (\<lambda>n. case n of Some a \<Rightarrow> ret a | None \<Rightarrow> fail ENOENT)) s2 (\<lambda>a s2. eqt s s2 \<and> Q a)"
      by (rule ok_andt [OF f]) (use a in \<open>auto split: option.splits intro: ok_ret ok_fail\<close>)
  qed auto
  then show ?thesis using p by (simp add: with_base_def)
qed

lemma resolve_good:
  assumes "fs_wf st" "plain st" "good st b" "resolve st b p follow 0 False = Some n"
  shows "good st n"
  using resolve_live [OF assms(1,2) _ _ assms(4)] assms(3) by (auto simp: good_def)

lemma ok_resolve:
  assumes s: "sys_ok s1" "eqt s s1" "good (tree s) b"
  shows "ok (on_tree (\<lambda>st. Some (fs_resolve b p st))) s1 (\<lambda>n s2. eqt s s2 \<and> (\<forall>a. n = Some a \<longrightarrow> good (tree s) a))"
proof -
  let ?st = "(tree s1)\<lparr>ro := \<lambda>i. mnt_ro_id i (kv s1)\<rparr>"
  let ?n = "resolve ?st b p True 0 False"
  have w: "fs_wf ?st" "plain ?st" using s(1) by (simp_all add: sys_ok_def)
  have e: "good ?st a = good (tree s) a" for a using s(2) by (simp add: eqt_def good_def)
  have g: "good (tree s) a" if "?n = Some a" for a using resolve_good [OF w _ that] s(3) by (simp add: e)
  show ?thesis
  proof (rule ok_on_tree [of _ _ ?n "fs_need ?n ?st"])
    show "Some (fs_resolve b p ?st) = Some (?n, fs_need ?n ?st)" by (simp add: fs_resolve_def Let_def)
    show "fs_wf (fs_need ?n ?st)" "plain (fs_need ?n ?st)" using need_wf [OF w(1)] need_plain [OF w(2)] by blast+
    fix s2 assume "tree s2 = fs_need ?n ?st"
    then show "eqt s s2 \<and> (\<forall>a. ?n = Some a \<longrightarrow> good (tree s) a)" using s(2) g by (simp add: eqt_def)
  qed
qed

lemma ok_lookup:
  assumes s: "sys_ok s" "me_ok m (tree s)"
  shows "ok (lookup m dirfd path) s (\<lambda>a s2. eqt s s2 \<and> good (tree s) a)"
  unfolding lookup_def lookup_ex_def
proof (rule ok_with_base [OF s])
  fix b p s1 assume a: "sys_ok s1" "eqt s s1" "good (tree s) b"
  then show "ok (on_tree (\<lambda>st. Some (if True then fs_resolve b p st else fs_resolve_nf b p st))) s1 (\<lambda>n s2. eqt s s2 \<and> (\<forall>a. n = Some a \<longrightarrow> good (tree s) a))"
    using ok_resolve [OF a] by simp
qed

lemma ok_lookup_peek:
  assumes s: "sys_ok s" "me_ok m (tree s)"
  shows "ok (lookup_peek m dirfd path follow) s (\<lambda>a s2. eqt s s2 \<and> good (tree s) a)"
  unfolding lookup_peek_def
proof (rule ok_with_base [OF s])
  fix b p s1 assume a: "sys_ok s1" "eqt s s1" "good (tree s) b"
  have w: "fs_wf (tree s1)" "plain (tree s1)" using a(1) by (simp_all add: sys_ok_def)
  have g: "good (tree s) n" if "resolve (tree s1) b p follow 0 False = Some n" for n
    using resolve_good [OF w _ that] a(2,3) by (simp add: eqt_good)
  show "ok (ask (\<lambda>s. Some (fs_peek b p follow (tree s)))) s1 (\<lambda>n s2. eqt s s2 \<and> (\<forall>a. n = Some a \<longrightarrow> good (tree s) a))"
    by (rule ok_ask [OF a(1) refl]) (use g a(2) in \<open>simp add: fs_peek_def\<close>)
qed

lemma ok_lookup_dent:
  assumes s: "sys_ok s" "me_ok m (tree s)"
  shows "ok (lookup_dent m dirfd path) s (\<lambda>a s2. eqt s s2 \<and> live (nodes (tree s) a))"
  unfolding lookup_dent_def
proof (rule ok_with_base [OF s])
  fix b p s1 assume a: "sys_ok s1" "eqt s s1" "good (tree s) b"
  have g: "live (nodes (tree s1) b)" "hl (nodes (tree s1) b) = None" using a(2,3) by (simp_all add: eqt_def good_def)
  have w: "fs_wf (tree s1)" "plain (tree s1)" using a(1) by (simp_all add: sys_ok_def)
  show "ok (ask (\<lambda>s. Some (fs_peek_d b p (tree s)))) s1 (\<lambda>n s2. eqt s s2 \<and> (\<forall>a. n = Some a \<longrightarrow> live (nodes (tree s) a)))"
    by (rule ok_ask [OF a(1) refl]) (use resolve_live(1) [OF w g] a(2) in \<open>auto simp: fs_peek_d_def eqt_def\<close>)
qed

text \<open>A path that has a last name: it is more than slashes.\<close>

definition proper :: "string option \<Rightarrow> bool" where
  "proper path \<longleftrightarrow> (case path of None \<Rightarrow> True | Some p \<Rightarrow> p = [] \<or> (\<exists>c\<in>set p. c \<noteq> CHR ''/''))"

text \<open>A parent directory with the last name of the path, which has no slash and fits.\<close>

definition dir_for :: "fs \<Rightarrow> nat \<Rightarrow> string \<Rightarrow> bool" where
  "dir_for st d nm \<longleftrightarrow> good st d \<and> ntype (nodes st d) = FS_DIR \<and> CHR ''/'' \<notin> set nm \<and> length nm < FS_NAME_MAX \<and> nm \<noteq> []"

lemma strip_name:
  assumes "\<exists>c\<in>set p. c \<noteq> CHR ''/''"
  shows "(case last_slash (strip p) of None \<Rightarrow> strip p | Some i \<Rightarrow> drop (i + 1) (strip p)) \<noteq> []"
proof -
  have ne: "dropWhile (\<lambda>c. c = CHR ''/'') (rev p) \<noteq> []" using assms by auto
  then have e: "strip p = rev (dropWhile (\<lambda>c. c = CHR ''/'') (rev p))" unfolding strip_def Let_def by (simp only: rev_is_Nil_conv if_False)
  have "last (strip p) \<noteq> CHR ''/''" unfolding e last_rev using hd_dropWhile [OF ne] by simp
  moreover have "strip p \<noteq> []" using ne e by simp
  moreover have "i + 1 < length (strip p)" if i: "last_slash (strip p) = Some i" for i
  proof (rule ccontr)
    assume "\<not> i + 1 < length (strip p)"
    then have "i = length (strip p) - 1" using last_slash_Some [OF i] by linarith
    then have "strip p ! i = last (strip p)" using \<open>strip p \<noteq> []\<close> by (simp add: last_conv_nth)
    then show False using last_slash_Some [OF i] \<open>last (strip p) \<noteq> CHR ''/''\<close> by simp
  qed
  ultimately show ?thesis by (auto split: option.split)
qed

lemma ok_lookup_parent:
  assumes s: "sys_ok s" "me_ok m (tree s)" and pr: "proper path"
  shows "ok (lookup_parent m dirfd path) s (\<lambda>(d, nm) s2. eqt s s2 \<and> dir_for (tree s) d nm)"
proof (cases path)
  case None
  then show ?thesis using s by (simp add: lookup_parent_def ok_fail)
next
  case (Some p)
  define t where "t = strip p"
  define base where "base = (case last_slash t of None \<Rightarrow> t | Some i \<Rightarrow> drop (i + 1) t)"
  have sl: "CHR ''/'' \<notin> set base"
    using last_slash_Some [of t] last_slash_None [of t] by (cases "last_slash t") (auto simp: base_def)
  have bn: "base \<noteq> []" if "p \<noteq> []"
    using strip_name [of p] pr that unfolding base_def t_def by (simp add: proper_def Some)
  define par where "par b = (case last_slash t of None \<Rightarrow> ret (Some b)
      | Some i \<Rightarrow> if i = 0 then ask (\<lambda>s. Some (Some (root (tree s)))) else on_tree (\<lambda>st. Some (fs_resolve b (take i t) st)))" for b
  have P: "ok (par b) s (\<lambda>n s2. eqt s s2 \<and> (\<forall>d. n = Some d \<longrightarrow> good (tree s) d))" if b: "good (tree s) b" for b
  proof (cases "last_slash t")
    case None
    then show ?thesis using s b by (simp add: par_def ok_ret)
  next
    case i: (Some i)
    have r: "good (tree s) (root (tree s))" using wf_root [of "tree s"] s(1) by (simp add: sys_ok_def good_def)
    have "ok (on_tree (\<lambda>st. Some (fs_resolve b (take i t) st))) s (\<lambda>n s2. eqt s s2 \<and> (\<forall>d. n = Some d \<longrightarrow> good (tree s) d))"
      by (rule ok_resolve [OF s(1) _ b]) simp
    then show ?thesis using i s(1) r by (auto simp: par_def intro: ok_ask)
  qed
  have "ok (andt (dir_base m dirfd p) (\<lambda>b. andt (par b) (\<lambda>par. case par of None \<Rightarrow> fail ENOENT
        | Some d \<Rightarrow> andt (ask (\<lambda>s. Some (ntype (nodes (tree s) d)))) (\<lambda>ty. if ty \<noteq> FS_DIR then fail ENOTDIR else ret (d, base))))) s
      (\<lambda>(d, nm) s2. eqt s s2 \<and> dir_for (tree s) d nm)" if len: "length base < FS_NAME_MAX" "p \<noteq> []"
  proof (rule ok_andt [OF ok_dir_base [OF s]])
    fix b s1 assume "s1 = s \<and> good (tree s) b"
    then have b: "s1 = s" "good (tree s) b" by simp_all
    show "ok (andt (par b) (\<lambda>par. case par of None \<Rightarrow> fail ENOENT
        | Some d \<Rightarrow> andt (ask (\<lambda>s. Some (ntype (nodes (tree s) d)))) (\<lambda>ty. if ty \<noteq> FS_DIR then fail ENOTDIR else ret (d, base)))) s1
      (\<lambda>(d, nm) s2. eqt s s2 \<and> dir_for (tree s) d nm)"
      unfolding b(1)
    proof (rule ok_andt [OF P [OF b(2)]])
    fix n s2 assume a: "sys_ok s2" "eqt s s2 \<and> (\<forall>d. n = Some d \<longrightarrow> good (tree s) d)"
    show "ok (case n of None \<Rightarrow> fail ENOENT
        | Some d \<Rightarrow> andt (ask (\<lambda>s. Some (ntype (nodes (tree s) d)))) (\<lambda>ty. if ty \<noteq> FS_DIR then fail ENOTDIR else ret (d, base))) s2
      (\<lambda>(d, nm) s2. eqt s s2 \<and> dir_for (tree s) d nm)"
    proof (cases n)
      case None
      then show ?thesis using a by (simp add: ok_fail)
    next
      case (Some d)
      have q: "ok (ask (\<lambda>s. Some (ntype (nodes (tree s) d)))) s2 (\<lambda>ty s3. s3 = s2 \<and> ty = ntype (nodes (tree s) d))"
        using a by (intro ok_ask) (simp_all add: eqt_def)
      have "ok (andt (ask (\<lambda>s. Some (ntype (nodes (tree s) d)))) (\<lambda>ty. if ty \<noteq> FS_DIR then fail ENOTDIR else ret (d, base))) s2
        (\<lambda>(d, nm) s2. eqt s s2 \<and> dir_for (tree s) d nm)"
        by (rule ok_andt [OF q]) (use Some a sl len bn in \<open>auto intro!: ok_fail ok_ret simp: dir_for_def\<close>)
      then show ?thesis using Some by simp
    qed
    qed
  qed
  then show ?thesis
    unfolding lookup_parent_def Some option.case Let_def t_def [symmetric] base_def [symmetric] par_def [symmetric]
    using ok_fail [OF s(1)] by (cases "p = [] \<or> 256 \<le> length p \<or> FS_NAME_MAX \<le> length base") auto
qed

section \<open>The calls\<close>

lemma ok_check_ro:
  assumes s: "sys_ok s" and n: "live (nodes (tree s) n)"
  shows "ok (check_ro n) s (\<lambda>_ s1. s1 = s)"
proof -
  obtain f where "mnt_find (Some n) (kv s) = Some f"
    using mnt_find_ends [of "kv s" n] s n unfolding sys_ok_def tree_def by blast
  then have "ok (ask (\<lambda>s. mnt_ro (Some n) (kv s))) s (\<lambda>_ s1. s1 = s)" using s by (intro ok_ask) (simp_all add: mnt_ro_def)
  then show ?thesis unfolding check_ro_def by (rule ok_andt) (auto intro: ok_stop_if)
qed

lemma ok_newnode:
  assumes s: "sys_ok s" and n: "live (nodes (tree s) n)"
  shows "ok (on_mnt (mnt_newnode n)) s (\<lambda>_ s1. eqt s s1)"
proof -
  obtain r t where "mnt_newnode n (kv s) = Some (r, (kv s)\<lparr>tab := t\<rparr>)"
    using mnt_newnode_ends [of "kv s" n] s n unfolding sys_ok_def tree_def by blast
  then show ?thesis using s by (simp add: ok_def on_mnt_def sys_ok_def tree_def eqt_def)
qed

lemma ok_owner:
  assumes s: "sys_ok s" and n: "\<And>a. n = Some a \<Longrightarrow> live (nodes (tree s) a)"
  shows "ok (ask_owner n) s (\<lambda>_ s1. s1 = s)"
proof (cases n)
  case None
  then show ?thesis using s by (auto simp: ask_owner_def fs_owner_def up.simps intro: ok_ask)
next
  case (Some a)
  have "\<exists>x. fs_owner (Some a) (tree s) = Some x"
    unfolding fs_owner_def by (rule map_up) (use s n Some in \<open>simp_all add: sys_ok_def\<close>)
  then show ?thesis using s Some by (auto simp: ask_owner_def intro: ok_ask)
qed

lemma ok_has_child:
  assumes "sys_ok s"
  shows "ok (has_child d nm) s (\<lambda>b s1. s1 = s \<and> b = (find_child (Some d) nm (tree s) \<noteq> None))"
  unfolding has_child_def by (rule ok_ask [OF assms refl]) (simp add: fs_child_def)

lemma ok_set_node:
  assumes s: "sys_ok s" and f: "flat f" "\<And>x. bnd (f x) = bnd x"
  shows "ok (set_node n f) s (\<lambda>_ _. True)"
  unfolding set_node_def
proof (rule ok_on_tree [of _ _ "()" "upd n f ((tree s)\<lparr>ro := \<lambda>i. mnt_ro_id i (kv s)\<rparr>)"])
  have w: "fs_wf ((tree s)\<lparr>ro := \<lambda>i. mnt_ro_id i (kv s)\<rparr>)" "plain ((tree s)\<lparr>ro := \<lambda>i. mnt_ro_id i (kv s)\<rparr>)" using s by (simp_all add: sys_ok_def)
  show "fs_wf (upd n f ((tree s)\<lparr>ro := \<lambda>i. mnt_ro_id i (kv s)\<rparr>))" by (rule upd_wf [OF w(1) f(1)])
  show "plain (upd n f ((tree s)\<lparr>ro := \<lambda>i. mnt_ro_id i (kv s)\<rparr>))"
    by (rule kept_plain [OF kept_upd [OF kept_refl] w(2)]) (use f in \<open>simp add: flat_def\<close>)
qed simp_all

lemma place_for: "dir_for st d nm \<Longrightarrow> find_child (Some d) nm st = None \<Longrightarrow> place st d nm"
  by (auto simp: dir_for_def place_def good_def good_name_def find_child_def split: option.splits)

lemma split_plain: "CHR ''/'' \<notin> set nm \<Longrightarrow> length nm < FS_NAME_MAX \<Longrightarrow> split_dir_base nm = Some ([], nm)"
  using last_slash_None [of nm] by (simp add: split_dir_base_def)

lemma ok_create:
  assumes s: "sys_ok s" and d: "dir_for (tree s) d nm"
  shows "ok (on_tree (fs_create d nm ty)) s (\<lambda>_ _. True)"
proof -
  let ?st = "(tree s)\<lparr>ro := \<lambda>i. mnt_ro_id i (kv s)\<rparr>"
  have w: "fs_wf ?st" "plain ?st" using s by (simp_all add: sys_ok_def)
  have g: "live (nodes ?st d)" "hl (nodes ?st d) = None" using d by (simp_all add: dir_for_def good_def)
  have sp: "split_dir_base nm = Some ([], nm)" "nm \<noteq> []" using d split_plain by (simp_all add: dir_for_def)
  obtain r st' where "fs_create d nm ty ?st = Some (r, st')" "fs_wf st'" "kept ?st st'" using fs_create_wf [OF w g sp] by blast
  then show ?thesis using kept_plain [OF _ w(2)] by (intro ok_on_tree) auto
qed

lemma ok_symlink:
  assumes s: "sys_ok s" and p: "place (tree s) d nm"
  shows "ok (on_tree (fs_symlink mem (Some d) nm tg)) s (\<lambda>_ _. True)"
proof -
  let ?st = "(tree s)\<lparr>ro := \<lambda>i. mnt_ro_id i (kv s)\<rparr>"
  have w: "fs_wf ?st" "plain ?st" using s by (simp_all add: sys_ok_def)
  have g: "live (nodes ?st d)" "hl (nodes ?st d) = None" "good_name nm" using p by (simp_all add: place_def)
  obtain r st' where "fs_symlink mem (Some d) nm tg ?st = Some (r, st')" "fs_wf st'" "kept ?st st'" using fs_symlink_wf [OF w(1) g] by blast
  then show ?thesis using kept_plain [OF _ w(2)] by (intro ok_on_tree) auto
qed

lemma ok_hlink:
  assumes s: "sys_ok s" and p: "place (tree s) d nm" and t: "good (tree s) t" "ntype (nodes (tree s) t) \<noteq> FS_DIR"
  shows "ok (on_tree (fs_hlink t d nm)) s (\<lambda>_ _. True)"
proof -
  let ?st = "(tree s)\<lparr>ro := \<lambda>i. mnt_ro_id i (kv s)\<rparr>"
  have w: "fs_wf ?st" "plain ?st" using s by (simp_all add: sys_ok_def)
  have g: "place ?st d nm" "live (nodes ?st t)" "hl (nodes ?st t) = None" "ntype (nodes ?st t) \<noteq> FS_DIR"
    using p t by (simp_all add: good_def)
  obtain r st' where "fs_hlink t d nm ?st = Some (r, st')" "fs_wf st'" "kept ?st st'" using fs_hlink_wf [OF w(1) g] by blast
  then show ?thesis using kept_plain [OF _ w(2)] by (intro ok_on_tree) auto
qed

lemma dir_for_live: "dir_for st d nm \<Longrightarrow> live (nodes st d)" by (simp add: dir_for_def good_def)

lemma eqt_dir: "eqt s s1 \<Longrightarrow> dir_for (tree s1) d nm = dir_for (tree s) d nm"
  "eqt s s1 \<Longrightarrow> live (nodes (tree s1) d) = live (nodes (tree s) d)"
  "eqt s s1 \<Longrightarrow> find_child (Some d) nm (tree s1) = find_child (Some d) nm (tree s)"
  by (simp_all add: eqt_def dir_for_def good_def find_child_def)

lemma ok_any_tell: "sys_ok s \<Longrightarrow> ok (tell e) s (\<lambda>_ _. True)"
  by (rule ok_mono [OF ok_tell]) simp_all

text \<open>A failed lookup leaves the tree alone as well.\<close>

definition keeps :: "'r call \<Rightarrow> bool" where "keeps c \<longleftrightarrow> (\<forall>s r s1. c s = Some (r, s1) \<longrightarrow> eqt s s1)"

lemma keeps_basic: "keeps (ret x)" "keeps (fail e)" "keeps (ask g)" "keeps (tell ev)" "keeps (dir_base m dirfd p)"
  by (auto simp: keeps_def ret_def fail_def ask_def tell_def dir_base_def eqt_def tree_def split: if_splits option.splits)

lemma keeps_andt:
  assumes "keeps c" "\<And>x. keeps (f x)"
  shows "keeps (andt c f)"
  using assms unfolding keeps_def andt_def by (fastforce simp: eqt_def split: option.splits sum.splits)

lemma keeps_resolve: "keeps (on_tree (\<lambda>st. Some (if follow then fs_resolve b p st else fs_resolve_nf b p st)))"
  by (auto simp: keeps_def on_tree_def eqt_def tree_def fs_resolve_def fs_resolve_nf_def Let_def)

lemma keeps_lookup: "keeps (lookup m dirfd path)"
  unfolding lookup_def lookup_ex_def with_base_def maybe_refresh_proc_def
  by (auto intro!: keeps_andt keeps_basic keeps_resolve [of True, simplified] split: option.split)

lemma resolve_loop_slashes: "set p \<subseteq> {CHR ''/''} \<Longrightarrow> resolve_loop st f d k cur [] p = Some cur"
  by (induction p) (simp_all add: resolve_loop.simps [of _ _ _ _ _ _ "[]"] resolve_loop.simps [of _ _ _ _ _ _ "_ # _"] is_abs_def)

text \<open>A path of slashes is the root, which \<open>mkdir\<close> finds.\<close>

lemma lookup_slashes:
  assumes "\<not> proper path"
  shows "\<exists>n s1. lookup m dirfd path s = Some (Inr n, s1)"
proof -
  obtain p where p: "path = Some p" "p \<noteq> []" "set p \<subseteq> {CHR ''/''}" using assms by (auto simp: proper_def split: option.splits)
  have a: "is_abs p" using p(2,3) by (cases p) (auto simp: is_abs_def)
  have "set (take 5 p) \<subseteq> {CHR ''/''}" using p(3) set_take_subset [of 5 p] by blast
  then have q: "take 5 p \<noteq> ''/proc''" by auto
  have "set (skip_abs p) \<subseteq> {CHR ''/''}" using p(3) a by (cases p) (auto simp: skip_abs_def)
  then have "resolve st b p True 0 False = Some (the_root st)" for b st
    using p(2) a resolve_loop_slashes by (simp add: resolve_def start_of_def)
  then show ?thesis using p(1,2) a q
    by (simp add: lookup_def lookup_ex_def with_base_def andt_def dir_base_def ret_def maybe_refresh_proc_def ask_def on_tree_def fs_resolve_def Let_def)
qed

lemma ok_mkdir:
  assumes s: "sys_ok s" "me_ok m (tree s)"
  shows "ok (do_mkdir m dirfd path mode) s (\<lambda>_ _. True)"
proof (cases "proper path")
  case False
  then obtain n s1 where "lookup m dirfd path s = Some (Inr n, s1)" using lookup_slashes by blast
  then show ?thesis using ok_lookup [OF s, of dirfd path] by (auto simp: ok_def do_mkdir_def fail_def)
next
  case pr: True
  obtain r s1 where l: "lookup m dirfd path s = Some (r, s1)" "sys_ok s1"
    using ok_lookup [OF s, of dirfd path] unfolding ok_def by blast
  then have e: "eqt s s1" using keeps_lookup unfolding keeps_def by blast
  then have m1: "me_ok m (tree s1)" using s(2) by (simp add: eqt_good)
  have "ok (andt (lookup_parent m dirfd path) (\<lambda>(par, name). andt (check_ro par) (\<lambda>_. andt (on_mnt (mnt_newnode par)) (\<lambda>_.
      andt (on_tree (fs_create par name FS_DIR)) (\<lambda>no. case no of None \<Rightarrow> fail EEXIST
        | Some n \<Rightarrow> andt (set_node n (\<lambda>x. x\<lparr>nmode := new_mode m 12 mode\<rparr>)) (\<lambda>_. tell (Ino_Node n 0x100))))))) s1 (\<lambda>_ _. True)"
    by (rule ok_andt [OF ok_lookup_parent [OF l(2) m1 pr]], clarify)
      (rule ok_andt [OF ok_check_ro], assumption, simp add: eqt_dir dir_for_live, simp only:,
        rule ok_andt [OF ok_newnode], assumption, simp add: eqt_dir dir_for_live,
        rule ok_andt [OF ok_create], assumption, simp add: eqt_dir,
        auto split: option.split intro!: ok_fail ok_andt [OF ok_set_node] ok_any_tell simp: flat_def)
  then show ?thesis using l by (cases r) (auto simp: ok_def do_mkdir_def fail_def)
qed

text \<open>The checks before a new name.\<close>

lemma ok_new_name:
  assumes s: "sys_ok s" and d: "dir_for (tree s) par name"
    and c: "\<And>s2. sys_ok s2 \<Longrightarrow> eqt s s2 \<Longrightarrow> place (tree s2) par name \<Longrightarrow> ok c s2 Q"
  shows "ok (andt (has_child par name) (\<lambda>b. andt (stop_if b EEXIST) (\<lambda>_. andt (check_ro par) (\<lambda>_. andt (on_mnt (mnt_newnode par)) (\<lambda>_. c))))) s Q"
proof (rule ok_andt [OF ok_has_child [OF s]], clarify,
    rule ok_andt [OF ok_stop_if [where Q = "\<lambda>_ s2. s2 = s \<and> find_child (Some par) name (tree s) = None"]], rule s, simp, clarify,
    rule ok_andt [OF ok_check_ro [OF s dir_for_live [OF d]]], simp only:, rule ok_andt [OF ok_newnode [OF s dir_for_live [OF d]]])
  fix s2 assume f: "find_child (Some par) name (tree s) = None" "sys_ok s2" "eqt s s2"
  have "place (tree s2) par name" using f d by (intro place_for) (simp_all add: eqt_dir)
  then show "ok c s2 Q" using c f by blast
qed

lemma ok_sys_symlink:
  assumes s: "sys_ok s" "me_ok m (tree s)" and pr: "proper path"
  shows "ok (sys_symlink m mem target dirfd path) s (\<lambda>_ _. True)"
proof (cases target)
  case None
  then show ?thesis using s by (simp add: sys_symlink_def ok_fail)
next
  case (Some tg)
  then show ?thesis unfolding sys_symlink_def
    by (auto intro!: ok_andt [OF ok_lookup_parent [OF s pr]] ok_new_name ok_andt [OF ok_symlink] ok_fail ok_any_tell simp: eqt_dir split: option.split)
qed

lemma place_dir_for: "place st d nm \<Longrightarrow> dir_for st d nm"
  by (simp add: place_def dir_for_def good_def good_name_def)

lemma ok_sys_mknod:
  assumes s: "sys_ok s" "me_ok m (tree s)" and pr: "proper path"
  shows "ok (sys_mknod m dirfd path md) s (\<lambda>_ _. True)"
  unfolding sys_mknod_def
  by (auto intro!: ok_andt [OF ok_lookup_parent [OF s pr]] ok_new_name ok_andt [OF ok_create] ok_andt [OF ok_set_node] ok_fail [OF s(1)] ok_fail ok_any_tell
      simp: eqt_dir place_dir_for flat_def split: option.split)

lemma ok_stop: "sys_ok s \<Longrightarrow> (\<not> b \<Longrightarrow> ok c s Q) \<Longrightarrow> ok (andt (stop_if b e) (\<lambda>_. c)) s Q"
  by (rule ok_andt [OF ok_stop_if [where Q = "\<lambda>_ s2. s2 = s \<and> \<not> b"]]) auto

lemma ok_ask_then:
  assumes "sys_ok s" "g s = Some x" "ok (f x) s Q"
  shows "ok (andt (ask g) f) s Q"
proof (rule ok_andt)
  show "ok (ask g) s (\<lambda>y s2. s2 = s \<and> y = x)" using assms(1,2) by (intro ok_ask) auto
qed (use assms in auto)

lemma ok_then_same:
  assumes "ok c s (\<lambda>_ s1. s1 = s)" "\<And>x. ok (f x) s Q"
  shows "ok (andt c f) s Q"
  by (rule ok_andt [OF assms(1)]) (use assms(2) in simp)

lemma ok_do_link:
  assumes s: "sys_ok s" "me_ok m (tree s)" and pr: "proper to'"
  shows "ok (do_link m ofd from nfd to' flags) s (\<lambda>_ _. True)"
proof -
  define look where "look = (if bit flags 12 \<and> from = Some [] then
             (case fds m ofd of None \<Rightarrow> fail EBADF | Some f \<Rightarrow> (case fd_node f of None \<Rightarrow> fail ENOENT | Some n \<Rightarrow> ret n))
           else lookup_peek m ofd from (bit flags 10))"
  have look: "ok look s (\<lambda>a s1. eqt s s1 \<and> good (tree s) a)"
    using s ok_lookup_peek [OF s] by (auto simp: look_def me_ok_def intro!: ok_fail ok_ret split: option.split)
  show ?thesis
  proof (cases "from = None \<or> to' = None")
    case True
    then show ?thesis using s(1) unfolding do_link_def by (simp only: if_True ok_fail)
  next
    case False
    show ?thesis
      unfolding do_link_def look_def [symmetric] if_not_P [OF False]
    proof (rule ok_andt [OF look], elim conjE, rule ok_ask_then [OF _ refl], assumption, intro ok_stop, assumption+)
      fix src s1 assume a: "sys_ok s1" "eqt s s1" "good (tree s) src" and ty: "ntype (nodes (tree s1) src) \<noteq> FS_DIR"
      have m1: "me_ok m (tree s1)" using s(2) a(2) by (simp add: eqt_good)
      show "ok (andt (lookup_parent m nfd to') (\<lambda>(par, name).
          andt (has_child par name) (\<lambda>b. andt (stop_if b EEXIST) (\<lambda>_.
          andt (ask_owner (Some src)) (\<lambda>ow. andt (ask_owner (Some par)) (\<lambda>o2.
          andt (stop_if (ow \<noteq> o2) EXDEV) (\<lambda>_. andt (check_ro par) (\<lambda>_.
          andt (ask (\<lambda>s. Some (mount_id (nodes (tree s) ow)))) (\<lambda>i. andt (stop_if (i \<noteq> 0 \<and> i < 8) EPERM) (\<lambda>_.
          andt (stop_if (60000 < xl (nodes (tree s1) src)) EMLINK) (\<lambda>_. andt (on_tree (fs_hlink src par name)) (\<lambda>r.
          if r < 0 then fail ENOMEM else tell (Ino_Ev par 0x100 name 0))))))))))))) s1 (\<lambda>_ _. True)"
      proof (rule ok_andt [OF ok_lookup_parent [OF a(1) m1 pr]], clarify, rule ok_andt [OF ok_has_child], assumption, elim conjE, simp only:, intro ok_stop, assumption)
        fix par name s2
        assume b: "sys_ok s2" "eqt s1 s2" "dir_for (tree s1) par name" and f: "\<not> find_child (Some par) name (tree s2) \<noteq> None"
        have d: "dir_for (tree s2) par name" "place (tree s2) par name" using b f by (auto simp: eqt_dir intro: place_for)
        have g: "good (tree s2) src" "ntype (nodes (tree s2) src) \<noteq> FS_DIR" using a b(2) ty by (auto simp: eqt_def good_def)
        have l: "live (nodes (tree s2) par)" "live (nodes (tree s2) src)" using d g by (simp_all add: dir_for_def good_def)
        show "ok (andt (ask_owner (Some src)) (\<lambda>ow. andt (ask_owner (Some par)) (\<lambda>o2.
          andt (stop_if (ow \<noteq> o2) EXDEV) (\<lambda>_. andt (check_ro par) (\<lambda>_.
          andt (ask (\<lambda>s. Some (mount_id (nodes (tree s) ow)))) (\<lambda>i. andt (stop_if (i \<noteq> 0 \<and> i < 8) EPERM) (\<lambda>_.
          andt (stop_if (60000 < xl (nodes (tree s1) src)) EMLINK) (\<lambda>_. andt (on_tree (fs_hlink src par name)) (\<lambda>r.
          if r < 0 then fail ENOMEM else tell (Ino_Ev par 0x100 name 0)))))))))) s2 (\<lambda>_ _. True)"
          by (intro ok_then_same [OF ok_owner [OF b(1)]] ok_stop [OF b(1)] ok_then_same [OF ok_check_ro [OF b(1) l(1)]] ok_ask_then [OF b(1) refl]
              ok_andt [OF ok_hlink [OF b(1) d(2) g]]) (use l in \<open>auto intro: ok_fail ok_any_tell\<close>)
      qed
    qed
  qed
qed

lemma dropped_ro [simp]: "dropped n (st\<lparr>ro := f\<rparr>) st' = dropped n st st'"
  by (simp add: dropped_def)

lemma ok_drop:
  assumes s: "sys_ok s" and n: "live (nodes (tree s) n)" "n \<noteq> root (tree s)" "kids (nodes (tree s) n) = []"
  shows "ok (on_tree (\<lambda>st. map_option (Pair ()) (fs_drop_name n st))) s (\<lambda>_ s1. dropped n (tree s) (tree s1))"
proof -
  let ?st = "(tree s)\<lparr>ro := \<lambda>i. mnt_ro_id i (kv s)\<rparr>"
  have w: "fs_wf ?st" "plain ?st" using s by (simp_all add: sys_ok_def)
  obtain st' where d: "fs_drop_name n ?st = Some st'" "fs_wf st'" "dropped n ?st st'" using fs_drop_name_wf [OF w(1), of n] n by auto
  have "dropped n (tree s) st'" using d(3) by simp
  then show ?thesis using d dropped_plain [OF d(3) w(2)] by (intro ok_on_tree [of _ _ "()" st']) auto
qed

lemma ok_then_tell:
  assumes "sys_ok s" "\<And>s1. sys_ok s1 \<Longrightarrow> eqt s s1 \<Longrightarrow> tree s1 = tree s \<Longrightarrow> ok (f ()) s1 Q"
  shows "ok (andt (tell e) f) s Q"
  by (rule ok_andt [OF ok_tell [OF assms(1)]]) (use assms(2) in \<open>auto simp: tree_def\<close>)

lemma ok_unlink_node:
  assumes s: "sys_ok s" and n: "live (nodes (tree s) n)"
  shows "ok (unlink_node m flags n) s (\<lambda>_ s1. dropped n (tree s) (tree s1))"
proof -
  have w: "fs_wf (tree s)" using s by (simp add: sys_ok_def)
  let ?x = "nodes (tree s) n" and ?Q = "\<lambda>_ s1. dropped n (tree s) (tree s1)"
  have leaf: "kids ?x = []" if "ntype ?x \<noteq> FS_DIR" using wf_dir [OF w n] that by (auto simp: dir_ok_def)
  define chk :: "unit call" where "chk = (if bit flags 9 then
             (if ntype ?x \<noteq> FS_DIR then fail ENOTDIR else if kids ?x \<noteq> [] then fail ENOTEMPTY else if n = root (tree s) then fail EBUSY
              else stop_if (n \<in> set (cwds m)) EBUSY)
           else stop_if (ntype ?x = FS_DIR) EISDIR)"
  have chk: "ok chk s (\<lambda>_ s1. s1 = s \<and> n \<noteq> root (tree s) \<and> kids ?x = [])"
    using s leaf wf_root(2) [OF w] by (auto simp: chk_def intro!: ok_fail ok_stop_if)
  show ?thesis
    unfolding unlink_node_def
  proof (rule ok_ask_then [OF s refl], simp only: prod.case, fold chk_def, rule ok_andt [OF chk], elim conjE, simp only:)
    assume l: "n \<noteq> root (tree s)" "kids ?x = []"
    show "ok (case nparent ?x of None \<Rightarrow> fail EBUSY | Some par \<Rightarrow> andt (check_ro par) (\<lambda>_.
         andt (if is_shm n (tree s) \<and> xl ?x = 0 \<and> hl ?x = None then tell (Shm_Drop n) else ret ()) (\<lambda>_.
         andt (tell (Ino_Ev par (0x200 + IN_ISDIR ?x) (nname ?x) 0)) (\<lambda>_.
         andt (tell (Ino_Gone n (xl ?x = 0 \<and> hl ?x = None))) (\<lambda>_.
         on_tree (\<lambda>st. map_option (Pair ()) (fs_drop_name n st))))))) s ?Q"
    proof (cases "nparent ?x")
      case None
      then show ?thesis using s by (simp add: ok_fail)
    next
      case (Some par)
      note p = wf_par(1) [OF w n Some]
      have shm: "ok (if is_shm n (tree s) \<and> xl ?x = 0 \<and> hl ?x = None then tell (Shm_Drop n) else ret ()) s (\<lambda>_ s1. tree s1 = tree s)"
        using s ok_mono [OF ok_tell [OF s]] by (auto intro!: ok_ret simp: tree_def)
      have fin: "ok (on_tree (\<lambda>st. map_option (Pair ()) (fs_drop_name n st))) s1 ?Q" if "sys_ok s1" "tree s1 = tree s" for s1
        using ok_drop [OF that(1), of n] n l that(2) by simp
      show ?thesis unfolding Some option.case
        by (intro ok_then_same [OF ok_check_ro [OF s p]] ok_andt [OF shm] ok_then_tell) (auto intro: fin)
    qed
  qed
qed

lemma ok_do_unlink:
  assumes s: "sys_ok s" "me_ok m (tree s)"
  shows "ok (do_unlink m dirfd path flags) s (\<lambda>_ _. True)"
  unfolding do_unlink_def
  by (rule ok_andt [OF ok_lookup_dent [OF s]], rule ok_mono [OF ok_unlink_node]) (auto simp: eqt_dir)

lemma ok_move_node:
  assumes s: "sys_ok s" and n: "live (nodes (tree s) src)" "src \<noteq> root (tree s)"
    and d: "good (tree s) par" "ntype (nodes (tree s) par) = FS_DIR" "\<not> under (tree s) src par"
    and nm: "good_name name" "\<forall>c\<in>set (kids (nodes (tree s) par)). nname (nodes (tree s) c) \<noteq> name"
  shows "ok (move_node src par name) s (\<lambda>_ _. True)"
proof -
  let ?mv = "on_tree (\<lambda>st. map_option (Pair ()) (do { st1 \<leftarrow> fs_detach src st;
        fs_attach par src (upd src (\<lambda>x. x\<lparr>nname := take (FS_NAME_MAX - 1) name\<rparr>) st1) }))"
  have mv: "ok ?mv s1 (\<lambda>_ _. True)" if e: "sys_ok s1" "tree s1 = tree s" for s1
  proof -
    let ?st = "(tree s1)\<lparr>ro := \<lambda>i. mnt_ro_id i (kv s1)\<rparr>"
    have w: "fs_wf ?st" "plain ?st" using e by (simp_all add: sys_ok_def)
    have u: "\<not> under ?st src par" using under_cong [of "tree s" par src ?st] d e by (simp add: good_def sys_ok_def)
    obtain st1 st' where "fs_detach src ?st = Some st1" "fs_attach par src (upd src (\<lambda>x. x\<lparr>nname := name\<rparr>) st1) = Some st'"
      "fs_wf st'" "kept ?st st'"
      using move_wf [OF w(1), of src par name] n d nm e u by (auto simp: good_def)
    then show ?thesis using kept_plain [OF _ w(2)] nm(1) by (intro ok_on_tree [of _ _ "()" st']) auto
  qed
  have ev: "ok (case nparent x of Some p \<Rightarrow> tell (Ino_Ev p a b c) | None \<Rightarrow> ret ()) s1 (\<lambda>_ s2. tree s2 = tree s)"
    if "sys_ok s1" "tree s1 = tree s" for x a b c s1
    using that ok_mono [OF ok_tell [OF that(1)]] by (auto split: option.split intro!: ok_ret simp: tree_def)
  have ck: "ok (\<lambda>s. ret () (s\<lparr>cookie := k\<rparr>)) s (\<lambda>_ s1. tree s1 = tree s)" for k
    using s by (simp add: ok_def ret_def sys_ok_def tree_def)
  show ?thesis unfolding move_node_def
    by (rule ok_ask_then [OF s refl], simp only: prod.case Let_def)
      (intro ok_andt [OF ck] ok_andt [OF ev] ok_andt [OF mv], auto intro!: ok_then_tell ok_any_tell)
qed

text \<open>After a name was dropped, what was not below a node is not below it now.\<close>

lemma under_dropped:
  assumes wf: "fs_wf st" and dr: "dropped n st st'" and k: "kids (nodes st n) = []"
    and d: "live (nodes st d)" "d \<noteq> n" "hl (nodes st d) \<noteq> Some n"
  shows "under st' a d = under st a d"
proof -
  obtain r where r: "ranked r st" using wf by (auto simp: fs_wf_def)
  from d show ?thesis
  proof (induction "r d" arbitrary: d rule: less_induct)
    case less
    have e: "nparent (nodes st' d) = nparent (nodes st d)" using dr less.prems unfolding dropped_def by blast
    show ?case
    proof (cases "d = a \<or> nparent (nodes st d) = None")
      case True
      then show ?thesis using e under_self by (auto simp: under_def up.simps)
    next
      case False
      then obtain p where p: "nparent (nodes st d) = Some p" by auto
      note q = wf_par [OF wf less.prems(1) p]
      have "r p < r d" using r p less.prems(1) unfolding ranked_def by blast
      moreover have "p \<noteq> n" using q(2) k by auto
      ultimately have "under st' a p = under st a p" using less.hyps q(1) wf_kid(5) [OF wf q] by simp
      then show ?thesis using under_up [of d a st p] under_up [of d a st' p] False p e by simp
    qed
  qed
qed

text \<open>The path names an entry: its last part is no dot name, and \<open>unlink\<close> would remove that entry.\<close>

definition names_entry :: "me \<Rightarrow> int \<Rightarrow> string option \<Rightarrow> sys \<Rightarrow> bool" where
  "names_entry m dirfd path s \<longleftrightarrow> (\<forall>s1 s2 par nm. eqt s s1 \<and> lookup_parent m dirfd path s1 = Some (Inr (par, nm), s2) \<longrightarrow>
     nm \<noteq> ''.'' \<and> nm \<noteq> ''..'' \<and>
     (\<forall>d s3 n s4. find_child (Some par) nm (tree s) = Some d \<and> eqt s s3 \<and> lookup_dent m dirfd path s3 = Some (Inr n, s4) \<longrightarrow> n = d))"

definition not_root :: "me \<Rightarrow> int \<Rightarrow> string option \<Rightarrow> sys \<Rightarrow> bool" where
  "not_root m dirfd path s \<longleftrightarrow> (\<forall>s1 s2 n. eqt s s1 \<and> lookup_dent m dirfd path s1 = Some (Inr n, s2) \<longrightarrow> n \<noteq> root (tree s))"

lemma ok_eq: "ok c s Q \<Longrightarrow> ok c s (\<lambda>x s1. Q x s1 \<and> c s = Some (Inr x, s1))"
  by (auto simp: ok_def)

lemma eqt_trans: "eqt a b \<Longrightarrow> eqt b c \<Longrightarrow> eqt a c" by (simp add: eqt_def)

lemma eqt_under: "eqt s s1 \<Longrightarrow> sys_ok s \<Longrightarrow> live (nodes (tree s) d) \<Longrightarrow> under (tree s1) n d = under (tree s) n d"
  by (rule under_cong) (simp_all add: eqt_def sys_ok_def)

text \<open>A name that is there is replaced.\<close>

lemma ok_replace:
  assumes s: "sys_ok s" "me_ok m (tree s)" and src: "live (nodes (tree s) src)" "src \<noteq> root (tree s)"
    and par: "dir_for (tree s) par name" "good_name name" "\<not> under (tree s) src par"
    and d: "find_child (Some par) name (tree s) = Some d" "d \<noteq> src" "real_node d (tree s) \<noteq> real_node src (tree s)" "kids (nodes (tree s) d) = []"
    and ne: "\<And>s3 n s4. eqt s s3 \<Longrightarrow> lookup_dent m nfd to' s3 = Some (Inr n, s4) \<Longrightarrow> n = d"
  shows "ok (andt (do_unlink m nfd to' fl) (\<lambda>_. move_node src par name)) s (\<lambda>_ _. True)"
proof -
  have w: "fs_wf (tree s)" using s by (simp add: sys_ok_def)
  have lp: "live (nodes (tree s) par)" "hl (nodes (tree s) par) = None" "ntype (nodes (tree s) par) = FS_DIR" using par(1) by (simp_all add: dir_for_def good_def)
  have dk: "d \<in> set (kids (nodes (tree s) par))" "nname (nodes (tree s) d) = name"
    using d(1) par(2) lp(3) by (auto simp: find_child_def good_name_def dest: find_SomeD)
  note kd = wf_kid [OF w lp(1) dk(1)]
  have pd: "par \<noteq> d" using dk(1) d(4) by auto
  have hs: "hl (nodes (tree s) src) \<noteq> Some d"
  proof
    assume h: "hl (nodes (tree s) src) = Some d"
    then show False using d(3) links_hl(2) [OF w src(1) h] by (simp add: real_node_def)
  qed
  have un: "ok (do_unlink m nfd to' fl) s (\<lambda>_ s1. dropped d (tree s) (tree s1))"
    unfolding do_unlink_def
  proof (rule ok_andt [OF ok_eq [OF ok_lookup_dent [OF s]]], elim conjE)
    fix n s1 assume a: "sys_ok s1" "eqt s s1" "live (nodes (tree s) n)" "lookup_dent m nfd to' s = Some (Inr n, s1)"
    have n: "n = d" using ne [of s] a(4) by simp
    have "ok (unlink_node m fl n) s1 (\<lambda>_ s2. dropped n (tree s1) (tree s2))" using a by (intro ok_unlink_node) (simp_all add: eqt_dir)
    then show "ok (unlink_node m fl n) s1 (\<lambda>_ s2. dropped d (tree s) (tree s2))"
      using a(2) n by (auto elim!: ok_mono simp: dropped_def eqt_def)
  qed
  show ?thesis
  proof (rule ok_andt [OF un])
    fix s2 assume a: "sys_ok s2" and dr: "dropped d (tree s) (tree s2)"
    have S: "live (nodes (tree s2) src)" "src \<noteq> root (tree s2)" using dr src d(2) hs unfolding dropped_def by blast+
    have P: "good (tree s2) par" "ntype (nodes (tree s2) par) = FS_DIR" using dr lp pd unfolding dropped_def good_def by force+
    have u: "\<not> under (tree s2) src par" using under_dropped [OF w dr d(4) lp(1) pd, of src] lp(2) par(3) by simp
    have "\<forall>c\<in>set (kids (nodes (tree s2) par)). nname (nodes (tree s2) c) \<noteq> nname (nodes (tree s) d)" using dr kd(2) unfolding dropped_def by blast
    then have f: "\<forall>c\<in>set (kids (nodes (tree s2) par)). nname (nodes (tree s2) c) \<noteq> name" using dk(2) by simp
    show "ok (move_node src par name) s2 (\<lambda>_ _. True)" by (rule ok_move_node [OF a S P u par(2) f])
  qed
qed

lemma ok_need_tree:
  assumes s: "sys_ok s" and n: "live (nodes (tree s) n)"
  shows "ok (on_tree (\<lambda>st. map_option (Pair ()) (fs_need_tree n st))) s (\<lambda>_ s1. eqt s s1)"
proof -
  let ?st = "(tree s)\<lparr>ro := \<lambda>i. mnt_ro_id i (kv s)\<rparr>"
  have w: "fs_wf ?st" "plain ?st" using s by (simp_all add: sys_ok_def)
  obtain l i rc where e: "fs_need_tree n ?st = Some (?st\<lparr>log := l, recent := rc, recent_i := i\<rparr>)"
    using need_tree_ends [OF w(1), of n ?st] n by auto
  have "fs_wf (?st\<lparr>log := l, recent := rc, recent_i := i\<rparr>)" using w(1) by (rule same_tree_wf [rotated]) (simp add: same_tree_def)
  moreover have "plain (?st\<lparr>log := l, recent := rc, recent_i := i\<rparr>)" using w(2) by (simp add: plain_def)
  ultimately show ?thesis using e
    by (intro ok_on_tree [of _ _ "()" "?st\<lparr>log := l, recent := rc, recent_i := i\<rparr>"]) (auto simp: eqt_def)
qed

lemma ok_then_eqt:
  assumes "ok c s (\<lambda>_ s1. eqt s s1)" "\<And>x s1. sys_ok s1 \<Longrightarrow> eqt s s1 \<Longrightarrow> ok (f x) s1 Q"
  shows "ok (andt c f) s Q"
  using assms by (rule ok_andt)

lemma ok_replace_node:
  assumes s: "sys_ok s" "me_ok m (tree s)" and src: "live (nodes (tree s) src)" "src \<noteq> root (tree s)"
    and par: "dir_for (tree s) par name" "good_name name" "\<not> under (tree s) src par" and d: "find_child (Some par) name (tree s) = Some d"
    and ne: "\<And>s3 n s4. eqt s s3 \<Longrightarrow> lookup_dent m nfd to' s3 = Some (Inr n, s4) \<Longrightarrow> n = d"
  shows "ok (replace_node m nfd to' src par name x d) s (\<lambda>_ _. True)"
proof -
  have P: "live (nodes (tree s) par)" "ntype (nodes (tree s) par) = FS_DIR" using par(1) by (simp_all add: dir_for_def good_def)
  have w: "fs_wf (tree s)" using s by (simp add: sys_ok_def)
  have "d \<in> set (kids (nodes (tree s) par))" using d par(2) P(2) by (auto simp: find_child_def good_name_def dest: find_SomeD)
  then have ld: "live (nodes (tree s) d)" using wf_kid(1) [OF w P(1)] by blast
  have leaf: "kids (nodes (tree s) d) = []" if "ntype (nodes (tree s) d) \<noteq> FS_DIR" using wf_dir [OF w ld] that by (auto simp: dir_ok_def)
  have rep: "ok (andt (do_unlink m nfd to' fl) (\<lambda>_. move_node src par name)) s (\<lambda>_ _. True)"
    if "d \<noteq> src" "real_node d (tree s) \<noteq> real_node src (tree s)" "kids (nodes (tree s) d) = []" for fl
    by (rule ok_replace [OF s src par d that]) (rule ne)
  show ?thesis unfolding replace_node_def
    using s(1) leaf rep by (cases "d = src") (auto intro!: ok_ask_then [OF s(1) refl] ok_ret ok_fail)
qed

text \<open>A directory does not move below itself.\<close>

lemma ok_ancestor:
  assumes s: "sys_ok s" and l: "live (nodes (tree s) src)" "live (nodes (tree s) par)" "ntype (nodes (tree s) par) = FS_DIR"
  shows "ok (if ntype (nodes (tree s) src) = FS_DIR then andt (ask (\<lambda>s. is_ancestor src par (tree s))) (\<lambda>b. stop_if b EINVAL) else ret ()) s
    (\<lambda>_ s1. s1 = s \<and> \<not> under (tree s) src par)"
proof -
  have w: "fs_wf (tree s)" using s by (simp add: sys_ok_def)
  show ?thesis
  proof (cases "ntype (nodes (tree s) src) = FS_DIR")
    case False
    have "kids (nodes (tree s) src) = []" using wf_dir [OF w l(1)] False by (auto simp: dir_ok_def)
    moreover have "par \<noteq> src" using l(3) False by auto
    ultimately have "\<not> under (tree s) src par" using not_under_leaf [OF w _ l(2)] by blast
    then show ?thesis using False s by (simp add: ok_ret)
  next
    case True
    obtain u where u: "up (\<lambda>x. x = src) (Some par) (tree s) = Some u" using wf_up [OF w l(2)] by blast
    have "ok (andt (ask (\<lambda>s. is_ancestor src par (tree s))) (\<lambda>b. stop_if b EINVAL)) s (\<lambda>_ s1. s1 = s \<and> \<not> under (tree s) src par)"
      by (rule ok_ask_then [OF s, of _ "u \<noteq> None"]) (use u s in \<open>auto simp: is_ancestor_def under_def intro: ok_stop_if\<close>)
    then show ?thesis using True by simp
  qed
qed

lemma ok_rename_end:
  assumes s: "sys_ok s" "me_ok m (tree s)" and src: "live (nodes (tree s) src)" "src \<noteq> root (tree s)"
    and par: "dir_for (tree s) par name" "good_name name"
    and ne: "\<And>d s3 n s4. find_child (Some par) name (tree s) = Some d \<Longrightarrow> eqt s s3 \<Longrightarrow> lookup_dent m nfd to' s3 = Some (Inr n, s4) \<Longrightarrow> n = d"
  shows "ok (rename_end m nfd to' src par name (nodes (tree s) src)) s (\<lambda>_ _. True)"
proof -
  have P: "good (tree s) par" "live (nodes (tree s) par)" "ntype (nodes (tree s) par) = FS_DIR" using par(1) by (simp_all add: dir_for_def good_def)
  show ?thesis unfolding rename_end_def
  proof (rule ok_andt [OF ok_ancestor [OF s(1) src(1) P(2,3)]], elim conjE, simp only:, rule ok_ask_then [OF s(1) refl], unfold fs_child_def)
    assume u: "\<not> under (tree s) src par"
    show "ok (case find_child (Some par) name (tree s) of None \<Rightarrow> move_node src par name
        | Some d \<Rightarrow> replace_node m nfd to' src par name (nodes (tree s) src) d) s (\<lambda>_ _. True)"
    proof (cases "find_child (Some par) name (tree s)")
      case None
      then show ?thesis using ok_move_node [OF s(1) src P(1,3) u par(2) fresh_name [OF None P(3)]] by simp
    next
      case (Some d)
      then show ?thesis using ok_replace_node [OF s src par u Some] ne [OF Some] by auto
    qed
  qed
qed

lemma ok_rename_to:
  assumes s: "sys_ok s" "me_ok m (tree s)" and src: "live (nodes (tree s) src)" "src \<noteq> root (tree s)"
    and par: "dir_for (tree s) par name" "good_name name"
    and ne: "\<And>d s3 n s4. find_child (Some par) name (tree s) = Some d \<Longrightarrow> eqt s s3 \<Longrightarrow> lookup_dent m nfd to' s3 = Some (Inr n, s4) \<Longrightarrow> n = d"
  shows "ok (rename_to m nfd to' src par name) s (\<lambda>_ _. True)"
proof -
  have w: "fs_wf (tree s)" using s by (simp add: sys_ok_def)
  note lp = dir_for_live [OF par(1)]
  let ?x = "nodes (tree s) src"
  have pl: "live (nodes (tree s) p)" if "nparent ?x = Some p" for p using wf_par(1) [OF w src(1) that] .
  have rend: "ok (rename_end m nfd to' src par name ?x) s3 (\<lambda>_ _. True)" if e: "sys_ok s3" "eqt s s3" for s3
  proof -
    have x: "nodes (tree s3) src = ?x" using e(2) by (simp add: eqt_def)
    have q: "me_ok m (tree s3)" "live (nodes (tree s3) src)" "src \<noteq> root (tree s3)" "dir_for (tree s3) par name"
      using eqt_good(2) [OF e(2)] eqt_dir(1,2) [OF e(2)] s(2) src par(1) e(2) by (simp_all add: eqt_def)
    have "ok (rename_end m nfd to' src par name (nodes (tree s3) src)) s3 (\<lambda>_ _. True)"
    proof (rule ok_rename_end [OF e(1) q par(2)])
      fix d s4 n s5 assume "find_child (Some par) name (tree s3) = Some d" "eqt s3 s4" "lookup_dent m nfd to' s4 = Some (Inr n, s5)"
      then show "n = d" using ne [of d s4 n s5] eqt_trans [OF e(2)] eqt_dir(3) [OF e(2)] by simp
    qed
    then show ?thesis by (simp only: x)
  qed
  have need: "ok (if o1 \<noteq> o2 then on_tree (\<lambda>st. map_option (Pair ()) (fs_need_tree src st)) else ret ()) s3 (\<lambda>_ s4. eqt s s4)"
    if e: "sys_ok s3" "eqt s s3" for o1 o2 :: nat and s3
  proof -
    have "live (nodes (tree s3) src)" using src(1) e(2) by (simp add: eqt_dir)
    then show ?thesis using ok_mono [OF ok_need_tree [OF e(1)]] eqt_trans [OF e(2)] e by (auto intro!: ok_ret)
  qed
  have nn: "ok (if o1 \<noteq> o2 then on_mnt (mnt_newnode par) else ret ()) s (\<lambda>_ s3. eqt s s3)" for o1 o2 :: nat
    using ok_newnode [OF s(1) lp] s(1) by (simp add: ok_ret)
  have cp: "ok (case nparent ?x of Some p \<Rightarrow> check_ro p | None \<Rightarrow> ret ()) s (\<lambda>_ s3. s3 = s)"
    using pl ok_check_ro [OF s(1)] s(1) by (auto split: option.split intro: ok_ret)
  have ow: "ok (ask_owner (nparent ?x)) s (\<lambda>_ s3. s3 = s)" "ok (ask_owner (Some par)) s (\<lambda>_ s3. s3 = s)"
    using pl lp by (auto intro!: ok_owner [OF s(1)])
  show ?thesis unfolding rename_to_def
    by (intro ok_then_same [OF ok_check_ro [OF s(1) lp]] ok_ask_then [OF s(1) refl] ok_then_same [OF cp] ok_then_same [OF ow(1)]
        ok_then_same [OF ow(2)] ok_andt [OF nn] ok_stop ok_andt [OF need] rend)
qed

lemma ok_do_rename:
  assumes s: "sys_ok s" "me_ok m (tree s)" and pr: "proper to'" and nr: "not_root m ofd from s" and en: "names_entry m nfd to' s"
  shows "ok (do_rename m ofd from nfd to') s (\<lambda>_ _. True)"
proof (cases "from = None \<or> to' = None")
  case True
  then show ?thesis using s(1) unfolding do_rename_def by (simp only: if_True ok_fail)
next
  case False
  show ?thesis
    unfolding do_rename_def if_not_P [OF False]
  proof (rule ok_andt [OF ok_eq [OF ok_lookup_dent [OF s]]], elim conjE)
    fix src s1
    assume a: "sys_ok s1" "eqt s s1" "live (nodes (tree s) src)" "lookup_dent m ofd from s = Some (Inr src, s1)"
    have sr: "src \<noteq> root (tree s)" using nr a(4) eqt_refl unfolding not_root_def by blast
    have m1: "me_ok m (tree s1)" using s(2) a(2) by (simp add: eqt_good)
    show "ok (andt (lookup_parent m nfd to') (\<lambda>(par, name). rename_to m nfd to' src par name)) s1 (\<lambda>_ _. True)"
    proof (rule ok_andt [OF ok_eq [OF ok_lookup_parent [OF a(1) m1 pr]]], clarify)
      fix par name s2
      assume b: "sys_ok s2" "eqt s1 s2" "dir_for (tree s1) par name" "lookup_parent m nfd to' s1 = Some (Inr (par, name), s2)"
      have e2: "eqt s s2" using a(2) b(2) by (rule eqt_trans)
      have d2: "dir_for (tree s2) par name" using b by (simp add: eqt_dir)
      have en': "name \<noteq> ''.''" "name \<noteq> ''..''"
        "\<And>d s3 n s4. find_child (Some par) name (tree s) = Some d \<Longrightarrow> eqt s s3 \<Longrightarrow> lookup_dent m nfd to' s3 = Some (Inr n, s4) \<Longrightarrow> n = d"
        using en a(2) b(4) unfolding names_entry_def by blast+
      have gn: "good_name name" using d2 en' by (simp add: good_name_def dir_for_def)
      have q: "me_ok m (tree s2)" "live (nodes (tree s2) src)" "src \<noteq> root (tree s2)"
        using eqt_good(2) [OF e2] s(2) a(3) sr e2 by (simp_all add: eqt_def)
      show "ok (rename_to m nfd to' src par name) s2 (\<lambda>_ _. True)"
      proof (rule ok_rename_to [OF b(1) q d2 gn])
        fix d s3 n s4 assume "find_child (Some par) name (tree s2) = Some d" "eqt s2 s3" "lookup_dent m nfd to' s3 = Some (Inr n, s4)"
        then show "n = d" using en'(3) [of d s3 n s4] eqt_trans [OF e2] eqt_dir(3) [OF e2] by simp
      qed
    qed
  qed
qed

section \<open>Property\<close>

datatype fs_op = Unlink int "string option" nat | Mkdir int "string option" nat | Symlink bool "string option" int "string option"
  | Mknod int "string option" nat | Rename int "string option" int "string option" | Link int "string option" int "string option" nat

fun fs_sys :: "me \<Rightarrow> fs_op \<Rightarrow> unit call" where
  "fs_sys m (Unlink dirfd path flags) = do_unlink m dirfd path flags"
| "fs_sys m (Mkdir dirfd path mode) = do_mkdir m dirfd path mode"
| "fs_sys m (Symlink mem target dirfd path) = sys_symlink m mem target dirfd path"
| "fs_sys m (Mknod dirfd path md) = sys_mknod m dirfd path md"
| "fs_sys m (Rename ofd from nfd to') = do_rename m ofd from nfd to'"
| "fs_sys m (Link ofd from nfd to' flags) = do_link m ofd from nfd to' flags"

text \<open>The calls the code does not guard against: \<open>symlink\<close>, \<open>mknod\<close>, \<open>rename\<close> and \<open>link\<close> make a node without a name if
  the new path is only slashes; \<open>rename\<close> does not refuse to move the root, takes \<open>.\<close> and \<open>..\<close> for new names, and
  unlinks what the new path leads to, which need not be the entry it replaces.\<close>

fun op_ok :: "me \<Rightarrow> sys \<Rightarrow> fs_op \<Rightarrow> bool" where
  "op_ok m s (Unlink dirfd path flags) = True"
| "op_ok m s (Mkdir dirfd path mode) = True"
| "op_ok m s (Symlink mem target dirfd path) = proper path"
| "op_ok m s (Mknod dirfd path md) = proper path"
| "op_ok m s (Rename ofd from nfd to') = (proper to' \<and> not_root m ofd from s \<and> names_entry m nfd to' s)"
| "op_ok m s (Link ofd from nfd to' flags) = proper to'"

lemma ok_fs_sys:
  assumes "sys_ok s" "me_ok m (tree s)" "op_ok m s c"
  shows "ok (fs_sys m c) s (\<lambda>_ _. True)"
  using assms by (cases c) (simp_all add: ok_do_unlink ok_mkdir ok_sys_symlink ok_sys_mknod ok_do_rename ok_do_link)

text \<open>C1: The calls \<open>unlink\<close>, \<open>rmdir\<close>, \<open>mkdir\<close>, \<open>symlink\<close>, \<open>mknod\<close>, \<open>rename\<close> and \<open>link\<close> return, with an error or not, and
  the file system they leave is a well-formed tree again: children and parents agree, no directory has a name twice,
  there is no cycle, every hard link name belongs to a live node that counts it, and no freed node is reachable.
  Conditions: no aliases by bind mounts and no \<open>chroot\<close>; the working directory and the nodes of the open files are live;
  the new path of \<open>symlink\<close>, \<open>mknod\<close>, \<open>rename\<close> and \<open>link\<close> is not only slashes; and \<open>rename\<close> does not move the root, its
  new path does not end in \<open>.\<close> or \<open>..\<close>, and an entry it replaces is the one that its new path leads to.\<close>

theorem fs_calls_keep_tree:
  assumes "sys_ok s" "me_ok m (tree s)" "op_ok m s c"
  shows "\<exists>r s'. fs_sys m c s = Some (r, s') \<and> fs_wf (tree s') \<and> plain (tree s')"
  using ok_fs_sys [OF assms] by (auto simp: ok_def sys_ok_def)

definition demo_sys :: sys where "demo_sys = \<lparr>kv = \<lparr>vf = demo_fs, tab = []\<rparr>, evs = [], cookie = 0\<rparr>"

definition demo_me :: me where "demo_me = \<lparr>cwd = 0, umask = 18, fds = (\<lambda>_. None), cwds = [0]\<rparr>"

definition tree_kept :: "fs_op \<Rightarrow> bool" where
  "tree_kept c \<longleftrightarrow> (\<exists>r s'. fs_sys demo_me c demo_sys = Some (r, s') \<and> fs_wf (tree s') \<and> plain (tree s'))"

lemma demo_ok: "sys_ok demo_sys" "me_ok demo_me (tree demo_sys)"
  by (simp_all add: sys_ok_def demo_sys_def tree_def demo_wf me_ok_def demo_me_def good_def demo_nodes empty_node_def)

lemma demo_eqt: "eqt demo_sys s1 \<longleftrightarrow> nodes (tree s1) = nodes demo_fs \<and> root (tree s1) = 0 \<and> proot (tree s1) = None"
  by (simp add: eqt_def demo_sys_def tree_def demo_nodes)

lemma demo_peek:
  assumes "eqt demo_sys s1"
  shows "fs_peek_d 0 ''/a'' (tree s1) = Some 1" "fs_peek_d 0 ''/c'' (tree s1) = None"
  using assms
  by (simp_all add: demo_eqt fs_peek_d_def resolve_def start_of_def is_abs_def skip_abs_def the_root_def resolve_loop.simps
      step_to_def find_child_def demo_nodes empty_node_def fs_alias_def skip_slashes_def)

lemma demo_dent:
  assumes "eqt demo_sys s1" "c = CHR ''a'' \<or> c = CHR ''c''"
  shows "lookup_dent demo_me AT_FDCWD (Some [CHR ''/'', c]) s1 = Some (if c = CHR ''a'' then Inr 1 else Inl (- ENOENT), s1)"
  using assms demo_peek [OF assms(1)]
  by (auto simp: lookup_dent_def with_base_def andt_def dir_base_def is_abs_def ret_def demo_me_def maybe_refresh_proc_def ask_def fail_def)

lemma demo_rename: "op_ok demo_me demo_sys (Rename AT_FDCWD (Some ''/a'') AT_FDCWD (Some ''/c''))"
proof -
  have "strip ''/c'' = ''/c''" by (simp add: strip_def)
  moreover have "last_slash ''/c'' = Some 0" by simp
  ultimately have "nm = ''c''" if "lookup_parent demo_me AT_FDCWD (Some ''/c'') s1 = Some (Inr (par, nm), s2)" for s1 par nm s2
    using that by (auto simp: lookup_parent_def Let_def andt_def dir_base_def is_abs_def ret_def ask_def fail_def split: if_splits)
  then show ?thesis using demo_dent
    by (auto simp: proper_def not_root_def names_entry_def demo_sys_def tree_def demo_nodes)
qed

text \<open>Each of the calls, on a tree with a root and a file \<open>a\<close>.\<close>

theorem fs_calls_keep_tree_witness:
  "tree_kept (Mkdir AT_FDCWD (Some ''/b'') 511) \<and> tree_kept (Unlink AT_FDCWD (Some ''/a'') 0) \<and>
   tree_kept (Symlink True (Some ''a'') AT_FDCWD (Some ''/s'')) \<and> tree_kept (Mknod AT_FDCWD (Some ''/p'') 4516) \<and>
   tree_kept (Rename AT_FDCWD (Some ''/a'') AT_FDCWD (Some ''/c'')) \<and> tree_kept (Link AT_FDCWD (Some ''/a'') AT_FDCWD (Some ''/l'') 0)"
proof -
  note k = fs_calls_keep_tree [OF demo_ok, folded tree_kept_def]
  show ?thesis using demo_rename by (auto intro!: k simp: proper_def)
qed

end
