(* ===== verification/Ring.thy ===== *)
theory Ring
  imports Kernel_Prelude
begin

text \<open>
  Ring buffers, which the kernel writes three times over: the pipe (\<open>src/src/proc/file.c\<close>, whole blocks), the
  terminal queues (\<open>src/src/proc/pty.c\<close>, single bytes) and the inotify queue (\<open>src/src/proc/inotify.c\<close>, records).
  \<open>ring_seq\<close> is what a ring holds; the lemmas say what a block copy, a byte store and a byte-wise copy with a wrap
  do to it. The locale \<open>channel\<close> is the contract a queue gives its two ends, with the order of everything that
  goes through it as the consequence.
\<close>

section \<open>What a ring holds\<close>

definition ring_seq :: "'a list \<Rightarrow> nat \<Rightarrow> nat \<Rightarrow> 'a list" where
  "ring_seq b t n = map (\<lambda>i. b ! ((t + i) mod length b)) [0..<n]"

text \<open>A block copied to a place in the buffer without a wrap, and bytes stored one after the other with it.\<close>

definition put_at :: "'a list \<Rightarrow> nat \<Rightarrow> 'a list \<Rightarrow> 'a list" where
  "put_at b h xs = take h b @ xs @ drop (h + length xs) b"

primrec ring_fill :: "'a list \<Rightarrow> nat \<Rightarrow> 'a list \<Rightarrow> 'a list" where
  "ring_fill b h [] = b"
| "ring_fill b h (x # xs) = ring_fill (b[h mod length b := x]) (h + 1) xs"

definition ring_ok :: "nat \<Rightarrow> 'a list \<Rightarrow> nat \<Rightarrow> nat \<Rightarrow> nat \<Rightarrow> bool" where
  "ring_ok N b h t n \<longleftrightarrow> 0 < N \<and> length b = N \<and> t < N \<and> n \<le> N \<and> h = (t + n) mod N"

lemma length_ring_seq [simp]: "length (ring_seq b t n) = n"
  by (simp add: ring_seq_def)

lemma ring_seq_0 [simp]: "ring_seq b t 0 = []"
  by (simp add: ring_seq_def)

lemma nth_ring_seq: "i < n \<Longrightarrow> ring_seq b t n ! i = b ! ((t + i) mod length b)"
  by (simp add: ring_seq_def)

lemma ring_seq_add: "ring_seq b t (m + n) = ring_seq b t m @ ring_seq b (t + m) n"
  by (rule nth_equalityI) (auto simp: nth_ring_seq nth_append add.assoc)

lemma ring_seq_mod [simp]: "ring_seq b (t mod length b) n = ring_seq b t n"
  by (simp add: ring_seq_def mod_add_left_eq)

lemma ring_seq_flat: "t + n \<le> length b \<Longrightarrow> ring_seq b t n = take n (drop t b)"
  by (rule nth_equalityI) (auto simp: nth_ring_seq)

lemma length_put_at [simp]: "h + length xs \<le> length b \<Longrightarrow> length (put_at b h xs) = length b"
  by (simp add: put_at_def)

lemma nth_put_at:
  "h + length xs \<le> length b \<Longrightarrow> i < length b \<Longrightarrow>
   put_at b h xs ! i = (if h \<le> i \<and> i < h + length xs then xs ! (i - h) else b ! i)"
  by (auto simp: put_at_def nth_append)

lemma length_ring_fill [simp]: "length (ring_fill b h xs) = length b"
  by (induction xs arbitrary: b h) simp_all

text \<open>Two places of a ring that are less than its size apart are different.\<close>

lemma ring_places: "i < j \<Longrightarrow> j < i + N \<Longrightarrow> (i::nat) mod N \<noteq> j mod N"
proof
  assume a: "i < j" "j < i + N" "i mod N = j mod N"
  then have "N dvd j - i" by (metis mod_eq_dvd_iff_nat less_imp_le_nat)
  then show False using a by (auto dest: dvd_imp_le)
qed

lemma ring_put_byte:
  assumes "n < length b"
  shows "ring_seq (b[(t + n) mod length b := x]) t (Suc n) = ring_seq b t n @ [x]"
proof (rule nth_equalityI)
  fix i assume "i < length (ring_seq (b[(t + n) mod length b := x]) t (Suc n))"
  then have i: "i < Suc n" by simp
  have l: "(t + n) mod length b < length b" using assms by (intro mod_less_divisor) linarith
  show "ring_seq (b[(t + n) mod length b := x]) t (Suc n) ! i = (ring_seq b t n @ [x]) ! i"
  proof (cases "i = n")
    case True
    then show ?thesis using l by (simp add: nth_ring_seq nth_append)
  next
    case False
    then have "(t + i) mod length b \<noteq> (t + n) mod length b" using i assms by (intro ring_places) auto
    then show ?thesis using False i by (simp add: nth_ring_seq nth_append)
  qed
qed simp

lemma ring_put_fill:
  "n + length xs \<le> length b \<Longrightarrow> ring_seq (ring_fill b (t + n) xs) t (n + length xs) = ring_seq b t n @ xs"
proof (induction xs arbitrary: b n)
  case (Cons x xs)
  then show ?case using Cons.IH [of "Suc n" "b[(t + n) mod length b := x]"] ring_put_byte [of n b t x] by simp
qed simp

lemma put_at_fill: "h + length xs \<le> length b \<Longrightarrow> put_at b h xs = ring_fill b h xs"
proof (induction xs arbitrary: b h)
  case (Cons x xs)
  then have "h < length b" by simp
  moreover have "put_at (b[h := x]) (h + 1) xs = put_at b h (x # xs)"
    using Cons.prems by (auto simp: list_eq_iff_nth_eq nth_put_at nth_Cons' nth_list_update)
  ultimately show ?case using Cons.IH [of "h + 1" "b[h := x]"] Cons.prems by simp
qed (simp add: put_at_def)

lemma ring_fill_mod: "ring_fill b (h mod length b) xs = ring_fill b h xs"
proof (induction xs arbitrary: b h)
  case (Cons x xs)
  have "ring_fill (b[h mod length b := x]) (h mod length b + 1) xs = ring_fill (b[h mod length b := x]) (h + 1) xs"
    using Cons.IH [of "b[h mod length b := x]" "h mod length b + 1"] Cons.IH [of "b[h mod length b := x]" "h + 1"]
    by (simp add: mod_Suc_eq)
  then show ?case by simp
qed simp

section \<open>Putting and getting keep a ring in order\<close>

lemma ring_ok_put:
  assumes "ring_ok N b h t n" and "n + length xs \<le> N"
  shows "ring_ok N (ring_fill b h xs) ((h + length xs) mod N) t (n + length xs) \<and>
         ring_seq (ring_fill b h xs) t (n + length xs) = ring_seq b t n @ xs"
proof -
  have "ring_fill b h xs = ring_fill b (t + n) xs" using assms(1) ring_fill_mod [of b "t + n" xs] by (simp add: ring_ok_def)
  then show ?thesis using assms ring_put_fill [of n xs b t] by (simp add: ring_ok_def mod_add_left_eq add.assoc)
qed

lemma ring_ok_block:
  assumes "ring_ok N b h t n" and "n + length xs \<le> N" and "h + length xs \<le> N"
  shows "ring_ok N (put_at b h xs) ((h + length xs) mod N) t (n + length xs) \<and>
         ring_seq (put_at b h xs) t (n + length xs) = ring_seq b t n @ xs"
  using ring_ok_put [OF assms(1,2)] assms put_at_fill [of h xs b] by (simp add: ring_ok_def)

lemma ring_ok_get:
  assumes "ring_ok N b h t n" and "k \<le> n"
  shows "ring_ok N b h ((t + k) mod N) (n - k) \<and> ring_seq b t n = ring_seq b t k @ ring_seq b ((t + k) mod N) (n - k)"
proof -
  have l: "length b = N" using assms by (simp add: ring_ok_def)
  have "ring_seq b t n = ring_seq b t k @ ring_seq b (t + k) (n - k)" using ring_seq_add [of b t k "n - k"] assms(2) by simp
  moreover have "((t + k) mod N + (n - k)) mod N = (t + n) mod N"
    by (subst mod_add_left_eq) (simp add: assms(2))
  ultimately show ?thesis using assms ring_seq_mod [of b "t + k" "n - k"] l by (auto simp: ring_ok_def)
qed

section \<open>The contract of a queue\<close>

text \<open>
  A queue has two ends. What goes in at one end is appended to what the queue holds, what comes out at the other
  is taken from its front; an end may take or give less than it was asked for. Everything that came out, followed
  by what the queue holds, is then what was there at the start followed by everything that went in, in any order
  of the two ends.
\<close>

locale channel =
  fixes ok :: "'s \<Rightarrow> bool"
    and held :: "'s \<Rightarrow> 'b list"
    and send :: "'m \<Rightarrow> 's \<Rightarrow> 'b list \<times> 's"
    and recv :: "'r \<Rightarrow> 's \<Rightarrow> 'b list \<times> 's"
  assumes send_law: "ok s \<Longrightarrow> send m s = (xs, s') \<Longrightarrow> ok s' \<and> held s' = held s @ xs"
    and recv_law: "ok s \<Longrightarrow> recv r s = (xs, s') \<Longrightarrow> ok s' \<and> held s = xs @ held s'"
begin

fun turn :: "'m + 'r \<Rightarrow> 'b list \<times> 'b list \<times> 's \<Rightarrow> 'b list \<times> 'b list \<times> 's" where
  "turn (Inl m) (W, R, s) = (case send m s of (xs, s') \<Rightarrow> (W @ xs, R, s'))"
| "turn (Inr r) (W, R, s) = (case recv r s of (xs, s') \<Rightarrow> (W, R @ xs, s'))"

definition fifo :: "'b list \<Rightarrow> 'b list \<Rightarrow> 's \<Rightarrow> bool" where
  "fifo W R s \<longleftrightarrow> ok s \<and> W = R @ held s"

lemma fifo_send: "fifo W R s \<Longrightarrow> send m s = (xs, s') \<Longrightarrow> fifo (W @ xs) R s'"
  using send_law [of s m xs s'] by (simp add: fifo_def)

lemma fifo_recv: "fifo W R s \<Longrightarrow> recv r s = (xs, s') \<Longrightarrow> fifo W (R @ xs) s'"
  using recv_law [of s r xs s'] by (simp add: fifo_def)

lemma fifo_turn: "fifo W R s \<Longrightarrow> turn a (W, R, s) = (W', R', s') \<Longrightarrow> fifo W' R' s'"
  by (cases a) (auto split: prod.splits dest: fifo_send fifo_recv)

lemma fifo_turns: "fifo W R s \<Longrightarrow> fold turn as (W, R, s) = (W', R', s') \<Longrightarrow> fifo W' R' s'"
proof (induction as arbitrary: W R s)
  case (Cons a as)
  obtain W1 R1 s1 where t: "turn a (W, R, s) = (W1, R1, s1)" by (cases "turn a (W, R, s)")
  show ?case using Cons.IH [OF fifo_turn [OF Cons.prems(1) t]] Cons.prems(2) t by simp
qed simp

end

end
