(* ===== verification/Pipe.thy ===== *)
theory Pipe
  imports Ring "HOL-Library.Monad_Syntax"
begin

text \<open>
  Pipes, named pipes and socket pairs, from \<open>src/src/proc/file.c\<close> and \<open>file.h\<close>: the open file, the pipe with its
  ring of bytes and the counts of its ends, opening and closing, \<open>pipe_read\<close>, \<open>pipe_write\<close> and \<open>pipe_tee\<close>.
  A turn of a loop that holds the lock of the pipe is one function on the pipe; what other processors do between
  two turns is the parameter \<open>world\<close>, and \<open>intr\<close> says at which turns \<open>proc_interrupted\<close> answers yes. A loop that
  does not return is \<open>None\<close>. The field \<open>p_wq\<close> counts the calls of \<open>wq_wake\<close> on the queue of the pipe.
\<close>

abbreviation (input) PIPE_SZ :: nat where "PIPE_SZ \<equiv> 65536"
abbreviation (input) TMP_SZ :: nat where "TMP_SZ \<equiv> 1024"
abbreviation (input) E_INTR :: int where "E_INTR \<equiv> 4"
abbreviation (input) E_NXIO :: int where "E_NXIO \<equiv> 6"
abbreviation (input) E_BADF :: int where "E_BADF \<equiv> 9"
abbreviation (input) E_AGAIN :: int where "E_AGAIN \<equiv> 11"
abbreviation (input) E_NOMEM :: int where "E_NOMEM \<equiv> 12"
abbreviation (input) E_INVAL :: int where "E_INVAL \<equiv> 22"
abbreviation (input) E_PIPE :: int where "E_PIPE \<equiv> 32"

section \<open>The pipe\<close>

record pipe =
  p_buf :: string
  p_head :: nat
  p_tail :: nat
  p_count :: nat
  readers :: int
  writers :: int
  rtot :: nat
  wtot :: nat
  p_wq :: nat
  wopens :: int
  wgen :: nat
  gone :: bool

definition pipe_zero :: pipe where
  "pipe_zero = \<lparr>p_buf = replicate PIPE_SZ (CHR 0x00), p_head = 0, p_tail = 0, p_count = 0, readers = 0, writers = 0,
     rtot = 0, wtot = 0, p_wq = 0, wopens = 0, wgen = 0, gone = False\<rparr>"

definition pipe_wake :: "pipe \<Rightarrow> pipe" where "pipe_wake p = p\<lparr>p_wq := p_wq p + 1\<rparr>"

definition pipe_dead :: "pipe \<Rightarrow> bool" where "pipe_dead p \<longleftrightarrow> readers p \<le> 0 \<and> writers p \<le> 0"

definition pipe_end :: "int \<Rightarrow> int \<Rightarrow> pipe \<Rightarrow> bool \<times> pipe" where
  "pipe_end dr dw p = (let q = pipe_wake (p\<lparr>readers := readers p + dr, writers := writers p + dw\<rparr>) in (pipe_dead q, q))"

text \<open>What a turn of a loop comes to: it returns, it sleeps on the queue, or it goes round at once.\<close>

datatype turn = Return int | Sleep | Again

definition read_turn :: "bool \<Rightarrow> nat \<Rightarrow> bool \<Rightarrow> string \<Rightarrow> pipe \<Rightarrow> turn \<times> string \<times> pipe" where
  "read_turn nonblock n intr got p =
     (if p_count p = 0 then
        (if got \<noteq> [] \<or> writers p \<le> 0 then (Return (int (length got)), got, p)
         else if nonblock then (Return (- E_AGAIN), got, p)
         else if intr then (Return (- E_INTR), got, p)
         else (Sleep, got, p))
      else
        (let k = min (min (min (PIPE_SZ - p_tail p) (p_count p)) (n - length got)) TMP_SZ;
             got' = got @ take k (drop (p_tail p) (p_buf p));
             p' = pipe_wake (p\<lparr>p_tail := (p_tail p + k) mod PIPE_SZ, p_count := p_count p - k, rtot := add64 (rtot p) k\<rparr>)
         in (if n \<le> length got' then Return (int (length got')) else Again, got', p')))"

partial_function (option) read_loop ::
    "(nat \<Rightarrow> bool) \<Rightarrow> (nat \<Rightarrow> pipe \<Rightarrow> pipe) \<Rightarrow> nat \<Rightarrow> bool \<Rightarrow> nat \<Rightarrow> string \<Rightarrow> pipe \<Rightarrow> (int \<times> string \<times> pipe) option" where
  "read_loop intr world t nonblock n got p =
     (case read_turn nonblock n (intr t) got (world t p) of
        (Return r, got', p') \<Rightarrow> Some (r, got', p')
      | (_, got', p') \<Rightarrow> read_loop intr world (Suc t) nonblock n got' p')"

definition pipe_read :: "(nat \<Rightarrow> bool) \<Rightarrow> (nat \<Rightarrow> pipe \<Rightarrow> pipe) \<Rightarrow> bool \<Rightarrow> nat \<Rightarrow> pipe \<Rightarrow> (int \<times> string \<times> pipe) option" where
  "pipe_read intr world nonblock n p = read_loop intr world 0 nonblock n [] p"

text \<open>A turn of the writer; the second part of the result says that the writer got a \<open>SIGPIPE\<close>.\<close>

definition so_far :: "nat \<Rightarrow> int \<Rightarrow> int" where "so_far put e = (if put \<noteq> 0 then int put else - e)"

definition write_turn :: "bool \<Rightarrow> string \<Rightarrow> bool \<Rightarrow> nat \<Rightarrow> pipe \<Rightarrow> turn \<times> bool \<times> nat \<times> pipe" where
  "write_turn nonblock data intr put p =
     (if readers p \<le> 0 then (Return (so_far put E_PIPE), True, put, p)
      else if p_count p = PIPE_SZ then
        (if nonblock then (Return (so_far put E_AGAIN), False, put, p)
         else if intr then (Return (so_far put E_INTR), False, put, p)
         else (Sleep, False, put, p))
      else
        (let tmp = take TMP_SZ (drop put data);
             c = min (min (PIPE_SZ - p_head p) (PIPE_SZ - p_count p)) (length tmp);
             p' = pipe_wake (p\<lparr>p_buf := put_at (p_buf p) (p_head p) (take c tmp), p_head := (p_head p + c) mod PIPE_SZ,
                    p_count := p_count p + c, wtot := add64 (wtot p) c, wgen := add32 (wgen p) 1\<rparr>)
         in (Again, False, put + c, p')))"

partial_function (option) write_loop ::
    "(nat \<Rightarrow> bool) \<Rightarrow> (nat \<Rightarrow> pipe \<Rightarrow> pipe) \<Rightarrow> nat \<Rightarrow> bool \<Rightarrow> string \<Rightarrow> nat \<Rightarrow> pipe \<Rightarrow> (int \<times> bool \<times> pipe) option" where
  "write_loop intr world t nonblock data put p =
     (if length data \<le> put then Some (int put, False, p)
      else (case write_turn nonblock data (intr t) put (world t p) of
              (Return r, sig, put', p') \<Rightarrow> Some (r, sig, p')
            | (_, sig, put', p') \<Rightarrow> write_loop intr world (Suc t) nonblock data put' p'))"

definition pipe_write :: "(nat \<Rightarrow> bool) \<Rightarrow> (nat \<Rightarrow> pipe \<Rightarrow> pipe) \<Rightarrow> bool \<Rightarrow> string \<Rightarrow> pipe \<Rightarrow> (int \<times> bool \<times> pipe) option" where
  "pipe_write intr world nonblock data p = write_loop intr world 0 nonblock data 0 p"

text \<open>
  \<open>tee\<close>: the bytes are copied from the pipe of the first file, which keeps them, and written to the other. The
  result of the first part is the answer of an early return or the copy.
\<close>

definition tee_turn :: "bool \<Rightarrow> nat \<Rightarrow> bool \<Rightarrow> pipe \<Rightarrow> (int + string) option" where
  "tee_turn nonblock len intr p =
     (if p_count p = 0 then
        (if writers p \<le> 0 then Some (Inl 0)
         else if nonblock then Some (Inl (- E_AGAIN))
         else if intr then Some (Inl (- E_INTR))
         else None)
      else
        (let k = min (p_count p) len; c1 = min (PIPE_SZ - p_tail p) k
         in Some (Inr (take c1 (drop (p_tail p) (p_buf p)) @ take (k - c1) (p_buf p)))))"

partial_function (option) tee_loop ::
    "(nat \<Rightarrow> bool) \<Rightarrow> (nat \<Rightarrow> pipe \<Rightarrow> pipe) \<Rightarrow> nat \<Rightarrow> bool \<Rightarrow> nat \<Rightarrow> pipe \<Rightarrow> ((int + string) \<times> pipe) option" where
  "tee_loop intr world t nonblock len p =
     (let q = world t p in
      case tee_turn nonblock len (intr t) q of
        Some r \<Rightarrow> Some (r, q)
      | None \<Rightarrow> tee_loop intr world (Suc t) nonblock len q)"

definition pipe_tee ::
    "bool \<Rightarrow> (nat \<Rightarrow> bool) \<Rightarrow> (nat \<Rightarrow> pipe \<Rightarrow> pipe) \<Rightarrow> (nat \<Rightarrow> bool) \<Rightarrow> (nat \<Rightarrow> pipe \<Rightarrow> pipe) \<Rightarrow> bool \<Rightarrow> bool \<Rightarrow> nat \<Rightarrow> pipe \<Rightarrow> pipe \<Rightarrow>
     (int \<times> bool \<times> pipe \<times> pipe) option" where
  "pipe_tee mem intra worlda intrb worldb nba nbb len p q =
     (if \<not> mem then Some (- E_NOMEM, False, p, q)
      else do {
        (r, p') \<leftarrow> tee_loop intra worlda 0 nba (min len PIPE_SZ) p;
        (case r of
           Inl e \<Rightarrow> Some (e, False, p', q)
         | Inr data \<Rightarrow> map_option (\<lambda>(v, sig, q'). (v, sig, p', q')) (pipe_write intrb worldb nbb data q)) })"

section \<open>Open files\<close>

datatype ftype = F_NODE | F_TTY | F_PIPE_R | F_PIPE_W | F_NULL | F_ZERO | F_RANDOM | F_DISK | F_SOCKET | F_FB | F_INPUT
  | F_PTM | F_PTS | F_SPAIR | F_NETLINK | F_USOCK | F_ULISTEN | F_EPOLL | F_EVENTFD | F_TIMERFD | F_DRM | F_SIGNALFD | F_SND
  | F_URING | F_INOTIFY | F_PIDFD | F_PMEM | F_RTC

text \<open>The handles of the drivers (\<open>snd\<close>, \<open>drm\<close>, \<open>sock\<close>, \<open>ux\<close>, \<open>ep\<close>, \<open>ur\<close>) are the one field \<open>f_drv\<close>: a file has one.\<close>

record file_t =
  f_type :: ftype
  f_refs :: int
  f_flags :: nat
  f_off :: nat
  f_node :: "nat option"
  f_pipe :: "nat option"
  f_pipe2 :: "nat option"
  shut_rd :: bool
  shut_wr :: bool
  f_disk :: int
  f_drv :: "nat option"
  f_pty :: int
  f_cnt :: nat
  f_wq :: nat
  t_next :: nat
  t_int :: nat

definition file_zero :: "ftype \<Rightarrow> nat \<Rightarrow> file_t" where
  "file_zero ty flags = \<lparr>f_type = ty, f_refs = 1, f_flags = flags, f_off = 0, f_node = None, f_pipe = None, f_pipe2 = None,
     shut_rd = False, shut_wr = False, f_disk = 0, f_drv = None, f_pty = 0, f_cnt = 0, f_wq = 0, t_next = 0, t_int = 0\<rparr>"

text \<open>What the file layer tells other components.\<close>

datatype io_event = Io_Wake | Wake_Node nat nat | Flk_Release nat | Fs_Release nat | Ino_Close nat | Close_Dev ftype nat
  | Drain_Pipe nat | Drain_File nat | Efd_Wake | Sigpipe

text \<open>
  The objects of this layer: pipes and files by address, the addresses in use, the answers \<open>kmalloc\<close> will give
  (an empty list is no memory), the pipe that a named pipe keeps in \<open>data\<close>, the open counts of nodes.
\<close>

record io =
  kpipes :: "nat \<Rightarrow> pipe"
  kfiles :: "nat \<Rightarrow> file_t"
  klive :: "nat list"
  kmem :: "nat option list"
  fifo_data :: "nat \<Rightarrow> nat option"
  open_refs :: "nat \<Rightarrow> int"
  ievs :: "io_event list"

definition kmalloc_io :: "io \<Rightarrow> nat option \<times> io" where
  "kmalloc_io s = (case kmem s of
      Some a # r \<Rightarrow> (Some a, s\<lparr>kmem := r, klive := a # klive s\<rparr>)
    | None # r \<Rightarrow> (None, s\<lparr>kmem := r\<rparr>)
    | [] \<Rightarrow> (None, s))"

definition kfree_io :: "nat \<Rightarrow> io \<Rightarrow> io" where "kfree_io a s = s\<lparr>klive := remove1 a (klive s)\<rparr>"

definition kfree_opt :: "nat option \<Rightarrow> io \<Rightarrow> io" where
  "kfree_opt a s = (case a of None \<Rightarrow> s | Some x \<Rightarrow> kfree_io x s)"

definition upd_pipe :: "nat \<Rightarrow> (pipe \<Rightarrow> pipe) \<Rightarrow> io \<Rightarrow> io" where
  "upd_pipe a f s = s\<lparr>kpipes := (kpipes s)(a := f (kpipes s a))\<rparr>"

definition upd_file :: "nat \<Rightarrow> (file_t \<Rightarrow> file_t) \<Rightarrow> io \<Rightarrow> io" where
  "upd_file a f s = s\<lparr>kfiles := (kfiles s)(a := f (kfiles s a))\<rparr>"

definition iev :: "io_event \<Rightarrow> io \<Rightarrow> io" where "iev e s = s\<lparr>ievs := ievs s @ [e]\<rparr>"

definition file_new :: "ftype \<Rightarrow> nat \<Rightarrow> io \<Rightarrow> nat option \<times> io" where
  "file_new ty flags s =
     (case kmalloc_io s of
        (None, s1) \<Rightarrow> (None, s1)
      | (Some a, s1) \<Rightarrow> (Some a, upd_file a (\<lambda>_. file_zero ty flags) s1))"

definition file_ref :: "nat option \<Rightarrow> io \<Rightarrow> io" where
  "file_ref f s = (case f of None \<Rightarrow> s | Some a \<Rightarrow> upd_file a (\<lambda>x. x\<lparr>f_refs := f_refs x + 1\<rparr>) s)"

definition acc :: "nat \<Rightarrow> nat" where "acc flags = flags mod 4"

definition nonblock :: "file_t \<Rightarrow> bool" where "nonblock f = bit (f_flags f) 11"

definition end_of :: "int \<Rightarrow> int \<Rightarrow> nat \<Rightarrow> io \<Rightarrow> io" where
  "end_of dr dw a s = upd_pipe a (\<lambda>p. snd (pipe_end dr dw p)) s"

definition spair_shutdown :: "nat \<Rightarrow> int \<Rightarrow> io \<Rightarrow> int \<times> io" where
  "spair_shutdown f how s =
     (if how < 0 \<or> 2 < how then (- E_INVAL, s)
      else
        (let s1 = (if (how = 0 \<or> how = 2) \<and> \<not> shut_rd (kfiles s f)
                   then end_of (- 1) 0 (the (f_pipe (kfiles s f))) (upd_file f (\<lambda>x. x\<lparr>shut_rd := True\<rparr>) s) else s);
             s2 = (if (how = 1 \<or> how = 2) \<and> \<not> shut_wr (kfiles s1 f)
                   then end_of 0 (- 1) (the (f_pipe2 (kfiles s1 f))) (upd_file f (\<lambda>x. x\<lparr>shut_wr := True\<rparr>) s1) else s1)
         in (0, s2)))"

section \<open>Closing\<close>

text \<open>The calls that \<open>file_close\<close> makes by the type of the file, the pipes apart.\<close>

definition close_events :: "nat \<Rightarrow> file_t \<Rightarrow> io_event list" where
  "close_events a f =
     (case f_type f of
        F_NODE \<Rightarrow> (case f_node f of None \<Rightarrow> []
                     | Some n \<Rightarrow> [Wake_Node n (if acc (f_flags f) \<noteq> 0 then 8 else 0x10), Flk_Release a, Fs_Release n])
      | F_INOTIFY \<Rightarrow> [Ino_Close a]
      | F_SOCKET \<Rightarrow> (case f_drv f of None \<Rightarrow> [] | Some d \<Rightarrow> [Close_Dev F_SOCKET d])
      | F_FB \<Rightarrow> [Close_Dev F_FB 0]
      | F_DRM \<Rightarrow> [Close_Dev F_DRM (the (f_drv f))]
      | F_SND \<Rightarrow> [Close_Dev F_SND (the (f_drv f))]
      | F_INPUT \<Rightarrow> [Close_Dev F_INPUT (nat (f_disk f))]
      | F_PTM \<Rightarrow> [Close_Dev F_PTM (nat (f_pty f))]
      | F_PTS \<Rightarrow> [Close_Dev F_PTS (nat (f_pty f))]
      | F_USOCK \<Rightarrow> [Close_Dev F_USOCK a]
      | F_ULISTEN \<Rightarrow> [Close_Dev F_ULISTEN a]
      | F_EVENTFD \<Rightarrow> [Drain_File a]
      | F_RTC \<Rightarrow> [Close_Dev F_RTC 0]
      | F_EPOLL \<Rightarrow> (case f_drv f of None \<Rightarrow> [] | Some d \<Rightarrow> [Close_Dev F_EPOLL d])
      | F_URING \<Rightarrow> (case f_drv f of None \<Rightarrow> [] | Some d \<Rightarrow> [Close_Dev F_URING d])
      | _ \<Rightarrow> [])"

definition spair_free :: "nat \<Rightarrow> io \<Rightarrow> io" where
  "spair_free q s =
     (if pipe_dead (kpipes s q) \<and> \<not> gone (kpipes s q)
      then kfree_io q (iev (Drain_Pipe q) (upd_pipe q (\<lambda>p. p\<lparr>gone := True\<rparr>) s)) else s)"

definition close_pipe :: "nat \<Rightarrow> file_t \<Rightarrow> io \<Rightarrow> io" where
  "close_pipe q f s =
     (let rw = acc (f_flags f) = 2; rd = f_type f = F_PIPE_R;
          (dead, p) = pipe_end (if rd then - 1 else 0) (if rd then (if rw then - 1 else 0) else - 1) (kpipes s q);
          s1 = upd_pipe q (\<lambda>_. p) s;
          s2 = (if dead then kfree_io q (case f_node f of None \<Rightarrow> s1 | Some n \<Rightarrow> s1\<lparr>fifo_data := (fifo_data s1)(n := None)\<rparr>) else s1)
      in (case f_node f of None \<Rightarrow> s2 | Some n \<Rightarrow> iev (Fs_Release n) s2))"

text \<open>\<open>ino_close\<close> frees the pipe of an inotify file and clears its pointer before the test of \<open>f->pipe\<close>.\<close>

definition file_close :: "nat option \<Rightarrow> io \<Rightarrow> io" where
  "file_close fo s =
     (case fo of None \<Rightarrow> s | Some a \<Rightarrow>
        (let s1 = upd_file a (\<lambda>x. x\<lparr>f_refs := f_refs x - 1\<rparr>) s; f = kfiles s1 a in
         if 0 < f_refs f then s1
         else
           (let s2 = fold iev (close_events a f) s1;
                s3 = (if f_type f = F_SPAIR
                      then spair_free (the (f_pipe2 f)) (spair_free (the (f_pipe f)) (snd (spair_shutdown a 2 s2)))
                      else if f_type f = F_INOTIFY then s2
                      else (case f_pipe f of None \<Rightarrow> s2 | Some q \<Rightarrow> close_pipe q f s2));
                s4 = (if f_type f \<noteq> F_NODE then iev Io_Wake s3 else s3)
            in kfree_io a s4)))"

section \<open>Opening\<close>

definition pipe_create :: "io \<Rightarrow> int \<times> nat option \<times> nat option \<times> io" where
  "pipe_create s =
     (case kmalloc_io s of
        (None, s1) \<Rightarrow> (- E_NOMEM, None, None, s1)
      | (Some p, s1) \<Rightarrow>
          (let (rd, s2) = file_new F_PIPE_R 0 s1; (wr, s3) = file_new F_PIPE_W 1 s2 in
           (case (rd, wr) of
              (Some r, Some w) \<Rightarrow>
                (0, rd, wr, upd_pipe p (\<lambda>_. pipe_zero\<lparr>readers := 1, writers := 1\<rparr>)
                   (upd_file w (\<lambda>x. x\<lparr>f_pipe := Some p\<rparr>) (upd_file r (\<lambda>x. x\<lparr>f_pipe := Some p\<rparr>) s3)))
            | _ \<Rightarrow> (- E_NOMEM, rd, wr, kfree_opt wr (kfree_opt rd (kfree_io p s3))))))"

definition spair_create :: "io \<Rightarrow> int \<times> nat option \<times> nat option \<times> io" where
  "spair_create s =
     (let (p1, s1) = kmalloc_io s; (p2, s2) = kmalloc_io s1; (fa, s3) = file_new F_SPAIR 2 s2; (fb, s4) = file_new F_SPAIR 2 s3 in
      (case (p1, p2, fa, fb) of
         (Some q1, Some q2, Some a, Some b) \<Rightarrow>
           (0, fa, fb,
            upd_pipe q2 (\<lambda>_. pipe_zero\<lparr>readers := 1, writers := 1\<rparr>) (upd_pipe q1 (\<lambda>_. pipe_zero\<lparr>readers := 1, writers := 1\<rparr>)
              (upd_file b (\<lambda>x. x\<lparr>f_pipe := Some q2, f_pipe2 := Some q1\<rparr>)
                (upd_file a (\<lambda>x. x\<lparr>f_pipe := Some q1, f_pipe2 := Some q2\<rparr>) s4))))
       | _ \<Rightarrow> (- E_NOMEM, fa, fb, kfree_opt fb (kfree_opt fa (kfree_opt p2 (kfree_opt p1 s4))))))"

text \<open>The wait of a blocking open of a named pipe for the other end: \<open>False\<close> when a signal came.\<close>

partial_function (option) fifo_wait ::
    "(nat \<Rightarrow> bool) \<Rightarrow> (nat \<Rightarrow> io \<Rightarrow> io) \<Rightarrow> nat \<Rightarrow> bool \<Rightarrow> nat \<Rightarrow> int \<Rightarrow> io \<Rightarrow> (bool \<times> io) option" where
  "fifo_wait intr world t rdonly p wo s =
     (if (if rdonly then writers (kpipes s p) \<le> 0 \<and> wopens (kpipes s p) = wo else readers (kpipes s p) \<le> 0)
      then (if intr t then Some (False, s) else fifo_wait intr world (Suc t) rdonly p wo (world t s))
      else Some (True, s))"

definition fifo_pipe :: "nat \<Rightarrow> io \<Rightarrow> nat option \<times> io" where
  "fifo_pipe n s =
     (case fifo_data s n of
        Some p \<Rightarrow> (Some p, s)
      | None \<Rightarrow>
          (case kmalloc_io s of
             (None, s1) \<Rightarrow> (None, s1)
           | (Some p, s1) \<Rightarrow> (Some p, upd_pipe p (\<lambda>_. pipe_zero) (s1\<lparr>fifo_data := (fifo_data s1)(n := Some p)\<rparr>))))"

definition fifo_enter :: "nat \<Rightarrow> pipe \<Rightarrow> pipe" where
  "fifo_enter flags p =
     (let p1 = (if acc flags \<noteq> 1 then p\<lparr>readers := readers p + 1\<rparr> else p);
          p2 = (if acc flags \<noteq> 0 then p1\<lparr>writers := writers p1 + 1, wopens := wopens p1 + 1\<rparr> else p1)
      in pipe_wake p2)"

definition fifo_open :: "(nat \<Rightarrow> bool) \<Rightarrow> (nat \<Rightarrow> io \<Rightarrow> io) \<Rightarrow> nat \<Rightarrow> nat \<Rightarrow> io \<Rightarrow> (int \<times> nat option \<times> io) option" where
  "fifo_open intr world n flags s =
     (if acc flags = 1 \<and> bit flags 11 \<and> (case fifo_data s n of None \<Rightarrow> True | Some p \<Rightarrow> readers (kpipes s p) \<le> 0)
      then Some (- E_NXIO, None, s)
      else (case fifo_pipe n s of
              (None, s1) \<Rightarrow> Some (- E_NOMEM, None, s1)
            | (Some p, s1) \<Rightarrow>
                (case file_new (if acc flags = 1 then F_PIPE_W else F_PIPE_R) (unset_bit 19 flags) s1 of
                   (None, s2) \<Rightarrow> Some (- E_NOMEM, None, s2)
                 | (Some f, s2) \<Rightarrow>
                     (let s3 = upd_file f (\<lambda>x. x\<lparr>f_pipe := Some p, f_node := Some n\<rparr>) (s2\<lparr>open_refs := (open_refs s2)(n := open_refs s2 n + 1)\<rparr>);
                          wo = wopens (kpipes s3 p);
                          s4 = iev Io_Wake (upd_pipe p (fifo_enter flags) s3)
                      in if \<not> bit flags 11 \<and> acc flags \<noteq> 2
                         then map_option (\<lambda>(ok, s5). if ok then (0, Some f, s5) else (- E_INTR, None, file_close (Some f) s5))
                                (fifo_wait intr world 0 (acc flags = 0) p wo s4)
                         else Some (0, Some f, s4)))))"

section \<open>What poll asks\<close>

definition pipe_readable :: "pipe \<Rightarrow> bool" where "pipe_readable p \<longleftrightarrow> 0 < p_count p \<or> writers p \<le> 0"

definition pipe_writable :: "pipe \<Rightarrow> bool" where "pipe_writable p \<longleftrightarrow> p_count p < PIPE_SZ \<or> readers p \<le> 0"

definition file_gen :: "nat \<Rightarrow> io \<Rightarrow> nat" where
  "file_gen a s =
     (let f = kfiles s a in
      if f_type f = F_PIPE_R \<or> f_type f = F_PIPE_W then wgen (kpipes s (the (f_pipe f)))
      else if f_type f = F_SPAIR then add32 (wgen (kpipes s (the (f_pipe f)))) (wgen (kpipes s (the (f_pipe2 f))))
      else 0)"

end
