(* ===== verification/Pipe_Correct.thy ===== *)
theory Pipe_Correct
  imports Pipe
begin

text \<open>
  What a pipe promises: it is a first-in first-out queue of bytes. The turns of readers and writers satisfy the
  contract \<open>channel\<close>; over every interleaving of any number of calls in progress the bytes that were read are,
  in the order of the turns, the first of the bytes that were written, and the pipe holds the others. A call that
  does not block returns whatever the other processes do.
\<close>

section \<open>The pipe as a queue\<close>

definition pipe_ok :: "pipe \<Rightarrow> bool" where
  "pipe_ok p \<longleftrightarrow> ring_ok PIPE_SZ (p_buf p) (p_head p) (p_tail p) (p_count p)"

definition held_in :: "pipe \<Rightarrow> string" where "held_in p = ring_seq (p_buf p) (p_tail p) (p_count p)"

text \<open>The bytes that a turn of a writer puts into the pipe and that a turn of a reader takes out of it.\<close>

definition sent :: "bool \<times> string \<times> bool \<times> nat \<Rightarrow> pipe \<Rightarrow> string \<times> pipe" where
  "sent = (\<lambda>(nb, data, intr, put) p. case write_turn nb data intr put p of
     (r, sig, put', p') \<Rightarrow> (take (put' - put) (drop put data), p'))"

definition taken :: "bool \<times> nat \<times> bool \<times> string \<Rightarrow> pipe \<Rightarrow> string \<times> pipe" where
  "taken = (\<lambda>(nb, n, intr, got) p. case read_turn nb n intr got p of
     (r, got', p') \<Rightarrow> (drop (length got) got', p'))"

lemma pipe_zero_ok: "pipe_ok (pipe_zero\<lparr>readers := a, writers := b\<rparr>)"
  by (simp add: pipe_ok_def ring_ok_def pipe_zero_def)

lemma pipe_end_held: "pipe_end dr dw p = (d, p') \<Longrightarrow> pipe_ok p' = pipe_ok p \<and> held_in p' = held_in p"
  by (auto simp: pipe_end_def pipe_ok_def held_in_def pipe_wake_def Let_def)

lemma write_turn_law:
  assumes "pipe_ok p" and "write_turn nb data intr put p = (r, sig, put', p')"
  shows "pipe_ok p' \<and> put \<le> put' \<and> held_in p' = held_in p @ take (put' - put) (drop put data)"
proof (cases "readers p \<le> 0 \<or> p_count p = PIPE_SZ")
  case True
  then show ?thesis using assms by (auto simp: write_turn_def split: if_splits)
next
  case False
  define tmp where "tmp = take TMP_SZ (drop put data)"
  define c where "c = min (min (PIPE_SZ - p_head p) (PIPE_SZ - p_count p)) (length tmp)"
  define xs where "xs = take c tmp"
  have o: "ring_ok PIPE_SZ (p_buf p) (p_head p) (p_tail p) (p_count p)" using assms(1) by (simp add: pipe_ok_def)
  then have n: "p_count p \<le> PIPE_SZ" "p_head p < PIPE_SZ" by (auto simp: ring_ok_def)
  have l: "length xs = c" "xs = take c (drop put data)" by (auto simp: xs_def c_def tmp_def min_def)
  have fit: "p_count p + length xs \<le> PIPE_SZ" "p_head p + length xs \<le> PIPE_SZ" unfolding l(1) c_def using n by linarith+
  have n': "\<not> readers p \<le> 0" "p_count p \<noteq> PIPE_SZ" using False by blast+
  have e: "put' = put + c"
    "p' = pipe_wake (p\<lparr>p_buf := put_at (p_buf p) (p_head p) xs, p_head := (p_head p + c) mod PIPE_SZ,
                    p_count := p_count p + c, wtot := add64 (wtot p) c, wgen := add32 (wgen p) 1\<rparr>)"
    using assms(2) unfolding write_turn_def Let_def tmp_def [symmetric] c_def [symmetric] xs_def [symmetric] if_not_P [OF n'(1)] if_not_P [OF n'(2)]
    by blast+
  have "pipe_ok p' \<and> held_in p' = held_in p @ xs"
    using ring_ok_block [OF o fit] unfolding e(2) l(1) pipe_ok_def held_in_def pipe_wake_def by simp
  then show ?thesis unfolding l(2) e(1) by simp
qed

lemma read_turn_law:
  assumes "pipe_ok p" and "read_turn nb n intr got p = (r, got', p')"
  shows "\<exists>xs. got' = got @ xs \<and> pipe_ok p' \<and> held_in p = xs @ held_in p'"
proof (cases "p_count p = 0")
  case True
  then show ?thesis using assms by (auto simp: read_turn_def split: if_splits)
next
  case False
  define k where "k = min (min (min (PIPE_SZ - p_tail p) (p_count p)) (n - length got)) TMP_SZ"
  have o: "ring_ok PIPE_SZ (p_buf p) (p_head p) (p_tail p) (p_count p)" using assms(1) by (simp add: pipe_ok_def)
  have k: "k \<le> p_count p" "k \<le> PIPE_SZ - p_tail p" unfolding k_def by linarith+
  have "p_tail p < PIPE_SZ" "length (p_buf p) = PIPE_SZ" using o by (auto simp: ring_ok_def)
  then have f: "ring_seq (p_buf p) (p_tail p) k = take k (drop (p_tail p) (p_buf p))" using k(2) by (intro ring_seq_flat) linarith
  have e: "got' = got @ take k (drop (p_tail p) (p_buf p))"
    "p' = pipe_wake (p\<lparr>p_tail := (p_tail p + k) mod PIPE_SZ, p_count := p_count p - k, rtot := add64 (rtot p) k\<rparr>)"
    using assms(2) False unfolding read_turn_def Let_def k_def [symmetric] by (simp_all only: if_False prod.inject)
  show ?thesis using ring_ok_get [OF o k(1)] f unfolding e pipe_ok_def held_in_def pipe_wake_def by simp
qed

interpretation pq: channel pipe_ok held_in sent taken
proof
  fix s :: pipe and m xs s'
  assume a: "pipe_ok s" "sent m s = (xs, s')"
  obtain nb data intr put where m: "m = (nb, data, intr, put)" by (cases m)
  obtain r sig put' p' where w: "write_turn nb data intr put s = (r, sig, put', p')" by (metis prod_cases4)
  then show "pipe_ok s' \<and> held_in s' = held_in s @ xs" using write_turn_law [OF a(1) w] a(2) m by (simp add: sent_def)
next
  fix s :: pipe and m xs s'
  assume a: "pipe_ok s" "taken m s = (xs, s')"
  obtain nb n intr got where m: "m = (nb, n, intr, got)" by (cases m)
  obtain r got' p' where w: "read_turn nb n intr got s = (r, got', p')" by (metis prod_cases3)
  then show "pipe_ok s' \<and> held_in s = xs @ held_in s'" using read_turn_law [OF a(1) w] a(2) m by (auto simp: taken_def)
qed

section \<open>Calls that do not block return\<close>

lemma read_turn_progress:
  assumes "pipe_ok p" and "length got < n" and "read_turn True n intr got p = (r, got', p')"
  shows "(\<exists>v. r = Return v) \<or> r = Again \<and> length got < length got' \<and> length got' < n"
proof (cases "p_count p = 0")
  case True
  then show ?thesis using assms by (auto simp: read_turn_def split: if_splits)
next
  case False
  define k where "k = min (min (min (PIPE_SZ - p_tail p) (p_count p)) (n - length got)) TMP_SZ"
  have t: "p_tail p < PIPE_SZ" "length (p_buf p) = PIPE_SZ" using assms(1) by (auto simp: pipe_ok_def ring_ok_def)
  have k: "0 < k" "k \<le> PIPE_SZ - p_tail p" unfolding k_def using t False assms(2) by linarith+
  define g where "g = got @ take k (drop (p_tail p) (p_buf p))"
  have "length g = length got + k" using t k by (simp add: g_def)
  moreover have "got' = g" "r = (if n \<le> length g then Return (int (length g)) else Again)"
    using assms(3) unfolding read_turn_def Let_def k_def [symmetric] g_def [symmetric] if_not_P [OF False] by blast+
  ultimately show ?thesis using k(1) by (simp split: if_splits)
qed

lemma read_loop_returns:
  assumes "\<And>t p. pipe_ok p \<Longrightarrow> pipe_ok (world t p)" and "pipe_ok p" and "length got < n"
  shows "\<exists>y. read_loop intr world t True n got p = Some y"
  using assms(2,3)
proof (induction "n - length got" arbitrary: t got p rule: less_induct)
  case less
  obtain r got' p' where e: "read_turn True n (intr t) got (world t p) = (r, got', p')" by (metis prod_cases3)
  have w: "pipe_ok (world t p)" using assms(1) less.prems(1) by blast
  consider v where "r = Return v" | "r = Again" "length got < length got'" "length got' < n"
    using read_turn_progress [OF w less.prems(2) e] by blast
  then show ?case
  proof cases
    case 1
    then show ?thesis by (subst read_loop.simps) (simp add: e)
  next
    case 2
    have "pipe_ok p'" using read_turn_law [OF w e] by blast
    then have "\<exists>y. read_loop intr world (Suc t) True n got' p' = Some y" using 2 less.hyps by simp
    then show ?thesis by (subst read_loop.simps) (simp add: e 2)
  qed
qed

lemma pipe_read_returns:
  assumes "\<And>t p. pipe_ok p \<Longrightarrow> pipe_ok (world t p)" and "pipe_ok p" and "0 < n"
  shows "\<exists>y. pipe_read intr world True n p = Some y"
  unfolding pipe_read_def using read_loop_returns [OF assms(1,2), where got = "[]" and n = n] assms(3) by simp

lemma write_turn_progress:
  assumes "pipe_ok p" and "put < length data" and "write_turn True data intr put p = (r, sig, put', p')"
  shows "(\<exists>v. r = Return v) \<or> r = Again \<and> put < put'"
proof (cases "readers p \<le> 0 \<or> p_count p = PIPE_SZ")
  case True
  then show ?thesis using assms by (auto simp: write_turn_def split: if_splits)
next
  case False
  have n: "p_count p \<le> PIPE_SZ" "p_head p < PIPE_SZ" using assms(1) by (auto simp: pipe_ok_def ring_ok_def)
  have n': "\<not> readers p \<le> 0" "p_count p \<noteq> PIPE_SZ" using False by blast+
  have "r = Again \<and> put' = put + min (min (PIPE_SZ - p_head p) (PIPE_SZ - p_count p)) (length (take TMP_SZ (drop put data)))"
    using assms(3) unfolding write_turn_def Let_def if_not_P [OF n'(1)] if_not_P [OF n'(2)] by blast
  then show ?thesis using n False assms(2) by auto
qed

lemma write_loop_returns:
  assumes "\<And>t p. pipe_ok p \<Longrightarrow> pipe_ok (world t p)" and "pipe_ok p"
  shows "\<exists>y. write_loop intr world t True data put p = Some y"
  using assms(2)
proof (induction "length data - put" arbitrary: t put p rule: less_induct)
  case less
  show ?case
  proof (cases "length data \<le> put")
    case True
    then have "write_loop intr world t True data put p = Some (int put, False, p)" by (subst write_loop.simps) simp
    then show ?thesis by blast
  next
    case False
    obtain r sig put' p' where e: "write_turn True data (intr t) put (world t p) = (r, sig, put', p')" by (metis prod_cases4)
    have w: "pipe_ok (world t p)" using assms(1) less.prems by blast
    consider v where "r = Return v" | "r = Again" "put < put'"
      using write_turn_progress [OF w _ e] False by fastforce
    then show ?thesis
    proof cases
      case 1
      then show ?thesis using False by (subst write_loop.simps) (simp add: e)
    next
      case 2
      have "pipe_ok p'" using write_turn_law [OF w e] by blast
      then have "\<exists>y. write_loop intr world (Suc t) True data put' p' = Some y" using 2 False less.hyps by simp
      then show ?thesis using False by (subst write_loop.simps) (simp add: e 2)
    qed
  qed
qed

lemma pipe_write_returns:
  assumes "\<And>t p. pipe_ok p \<Longrightarrow> pipe_ok (world t p)" and "pipe_ok p"
  shows "\<exists>y. pipe_write intr world True data p = Some y"
  unfolding pipe_write_def by (rule write_loop_returns [OF assms])

section \<open>Any number of calls at once\<close>

text \<open>
  A call in progress is at the start of a turn of its loop; a finished one has its answer. The system steps by one
  turn of one call, by a new call, or by an end of the pipe that is opened or closed. The two logs are the bytes
  that went in and came out, with the call, in the order of the turns.
\<close>

datatype job = Reader bool nat string | Writer bool string nat | Has_Read int string | Has_Written int string nat

record psys =
  sp :: pipe
  jobs :: "nat \<Rightarrow> job option"
  wlog :: "(nat \<times> string) list"
  rlog :: "(nat \<times> string) list"

definition read_job :: "turn \<Rightarrow> bool \<Rightarrow> nat \<Rightarrow> string \<Rightarrow> job" where
  "read_job r nb n got = (case r of Return v \<Rightarrow> Has_Read v got | _ \<Rightarrow> Reader nb n got)"

definition write_job :: "turn \<Rightarrow> bool \<Rightarrow> string \<Rightarrow> nat \<Rightarrow> job" where
  "write_job r nb data put =
     (case r of Return v \<Rightarrow> Has_Written v data put
      | _ \<Rightarrow> if length data \<le> put then Has_Written (int put) data put else Writer nb data put)"

inductive pipe_reach :: "psys \<Rightarrow> bool" where
  start: "pipe_reach \<lparr>sp = pipe_zero\<lparr>readers := 1, writers := 1\<rparr>, jobs = (\<lambda>_. None), wlog = [], rlog = []\<rparr>"
| ends: "pipe_reach s \<Longrightarrow> pipe_reach (s\<lparr>sp := snd (pipe_end dr dw (sp s))\<rparr>)"
| call_read: "pipe_reach s \<Longrightarrow> jobs s i = None \<Longrightarrow> pipe_reach (s\<lparr>jobs := (jobs s)(i \<mapsto> Reader nb n [])\<rparr>)"
| call_write: "pipe_reach s \<Longrightarrow> jobs s i = None \<Longrightarrow> pipe_reach (s\<lparr>jobs := (jobs s)(i \<mapsto> write_job Again nb data 0)\<rparr>)"
| read_step: "pipe_reach s \<Longrightarrow> jobs s i = Some (Reader nb n got) \<Longrightarrow> read_turn nb n intr got (sp s) = (r, got', p') \<Longrightarrow>
    pipe_reach (s\<lparr>sp := p', jobs := (jobs s)(i \<mapsto> read_job r nb n got'), rlog := rlog s @ [(i, drop (length got) got')]\<rparr>)"
| write_step: "pipe_reach s \<Longrightarrow> jobs s i = Some (Writer nb data put) \<Longrightarrow> write_turn nb data intr put (sp s) = (r, sig, put', p') \<Longrightarrow>
    pipe_reach (s\<lparr>sp := p', jobs := (jobs s)(i \<mapsto> write_job r nb data put'),
       wlog := wlog s @ [(i, take (put' - put) (drop put data))]\<rparr>)"

text \<open>The bytes a call has read or written so far, and the same from a log.\<close>

fun read_by :: "job option \<Rightarrow> string" where
  "read_by (Some (Reader nb n got)) = got"
| "read_by (Some (Has_Read v got)) = got"
| "read_by _ = []"

fun written_by :: "job option \<Rightarrow> string" where
  "written_by (Some (Writer nb data put)) = take put data"
| "written_by (Some (Has_Written v data put)) = take put data"
| "written_by _ = []"

definition bytes :: "(nat \<times> string) list \<Rightarrow> string" where "bytes l = concat (map snd l)"

definition bytes_of :: "nat \<Rightarrow> (nat \<times> string) list \<Rightarrow> string" where "bytes_of i l = bytes (filter (\<lambda>e. fst e = i) l)"

text \<open>The answer of a finished call is the number of its bytes, or an error and no bytes.\<close>

fun answer_ok :: "job option \<Rightarrow> bool" where
  "answer_ok (Some (Has_Read v got)) \<longleftrightarrow> v = int (length got) \<or> v < 0 \<and> got = []"
| "answer_ok (Some (Has_Written v data put)) \<longleftrightarrow> v = int put \<or> v < 0 \<and> put = 0"
| "answer_ok _ \<longleftrightarrow> True"

lemma bytes_app [simp]: "bytes (l @ [e]) = bytes l @ snd e" "bytes [] = []"
  by (simp_all add: bytes_def)

lemma bytes_of_app [simp]: "bytes_of i (l @ [e]) = bytes_of i l @ (if fst e = i then snd e else [])" "bytes_of i [] = []"
  by (simp_all add: bytes_of_def)

lemma read_turn_some:
  assumes "p_count p \<noteq> 0" and "read_turn nb n intr got p = (r, got', p')"
  shows "r = (if n \<le> length got' then Return (int (length got')) else Again)"
proof -
  define k where "k = min (min (min (PIPE_SZ - p_tail p) (p_count p)) (n - length got)) TMP_SZ"
  define g where "g = got @ take k (drop (p_tail p) (p_buf p))"
  have "got' = g" "r = (if n \<le> length g then Return (int (length g)) else Again)"
    using assms(2) unfolding read_turn_def Let_def k_def [symmetric] g_def [symmetric] if_not_P [OF assms(1)] by blast+
  then show ?thesis by simp
qed

lemma read_turn_answer:
  assumes "read_turn nb n intr got p = (Return v, got', p')"
  shows "v = int (length got') \<or> v < 0 \<and> got' = []"
proof (cases "p_count p = 0")
  case True
  then show ?thesis using assms by (auto simp: read_turn_def split: if_splits)
next
  case False
  then show ?thesis using read_turn_some [OF False assms] by (simp split: if_splits)
qed

lemma write_turn_answer:
  "write_turn nb data intr put p = (Return v, sig, put', p') \<Longrightarrow> v = int put' \<or> v < 0 \<and> put' = 0"
  by (auto simp: write_turn_def so_far_def Let_def split: if_splits)

lemma job_simps [simp]:
  "read_by (Some (read_job r nb n got)) = got" "written_by (Some (read_job r nb n got)) = []"
  "read_by (Some (write_job r nb data put)) = []" "written_by (Some (write_job r nb data put)) = take put data"
  by (simp_all add: read_job_def write_job_def split: turn.splits)

definition psys_ok :: "psys \<Rightarrow> bool" where
  "psys_ok s \<longleftrightarrow> pq.fifo (bytes (wlog s)) (bytes (rlog s)) (sp s) \<and>
     (\<forall>i. read_by (jobs s i) = bytes_of i (rlog s) \<and> written_by (jobs s i) = bytes_of i (wlog s) \<and> answer_ok (jobs s i))"

lemma psys_okD:
  assumes "psys_ok s"
  shows "pq.fifo (bytes (wlog s)) (bytes (rlog s)) (sp s)"
    and "read_by (jobs s i) = bytes_of i (rlog s)" and "written_by (jobs s i) = bytes_of i (wlog s)"
  using assms by (auto simp: psys_ok_def)

lemma take_step: "put \<le> put' \<Longrightarrow> take put data @ take (put' - put) (drop put data) = take put' data"
  by (metis le_add_diff_inverse take_add)

lemma psys_ok_read:
  assumes "psys_ok s" and "jobs s i = Some (Reader nb n got)" and "read_turn nb n intr got (sp s) = (r, got', p')"
  shows "psys_ok (s\<lparr>sp := p', jobs := (jobs s)(i \<mapsto> read_job r nb n got'), rlog := rlog s @ [(i, drop (length got) got')]\<rparr>)"
proof -
  note f = psys_okD(1) [OF assms(1)]
  have b: "got = bytes_of i (rlog s)" "[] = bytes_of i (wlog s)" using psys_okD(2,3) [OF assms(1), of i] assms(2) by simp_all
  have "taken (nb, n, intr, got) (sp s) = (drop (length got) got', p')" using assms(3) by (simp add: taken_def)
  note t = pq.fifo_recv [OF f this]
  obtain xs where x: "got' = got @ xs" using read_turn_law [OF _ assms(3)] f by (auto simp: pq.fifo_def)
  have "answer_ok (Some (read_job r nb n got'))"
    using read_turn_answer [of nb n intr got "sp s" _ got' p'] assms(3) by (auto simp: read_job_def split: turn.split)
  then show ?thesis using assms(1) t x b by (simp add: psys_ok_def)
qed

lemma psys_ok_write:
  assumes "psys_ok s" and "jobs s i = Some (Writer nb data put)" and "write_turn nb data intr put (sp s) = (r, sig, put', p')"
  shows "psys_ok (s\<lparr>sp := p', jobs := (jobs s)(i \<mapsto> write_job r nb data put'), wlog := wlog s @ [(i, take (put' - put) (drop put data))]\<rparr>)"
proof -
  note f = psys_okD(1) [OF assms(1)]
  have b: "take put data = bytes_of i (wlog s)" "[] = bytes_of i (rlog s)" using psys_okD(2,3) [OF assms(1), of i] assms(2) by simp_all
  have "sent (nb, data, intr, put) (sp s) = (take (put' - put) (drop put data), p')" using assms(3) by (simp add: sent_def)
  note t = pq.fifo_send [OF f this]
  have "put \<le> put'" using write_turn_law [OF _ assms(3)] f by (auto simp: pq.fifo_def)
  then have x: "bytes_of i (wlog s) @ take (put' - put) (drop put data) = take put' data" using take_step b(1) by metis
  have "answer_ok (Some (write_job r nb data put'))"
    using write_turn_answer [of nb data intr put "sp s" _ sig put' p'] assms(3) by (auto simp: write_job_def split: turn.split)
  then show ?thesis using assms(1) t x b by (simp add: psys_ok_def)
qed

lemma psys_ok_new:
  assumes "psys_ok s" and "jobs s i = None" and "read_by (Some j) = []" and "written_by (Some j) = []" and "answer_ok (Some j)"
  shows "psys_ok (s\<lparr>jobs := (jobs s)(i \<mapsto> j)\<rparr>)"
proof -
  have "bytes_of i (rlog s) = []" "bytes_of i (wlog s) = []" using psys_okD(2,3) [OF assms(1), of i] assms(2) by simp_all
  then show ?thesis using assms by (simp add: psys_ok_def)
qed

lemma pipe_reach_ok: "pipe_reach s \<Longrightarrow> psys_ok s"
proof (induction rule: pipe_reach.induct)
  case start
  then show ?case using pipe_zero_ok [of 1 1] by (simp add: psys_ok_def pq.fifo_def held_in_def pipe_zero_def)
next
  case (ends s dr dw)
  obtain d p' where "pipe_end dr dw (sp s) = (d, p')" by (cases "pipe_end dr dw (sp s)")
  then show ?case using ends.IH pipe_end_held [of dr dw "sp s" d p'] by (simp add: psys_ok_def pq.fifo_def)
next
  case (call_read s i nb n)
  then show ?case by (intro psys_ok_new) simp_all
next
  case (call_write s i nb data)
  then show ?case by (intro psys_ok_new) (simp_all add: write_job_def)
next
  case (read_step s i nb n got intr r got' p')
  show ?case by (rule psys_ok_read [OF read_step.IH read_step.hyps(2,3)])
next
  case (write_step s i nb data put intr r sig put' p')
  show ?case by (rule psys_ok_write [OF write_step.IH write_step.hyps(2,3)])
qed

text \<open>C4: over every interleaving of the turns of any number of readers and writers of a pipe, with its ends opened and
  closed at any time, the bytes that were written are those that were read followed by those that the pipe holds, in
  the order of the turns; the ring stays in order; every call has the bytes that the log has for it, and answers
  with their number or with an error and no bytes.
\<close>

theorem pipe_fifo:
  assumes "pipe_reach s"
  shows "pipe_ok (sp s) \<and> bytes (wlog s) = bytes (rlog s) @ held_in (sp s) \<and>
     (\<forall>i. read_by (jobs s i) = bytes_of i (rlog s) \<and> written_by (jobs s i) = bytes_of i (wlog s) \<and> answer_ok (jobs s i))"
  using pipe_reach_ok [OF assms] by (simp add: psys_ok_def pq.fifo_def)

text \<open>A write of two bytes and a read of one of them.\<close>

definition demo_pipe :: pipe where
  "demo_pipe = snd (snd (snd (write_turn False ''ab'' False 0 (pipe_zero\<lparr>readers := 1, writers := 1\<rparr>))))"

lemma demo_write:
  "write_turn False ''ab'' False 0 (pipe_zero\<lparr>readers := 1, writers := 1\<rparr>) = (Again, False, 2, demo_pipe)"
  by (simp add: demo_pipe_def write_turn_def pipe_zero_def)

lemma demo_read: "read_turn False 1 False [] demo_pipe = (Return 1, ''a'', snd (snd (read_turn False 1 False [] demo_pipe)))"
  by (simp add: demo_pipe_def write_turn_def read_turn_def pipe_zero_def put_at_def pipe_wake_def Let_def)

definition demo_psys :: psys where
  "demo_psys = \<lparr>sp = snd (snd (read_turn False 1 False [] demo_pipe)),
     jobs = Map.empty(7 \<mapsto> Has_Written 2 ''ab'' 2, 8 \<mapsto> Has_Read 1 ''a''), wlog = [(7, ''ab'')], rlog = [(8, ''a'')]\<rparr>"

lemma demo_reach: "pipe_reach demo_psys"
proof -
  note a = call_read [OF call_write [OF start, where i = 7 and nb = False and data = "''ab''"], where i = 8 and nb = False and n = 1]
  have w: "write_job Again False ''ab'' 0 = Writer False ''ab'' 0" by (simp add: write_job_def)
  note b = write_step [OF a, where i = 7 and nb = False and data = "''ab''" and put = 0 and intr = False, simplified, OF w demo_write]
  note c = read_step [OF b, where i = 8 and nb = False and n = 1 and got = "[]" and intr = False, simplified, OF demo_read [simplified]]
  show ?thesis using c by (simp add: write_job_def read_job_def demo_psys_def)
qed

theorem pipe_fifo_witness:
  "pipe_reach demo_psys \<and> pipe_ok (sp demo_psys) \<and> held_in (sp demo_psys) = ''b'' \<and> read_by (jobs demo_psys 8) = ''a''"
  using demo_reach pipe_fifo [OF demo_reach] by (simp add: demo_psys_def bytes_def)

end
