(* ===== verification/Pty.thy ===== *)
theory Pty
  imports Ring Fs
begin

text \<open>
  Pseudo-terminals, \<open>src/src/proc/pty.c\<close>: the two rings of a pair, the line discipline with its editing, echo and
  signals, the life of a pair with its node below \<open>/dev/pts\<close>, reading and writing at both sides and the \<open>ioctl\<close>s.
  The canonical line is the list of its bytes. \<open>sigs\<close> and \<open>wakes\<close> log the calls of \<open>proc_signal_group\<close> and of
  \<open>wq_wake\<close>; clearing a pair does not clear them. In the loops that may block \<open>world\<close> is what others do to the pair
  before a turn, \<open>intr\<close> the answers of \<open>proc_interrupted\<close> and \<open>clk\<close> those of \<open>pit_uptime_ms\<close>.
\<close>

abbreviation (input) PTY_BUF :: nat where "PTY_BUF \<equiv> 4096"
abbreviation (input) NPTY :: nat where "NPTY \<equiv> 16"
abbreviation (input) LINE_SZ :: nat where "LINE_SZ \<equiv> 256"
abbreviation (input) P_EINTR :: int where "P_EINTR \<equiv> 4"
abbreviation (input) P_EIO :: int where "P_EIO \<equiv> 5"
abbreviation (input) P_ENXIO :: int where "P_ENXIO \<equiv> 6"
abbreviation (input) P_EAGAIN :: int where "P_EAGAIN \<equiv> 11"
abbreviation (input) P_EFAULT :: int where "P_EFAULT \<equiv> 14"
abbreviation (input) P_EBUSY :: int where "P_EBUSY \<equiv> 16"
abbreviation (input) P_EINVAL :: int where "P_EINVAL \<equiv> 22"
abbreviation (input) P_ENOTTY :: int where "P_ENOTTY \<equiv> 25"
abbreviation (input) P_ENOSPC :: int where "P_ENOSPC \<equiv> 28"

abbreviation (input) NL :: char where "NL \<equiv> CHR 0x0A"
abbreviation (input) CR :: char where "CR \<equiv> CHR 0x0D"
abbreviation (input) BS :: char where "BS \<equiv> CHR 0x08"

section \<open>Data\<close>

record ring =
  rb :: string
  rh :: nat
  rt :: nat
  rn :: nat

record termios =
  c_iflag :: nat
  c_oflag :: nat
  c_cflag :: nat
  c_lflag :: nat
  c_line :: nat
  c_cc :: "nat list"

record pty =
  used :: bool
  locked :: bool
  mrefs :: int
  srefs :: int
  slave_seen :: bool
  pin :: ring
  pout :: ring
  pline :: string
  eof :: nat
  tio :: termios
  rows :: nat
  cols :: nat
  pgrp :: int
  sid :: int
  pnode :: "nat option"
  sigs :: "(int \<times> nat) list"
  wakes :: nat

definition ring_zero :: ring where "ring_zero = \<lparr>rb = replicate PTY_BUF (CHR 0x00), rh = 0, rt = 0, rn = 0\<rparr>"

definition termios_zero :: termios where
  "termios_zero = \<lparr>c_iflag = 0, c_oflag = 0, c_cflag = 0, c_lflag = 0, c_line = 0, c_cc = replicate 19 0\<rparr>"

definition pty_clear :: "pty \<Rightarrow> pty" where
  "pty_clear p = p\<lparr>used := False, locked := False, mrefs := 0, srefs := 0, slave_seen := False, pin := ring_zero, pout := ring_zero,
     pline := [], eof := 0, tio := termios_zero, rows := 0, cols := 0, pgrp := 0, sid := 0, pnode := None\<rparr>"

text \<open>The bits of the flags by their numbers, and the control characters.\<close>

abbreviation (input) ISIG :: nat where "ISIG \<equiv> 0"
abbreviation (input) ICANON :: nat where "ICANON \<equiv> 1"
abbreviation (input) ECHO :: nat where "ECHO \<equiv> 3"
abbreviation (input) ECHOCTL :: nat where "ECHOCTL \<equiv> 9"
abbreviation (input) INLCR :: nat where "INLCR \<equiv> 6"
abbreviation (input) IGNCR :: nat where "IGNCR \<equiv> 7"
abbreviation (input) ICRNL :: nat where "ICRNL \<equiv> 8"
abbreviation (input) OPOST :: nat where "OPOST \<equiv> 0"
abbreviation (input) ONLCR :: nat where "ONLCR \<equiv> 2"
abbreviation (input) VINTR :: nat where "VINTR \<equiv> 0"
abbreviation (input) VQUIT :: nat where "VQUIT \<equiv> 1"
abbreviation (input) VERASE :: nat where "VERASE \<equiv> 2"
abbreviation (input) VKILL :: nat where "VKILL \<equiv> 3"
abbreviation (input) VEOF :: nat where "VEOF \<equiv> 4"
abbreviation (input) VTIME :: nat where "VTIME \<equiv> 5"
abbreviation (input) VMIN :: nat where "VMIN \<equiv> 6"

definition lflag :: "pty \<Rightarrow> nat \<Rightarrow> bool" where "lflag p k = bit (c_lflag (tio p)) k"

definition is_cc :: "pty \<Rightarrow> nat \<Rightarrow> char \<Rightarrow> bool" where "is_cc p k c \<longleftrightarrow> of_char c = c_cc (tio p) ! k"

section \<open>Rings\<close>

definition ring_space :: "ring \<Rightarrow> nat" where "ring_space r = PTY_BUF - rn r"

definition ring_put :: "char \<Rightarrow> ring \<Rightarrow> ring" where
  "ring_put c r = (if rn r = PTY_BUF then r else r\<lparr>rb := (rb r)[rh r := c], rh := (rh r + 1) mod PTY_BUF, rn := rn r + 1\<rparr>)"

definition ring_get :: "ring \<Rightarrow> char \<times> ring" where
  "ring_get r = (rb r ! rt r, r\<lparr>rt := (rt r + 1) mod PTY_BUF, rn := rn r - 1\<rparr>)"

section \<open>Line discipline\<close>

definition out_char :: "char \<Rightarrow> pty \<Rightarrow> pty" where
  "out_char c p =
     (let p1 = (if bit (c_oflag (tio p)) OPOST \<and> bit (c_oflag (tio p)) ONLCR \<and> c = NL then p\<lparr>pout := ring_put CR (pout p)\<rparr> else p)
      in p1\<lparr>pout := ring_put c (pout p1)\<rparr>)"

definition echo_char :: "char \<Rightarrow> pty \<Rightarrow> pty" where
  "echo_char c p =
     (if lflag p ECHOCTL \<and> (of_char c :: nat) < 0x20 \<and> c \<noteq> NL \<and> c \<noteq> CHR 0x09 \<and> c \<noteq> CR
      then out_char (char_of ((of_char c :: nat) + 64)) (out_char (CHR ''^'') p)
      else out_char c p)"

definition signal_group :: "int \<Rightarrow> nat \<Rightarrow> pty \<Rightarrow> pty" where "signal_group g s p = p\<lparr>sigs := sigs p @ [(g, s)]\<rparr>"

definition signal_fg :: "nat \<Rightarrow> pty \<Rightarrow> pty" where
  "signal_fg s p = (if pgrp p \<noteq> 0 then signal_group (pgrp p) s p else p)"

definition flush_line :: "pty \<Rightarrow> pty" where
  "flush_line p = p\<lparr>pin := fold ring_put (pline p) (pin p), pline := []\<rparr>"

definition in_map :: "pty \<Rightarrow> char \<Rightarrow> char" where
  "in_map p c = (if c = CR \<and> bit (c_iflag (tio p)) ICRNL then NL else if c = NL \<and> bit (c_iflag (tio p)) INLCR then CR else c)"

definition sig_of :: "pty \<Rightarrow> char \<Rightarrow> nat" where
  "sig_of p c = (if is_cc p VINTR c then 2 else if is_cc p VQUIT c then 3 else if c = CHR 0x1A then 20 else 0)"

definition rub_out :: "pty \<Rightarrow> pty" where
  "rub_out p =
     (let p1 = p\<lparr>pline := butlast (pline p)\<rparr>
      in if lflag p ECHO then out_char BS (out_char (CHR 0x20) (out_char BS p1)) else p1)"

definition input_char :: "char \<Rightarrow> pty \<Rightarrow> pty" where
  "input_char c0 p =
     (if c0 = CR \<and> bit (c_iflag (tio p)) IGNCR then p
      else (let c = in_map p c0 in
        if lflag p ISIG \<and> sig_of p c \<noteq> 0 \<and> c \<noteq> CHR 0x00 then
          (let p1 = (if lflag p ECHO then out_char NL (echo_char c p) else p);
               p2 = p1\<lparr>pline := []\<rparr>
           in if sig_of p c \<noteq> 20 then signal_fg (sig_of p c) p2 else p2)
        else if \<not> lflag p ICANON then
          (let p1 = p\<lparr>pin := ring_put c (pin p)\<rparr> in if lflag p ECHO then echo_char c p1 else p1)
        else if is_cc p VERASE c \<or> c = BS then
          (if pline p \<noteq> [] then rub_out p else p)
        else if is_cc p VKILL c then (rub_out ^^ length (pline p)) p
        else if is_cc p VEOF c then
          (if pline p \<noteq> [] then flush_line p else p\<lparr>eof := eof p + 1\<rparr>)
        else if c = NL then
          (let p1 = (if length (pline p) < LINE_SZ then p\<lparr>pline := pline p @ [c]\<rparr> else p)
           in flush_line (if lflag p ECHO then out_char NL p1 else p1))
        else if length (pline p) < LINE_SZ - 1 then
          (let p1 = p\<lparr>pline := pline p @ [c]\<rparr> in if lflag p ECHO then echo_char c p1 else p1)
        else p))"

section \<open>Reading and writing\<close>

definition pwake :: "pty \<Rightarrow> pty" where "pwake p = p\<lparr>wakes := wakes p + 1\<rparr>"

text \<open>Bytes from a ring, at most \<open>n\<close>; with \<open>canon\<close> the read stops after a newline.\<close>

fun ring_read :: "bool \<Rightarrow> nat \<Rightarrow> ring \<Rightarrow> string \<times> ring" where
  "ring_read canon 0 r = ([], r)"
| "ring_read canon (Suc n) r =
     (if rn r = 0 then ([], r)
      else (let (c, r1) = ring_get r in
            if canon \<and> c = NL then ([c], r1)
            else (let (cs, r2) = ring_read canon n r1 in (c # cs, r2))))"

datatype pturn = PReturn int string | PSleep

definition master_read_turn :: "nat \<Rightarrow> bool \<Rightarrow> bool \<Rightarrow> pty \<Rightarrow> pturn \<times> pty" where
  "master_read_turn n nonblock intr p =
     (if 0 < rn (pout p) then
        (let (cs, r) = ring_read False n (pout p) in (PReturn (int (length cs)) cs, pwake (p\<lparr>pout := r\<rparr>)))
      else if slave_seen p \<and> srefs p \<le> 0 then (PReturn (- P_EIO) [], p)
      else if nonblock then (PReturn (- P_EAGAIN) [], p)
      else if intr then (PReturn (- P_EINTR) [], p)
      else (PSleep, p))"

definition slave_read_turn :: "nat \<Rightarrow> bool \<Rightarrow> bool \<Rightarrow> nat \<Rightarrow> nat \<Rightarrow> pty \<Rightarrow> pturn \<times> pty" where
  "slave_read_turn n nonblock intr begun t p =
     (let canon = lflag p ICANON; poll = \<not> canon \<and> c_cc (tio p) ! VMIN = 0 in
      if 0 < rn (pin p) then
        (let (cs, r) = ring_read canon n (pin p) in (PReturn (int (length cs)) cs, pwake (p\<lparr>pin := r\<rparr>)))
      else if canon \<and> 0 < eof p then (PReturn 0 [], p\<lparr>eof := eof p - 1\<rparr>)
      else if mrefs p \<le> 0 then (PReturn 0 [], p)
      else if nonblock then (PReturn (- P_EAGAIN) [], p)
      else if poll \<and> c_cc (tio p) ! VTIME * 100 \<le> sub32 t begun then (PReturn 0 [], p)
      else if intr then (PReturn (- P_EINTR) [], p)
      else (PSleep, p))"

partial_function (option) pty_read_loop ::
    "(nat \<Rightarrow> pty \<Rightarrow> pturn \<times> pty) \<Rightarrow> (nat \<Rightarrow> pty \<Rightarrow> pty) \<Rightarrow> nat \<Rightarrow> pty \<Rightarrow> (int \<times> string \<times> pty) option" where
  "pty_read_loop turn world k p =
     (case turn k (world k p) of
        (PReturn r cs, p') \<Rightarrow> Some (r, cs, p')
      | (PSleep, p') \<Rightarrow> pty_read_loop turn world (Suc k) p')"

fun feed_in :: "string \<Rightarrow> pty \<Rightarrow> string \<times> pty" where
  "feed_in [] p = ([], p)"
| "feed_in (c # cs) p = (if 2 < ring_space (pin p) then feed_in cs (input_char c p) else (c # cs, p))"

fun feed_out :: "string \<Rightarrow> pty \<Rightarrow> string \<times> pty" where
  "feed_out [] p = ([], p)"
| "feed_out (c # cs) p = (if 2 < ring_space (pout p) then feed_out cs (out_char c p) else (c # cs, p))"

text \<open>A turn of a writer with \<open>data\<close> left to write and \<open>done\<close> bytes written; the bytes of a return are those left.\<close>

definition left :: "nat \<Rightarrow> int \<Rightarrow> int" where "left d e = (if d \<noteq> 0 then int d else - e)"

definition write_pty_turn :: "bool \<Rightarrow> bool \<Rightarrow> bool \<Rightarrow> string \<Rightarrow> nat \<Rightarrow> pty \<Rightarrow> pturn \<times> string \<times> nat \<times> pty" where
  "write_pty_turn master nonblock intr data d p =
     (if (if master then slave_seen p \<and> srefs p \<le> 0 else mrefs p \<le> 0) then (PReturn (left d P_EIO) data, data, d, p)
      else
        (let (rest, q) = (if master then feed_in data p else feed_out data p);
             d' = d + (length data - length rest); q' = pwake q
         in if rest = [] then (PReturn (int d') [], [], d', q')
            else if nonblock then (PReturn (left d' P_EAGAIN) rest, rest, d', q')
            else if intr then (PReturn (left d' P_EINTR) rest, rest, d', q')
            else (PSleep, rest, d', q')))"

partial_function (option) pty_write_loop ::
    "(nat \<Rightarrow> bool) \<Rightarrow> (nat \<Rightarrow> pty \<Rightarrow> pty) \<Rightarrow> nat \<Rightarrow> bool \<Rightarrow> bool \<Rightarrow> string \<Rightarrow> nat \<Rightarrow> pty \<Rightarrow> (int \<times> string \<times> pty) option" where
  "pty_write_loop intr world k master nonblock data d p =
     (if data = [] then Some (int d, [], p)
      else (case write_pty_turn master nonblock (intr k) data d (world k p) of
              (PReturn r rest, _, _, p') \<Rightarrow> Some (r, rest, p')
            | (PSleep, rest, d', p') \<Rightarrow> pty_write_loop intr world (Suc k) master nonblock rest d' p'))"

section \<open>Life of a pair\<close>

record pproc =
  tgid :: int
  psid :: int
  pgid :: int
  ctty :: int

record pty_sys =
  ptys :: "pty list"
  pfs :: fs
  pme :: "pproc option"
  io_wakes :: nat

definition get :: "int \<Rightarrow> pty_sys \<Rightarrow> nat option" where
  "get i s = (if 0 \<le> i \<and> i < int NPTY \<and> used (ptys s ! nat i) then Some (nat i) else None)"

definition upd_pty :: "nat \<Rightarrow> (pty \<Rightarrow> pty) \<Rightarrow> pty_sys \<Rightarrow> pty_sys" where
  "upd_pty i f s = s\<lparr>ptys := (ptys s)[i := f (ptys s ! i)]\<rparr>"

definition set_default_termios :: termios where
  "set_default_termios = termios_zero\<lparr>c_iflag := 0x100, c_oflag := 5, c_cflag := 0x04BF, c_lflag := 0x823B,
     c_cc := (replicate 19 0)[VINTR := 3, VQUIT := 0x1C, VERASE := 0x7F, VKILL := 0x15, VEOF := 4, VTIME := 0, VMIN := 1]\<rparr>"

fun num_digits :: "nat \<Rightarrow> string" where
  "num_digits i = (if i < 10 then [char_of (48 + i)] else num_digits (i div 10) @ [char_of (48 + i mod 10)])"

declare num_digits.simps [simp del]

definition node_name :: "nat \<Rightarrow> string" where "node_name i = ''/dev/pts/'' @ num_digits i"

definition release :: "nat \<Rightarrow> pty_sys \<Rightarrow> pty_sys option" where
  "release i s =
     (let p = ptys s ! i in
      if 0 < mrefs p \<or> 0 < srefs p then Some s
      else map_option (\<lambda>(_, f). upd_pty i pty_clear (s\<lparr>pfs := f\<rparr>)) (fs_unlink (root (pfs s)) (node_name i) (pfs s)))"

definition pty_fresh :: "pty \<Rightarrow> pty" where
  "pty_fresh p = (pty_clear p)\<lparr>used := True, locked := True, mrefs := 1, rows := 25, cols := 80, tio := set_default_termios\<rparr>"

definition pty_alloc :: "pty_sys \<Rightarrow> (int \<times> pty_sys) option" where
  "pty_alloc s =
     (case first_idx (\<lambda>p. \<not> used p) (ptys s) of
        None \<Rightarrow> Some (- P_ENOSPC, s)
      | Some i \<Rightarrow>
          (let s1 = upd_pty i pty_fresh s; (dir, f1) = fs_resolve (root (pfs s)) ''/dev/pts'' (pfs s) in
           do {
             f2 \<leftarrow> (if dir = None then map_option snd (fs_create (root f1) ''/dev/pts'' FS_DIR f1) else Some f1);
             (n, f3) \<leftarrow> fs_create (root f2) (node_name i) FS_FILE f2;
             (let f4 = (case n of None \<Rightarrow> f3 | Some a \<Rightarrow> upd a (\<lambda>x. x\<lparr>ndev := 64 + i, nmode := 0x190\<rparr>) f3)
              in Some (int i, upd_pty i (\<lambda>p. p\<lparr>pnode := n\<rparr>) (s1\<lparr>pfs := f4\<rparr>))) }))"

definition hang_up :: "pty \<Rightarrow> pty" where
  "hang_up p =
     (let p1 = p\<lparr>mrefs := mrefs p - 1\<rparr> in
      if mrefs p1 \<le> 0 then
        (let p2 = signal_fg 1 (p1\<lparr>mrefs := 0\<rparr>); p3 = (if sid p2 \<noteq> 0 then signal_group (sid p2) 1 p2 else p2) in pwake p3)
      else p1)"

definition pty_master_close :: "int \<Rightarrow> pty_sys \<Rightarrow> pty_sys option" where
  "pty_master_close i s = (case get i s of None \<Rightarrow> Some s | Some k \<Rightarrow> release k (upd_pty k hang_up s))"

definition pty_slave_open :: "int \<Rightarrow> nat \<Rightarrow> pty_sys \<Rightarrow> int \<times> pty_sys" where
  "pty_slave_open i flags s =
     (case get i s of
        None \<Rightarrow> (- P_ENXIO, s)
      | Some k \<Rightarrow>
          (let p = ptys s ! k in
           if mrefs p \<le> 0 then (- P_ENXIO, s)
           else if locked p then (- P_EIO, s)
           else
             (let s1 = upd_pty k (\<lambda>p. p\<lparr>srefs := srefs p + 1, slave_seen := True\<rparr>) s in
              (case pme s of
                 Some m \<Rightarrow>
                   if tgid m = psid m \<and> ctty m < 0 \<and> \<not> bit flags 8 \<and> sid p = 0
                   then (0, (upd_pty k (\<lambda>p. p\<lparr>sid := psid m, pgrp := pgid m\<rparr>) s1)\<lparr>pme := Some (m\<lparr>ctty := i + 1\<rparr>)\<rparr>)
                   else (0, s1)
               | None \<Rightarrow> (0, s1)))))"

definition slave_gone :: "pty \<Rightarrow> pty" where
  "slave_gone p =
     (let p1 = p\<lparr>srefs := max 0 (srefs p - 1)\<rparr> in if srefs p1 = 0 then pwake (p1\<lparr>sid := 0, pgrp := 0\<rparr>) else p1)"

definition pty_slave_close :: "int \<Rightarrow> pty_sys \<Rightarrow> pty_sys option" where
  "pty_slave_close i s = (case get i s of None \<Rightarrow> Some s | Some k \<Rightarrow> release k (upd_pty k slave_gone s))"

section \<open>Calls on a pair\<close>

definition slave_input_ready :: "pty \<Rightarrow> bool" where
  "slave_input_ready p \<longleftrightarrow> mrefs p \<le> 0 \<or> 0 < rn (pin p) \<or> lflag p ICANON \<and> 0 < eof p"

definition pty_readable :: "int \<Rightarrow> bool \<Rightarrow> pty_sys \<Rightarrow> bool" where
  "pty_readable i master s =
     (case get i s of None \<Rightarrow> True
      | Some k \<Rightarrow> let p = ptys s ! k in
          if master then 0 < rn (pout p) \<or> slave_seen p \<and> srefs p \<le> 0 else slave_input_ready p)"

definition pty_writable :: "int \<Rightarrow> bool \<Rightarrow> pty_sys \<Rightarrow> bool" where
  "pty_writable i master s =
     (case get i s of None \<Rightarrow> True
      | Some k \<Rightarrow> let p = ptys s ! k in if master then 64 < ring_space (pin p) else 0 < ring_space (pout p))"

definition pty_pending :: "int \<Rightarrow> bool \<Rightarrow> pty_sys \<Rightarrow> nat" where
  "pty_pending i master s =
     (case get i s of None \<Rightarrow> 0 | Some k \<Rightarrow> let p = ptys s ! k in if master then rn (pout p) else rn (pin p))"

definition pty_node :: "int \<Rightarrow> pty_sys \<Rightarrow> nat option" where
  "pty_node i s = (case get i s of None \<Rightarrow> None | Some k \<Rightarrow> pnode (ptys s ! k))"

definition pty_unlock :: "int \<Rightarrow> pty_sys \<Rightarrow> pty_sys" where
  "pty_unlock i s = (case get i s of None \<Rightarrow> s | Some k \<Rightarrow> upd_pty k (\<lambda>p. p\<lparr>locked := False\<rparr>) s)"

definition resize :: "nat \<Rightarrow> nat \<Rightarrow> pty \<Rightarrow> pty" where
  "resize r c p = (if rows p = r \<and> cols p = c then p else signal_fg 28 (p\<lparr>rows := r mod 2 ^ 16, cols := c mod 2 ^ 16\<rparr>))"

definition pty_set_size :: "int \<Rightarrow> nat \<Rightarrow> nat \<Rightarrow> pty_sys \<Rightarrow> pty_sys" where
  "pty_set_size i r c s = (case get i s of None \<Rightarrow> s | Some k \<Rightarrow> upd_pty k (resize r c) s)"

definition pty_read ::
    "(nat \<Rightarrow> bool) \<Rightarrow> (nat \<Rightarrow> nat) \<Rightarrow> (nat \<Rightarrow> pty \<Rightarrow> pty) \<Rightarrow> int \<Rightarrow> bool \<Rightarrow> int \<Rightarrow> bool \<Rightarrow> pty_sys \<Rightarrow> (int \<times> string \<times> pty_sys) option" where
  "pty_read intr clk world i master n nonblock s =
     (case get i s of
        None \<Rightarrow> Some (- P_EIO, [], s)
      | Some k \<Rightarrow>
          if n \<le> 0 then Some (0, [], s)
          else map_option (\<lambda>(r, cs, p). (r, cs, upd_pty k (\<lambda>_. p) s))
                 (pty_read_loop (\<lambda>j p. if master then master_read_turn (nat n) nonblock (intr j) p
                                        else slave_read_turn (nat n) nonblock (intr j) (clk 0) (clk (Suc j)) p) world 0 (ptys s ! k)))"

text \<open>\<open>io_wake\<close> comes only when all of the data is written.\<close>

definition pty_write ::
    "(nat \<Rightarrow> bool) \<Rightarrow> (nat \<Rightarrow> pty \<Rightarrow> pty) \<Rightarrow> int \<Rightarrow> bool \<Rightarrow> string \<Rightarrow> bool \<Rightarrow> pty_sys \<Rightarrow> (int \<times> pty_sys) option" where
  "pty_write intr world i master data nonblock s =
     (case get i s of
        None \<Rightarrow> Some (- P_EIO, s)
      | Some k \<Rightarrow> map_option (\<lambda>(r, rest, p). (r, (upd_pty k (\<lambda>_. p) s)\<lparr>io_wakes := io_wakes s + of_bool (rest = [])\<rparr>))
                    (pty_write_loop intr world 0 master nonblock data 0 (ptys s ! k)))"

section \<open>The ioctl calls\<close>

text \<open>
  The argument is a number and, when it is the address of user memory, what is read from there (\<open>uin\<close>); what is
  written there is the second part of the result.
\<close>

abbreviation (input) USER_BASE :: nat where "USER_BASE \<equiv> 0x10000"
abbreviation (input) USER_TOP :: nat where "USER_TOP \<equiv> 0x800000000000"

definition uptr :: "nat \<Rightarrow> nat \<Rightarrow> bool" where
  "uptr a len \<longleftrightarrow> USER_BASE \<le> a \<and> a < USER_TOP \<and> len \<le> USER_TOP - a"

record uin =
  u_termios :: termios
  u_rows :: nat
  u_cols :: nat
  u_int :: int

datatype uout = No_Out | Out_Termios termios | Out_Win "nat list" | Out_Int int

definition ring_reset :: "ring \<Rightarrow> ring" where "ring_reset r = r\<lparr>rn := 0, rh := 0, rt := 0\<rparr>"

definition tcsets :: "bool \<Rightarrow> termios \<Rightarrow> pty \<Rightarrow> pty" where
  "tcsets flush t p =
     (let was_canon = lflag p ICANON;
          p1 = p\<lparr>tio := t\<rparr>;
          p2 = (if flush then p1\<lparr>pin := ring_reset (pin p1), pline := []\<rparr> else p1)
      in if was_canon \<and> \<not> lflag p2 ICANON then flush_line p2 else p2)"

definition tcflsh :: "nat \<Rightarrow> pty \<Rightarrow> pty" where
  "tcflsh arg p =
     (let p1 = (if arg = 0 \<or> arg = 2 then p\<lparr>pin := ring_reset (pin p), pline := []\<rparr> else p)
      in if arg = 1 \<or> arg = 2 then p1\<lparr>pout := ring_reset (pout p1)\<rparr> else p1)"

definition set_ctty :: "nat \<Rightarrow> pproc \<Rightarrow> pty_sys \<Rightarrow> pty_sys" where
  "set_ctty k m s = (upd_pty k (\<lambda>p. p\<lparr>sid := psid m, pgrp := pgid m\<rparr>) s)\<lparr>pme := Some (m\<lparr>ctty := int k + 1\<rparr>)\<rparr>"

definition ioctl_session :: "nat \<Rightarrow> bool \<Rightarrow> nat \<Rightarrow> nat \<Rightarrow> uin \<Rightarrow> pty_sys \<Rightarrow> int \<times> uout \<times> pty_sys" where
  "ioctl_session k master req arg u s =
     (let p = ptys s ! k in
      if req = 0x540F then
        (if \<not> uptr arg 4 then (- P_EFAULT, No_Out, s)
         else (0, Out_Int (if pgrp p \<noteq> 0 then pgrp p else (case pme s of Some m \<Rightarrow> pgid m | None \<Rightarrow> 0)), s))
      else if req = 0x5410 then
        (if \<not> uptr arg 4 then (- P_EFAULT, No_Out, s) else (0, No_Out, upd_pty k (\<lambda>p. p\<lparr>pgrp := u_int u\<rparr>) s))
      else if req = 0x5429 then
        (if \<not> uptr arg 4 then (- P_EFAULT, No_Out, s) else if sid p = 0 then (- P_ENOTTY, No_Out, s) else (0, Out_Int (sid p), s))
      else if req = 0x540E then
        (case pme s of
           None \<Rightarrow> (- P_EINVAL, No_Out, s)
         | Some m \<Rightarrow>
             if master then (- P_EINVAL, No_Out, s)
             else if sid p \<noteq> 0 \<and> sid p \<noteq> psid m \<and> arg = 0 then (- P_EBUSY, No_Out, s)
             else (0, No_Out, set_ctty k m s))
      else
        (case pme s of
           Some m \<Rightarrow> (0, No_Out, if ctty m = int k + 1 then s\<lparr>pme := Some (m\<lparr>ctty := - 1\<rparr>)\<rparr> else s)
         | None \<Rightarrow> (0, No_Out, s)))"

definition pty_ioctl :: "int \<Rightarrow> bool \<Rightarrow> nat \<Rightarrow> nat \<Rightarrow> uin \<Rightarrow> pty_sys \<Rightarrow> int \<times> uout \<times> pty_sys" where
  "pty_ioctl i master req arg u s =
     (case get i s of
        None \<Rightarrow> (- P_EIO, No_Out, s)
      | Some k \<Rightarrow>
          (let p = ptys s ! k in
           if req = 0x5401 then
             (if \<not> uptr arg 36 then (- P_EFAULT, No_Out, s) else (0, Out_Termios (tio p), s))
           else if req \<in> {0x5402, 0x5403, 0x5404} then
             (if \<not> uptr arg 36 then (- P_EFAULT, No_Out, s)
              else (0, No_Out, upd_pty k (tcsets (req = 0x5404) (u_termios u)) s))
           else if req = 0x5413 then
             (if \<not> uptr arg 8 then (- P_EFAULT, No_Out, s) else (0, Out_Win [rows p, cols p, 0, 0], s))
           else if req = 0x5414 then
             (if \<not> uptr arg 8 then (- P_EFAULT, No_Out, s) else (0, No_Out, upd_pty k (resize (u_rows u) (u_cols u)) s))
           else if req \<in> {0x540F, 0x5410, 0x5429, 0x540E, 0x5422} then ioctl_session k master req arg u s
           else if req = 0x80045430 then
             (if \<not> master then (- P_ENOTTY, No_Out, s) else if \<not> uptr arg 4 then (- P_EFAULT, No_Out, s) else (0, Out_Int (int k), s))
           else if req = 0x40045431 then
             (if \<not> master then (- P_ENOTTY, No_Out, s) else if \<not> uptr arg 4 then (- P_EFAULT, No_Out, s)
              else (0, No_Out, upd_pty k (\<lambda>p. p\<lparr>locked := u_int u \<noteq> 0\<rparr>) s))
           else if req = 0x540B then (0, No_Out, upd_pty k (tcflsh arg) s)
           else if req \<in> {0x5409, 0x540A, 0x5425, 0x5427, 0x5428} then (0, No_Out, s)
           else (- P_EINVAL, No_Out, s)))"

end
