(* ===== verification/Pty_Correct.thy ===== *)
theory Pty_Correct
  imports Pty Fs_Correct
begin

text \<open>
  What a pseudo-terminal promises. Both directions satisfy the contract \<open>channel\<close>; what the slave writes reaches
  the master complete, with the carriage returns of output processing; and a line that is typed at the master, with
  erase and kill, is what the slave reads.
\<close>

section \<open>The rings\<close>

definition ring_fine :: "ring \<Rightarrow> bool" where "ring_fine r \<longleftrightarrow> ring_ok PTY_BUF (rb r) (rh r) (rt r) (rn r)"

definition holds :: "ring \<Rightarrow> string" where "holds r = ring_seq (rb r) (rt r) (rn r)"

lemma length_holds [simp]: "length (holds r) = rn r"
  by (simp add: holds_def)

lemma ring_put_law:
  assumes "ring_fine r"
  shows "ring_fine (ring_put c r) \<and> holds (ring_put c r) = holds r @ (if rn r = PTY_BUF then [] else [c])"
proof (cases "rn r = PTY_BUF")
  case False
  have o: "ring_ok PTY_BUF (rb r) (rh r) (rt r) (rn r)" using assms by (simp add: ring_fine_def)
  then have "rh r < length (rb r)" "rn r + length [c] \<le> PTY_BUF" using False by (auto simp: ring_ok_def)
  then show ?thesis using ring_ok_put [OF o, of "[c]"] False by (simp add: ring_put_def ring_fine_def holds_def)
qed (use assms in \<open>simp add: ring_put_def\<close>)

lemma ring_put_fine [simp]: "ring_fine r \<Longrightarrow> ring_fine (ring_put c r)"
  using ring_put_law by blast

lemma ring_put_holds [simp]: "ring_fine r \<Longrightarrow> rn r < PTY_BUF \<Longrightarrow> holds (ring_put c r) = holds r @ [c]"
  using ring_put_law [of r c] by simp

lemma rn_ring_put: "rn (ring_put c r) = (if rn r = PTY_BUF then rn r else rn r + 1)"
  by (simp add: ring_put_def)

lemma ring_fine_le: "ring_fine r \<Longrightarrow> rn r \<le> PTY_BUF"
  by (simp add: ring_fine_def ring_ok_def)

lemma puts_fine [simp]: "ring_fine r \<Longrightarrow> ring_fine (fold ring_put xs r)"
  by (induction xs arbitrary: r) simp_all

lemma puts_append: "ring_fine r \<Longrightarrow> \<exists>ys. holds (fold ring_put xs r) = holds r @ ys"
proof (induction xs arbitrary: r)
  case (Cons x xs)
  then show ?case using ring_put_law [OF Cons.prems, of x] Cons.IH [of "ring_put x r"] by auto
qed simp

lemma puts_holds: "ring_fine r \<Longrightarrow> rn r + length xs \<le> PTY_BUF \<Longrightarrow> holds (fold ring_put xs r) = holds r @ xs"
proof (induction xs arbitrary: r)
  case (Cons x xs)
  then have "rn (ring_put x r) = rn r + 1" by (simp add: rn_ring_put)
  then show ?case using Cons by simp
qed simp

lemma ring_get_law:
  assumes "ring_fine r" and "0 < rn r" and "ring_get r = (c, r')"
  shows "ring_fine r' \<and> holds r = c # holds r'"
proof -
  have o: "ring_ok PTY_BUF (rb r) (rh r) (rt r) (rn r)" using assms(1) by (simp add: ring_fine_def)
  have l: "rt r < length (rb r)" using o by (simp add: ring_ok_def)
  have "1 \<le> rn r" using assms(2) by simp
  note g = ring_ok_get [OF o this]
  have "ring_seq (rb r) (rt r) 1 = [rb r ! rt r]" using l by (simp add: ring_seq_def)
  then show ?thesis using g assms(3) by (auto simp: ring_get_def ring_fine_def holds_def)
qed

text \<open>A read in lines gives the bytes up to the first newline.\<close>

fun upto_nl :: "string \<Rightarrow> string" where
  "upto_nl [] = []"
| "upto_nl (c # cs) = (if c = NL then [c] else c # upto_nl cs)"

lemma ring_read_law:
  "ring_fine r \<Longrightarrow> ring_read canon n r = (cs, r') \<Longrightarrow>
   ring_fine r' \<and> holds r = cs @ holds r' \<and> cs = (if canon then upto_nl (take n (holds r)) else take n (holds r))"
proof (induction n arbitrary: r cs r')
  case (Suc n)
  show ?case
  proof (cases "rn r = 0")
    case True
    then have "holds r = []" by (simp add: holds_def)
    then show ?thesis using Suc.prems True by auto
  next
    case False
    obtain c r1 where g: "ring_get r = (c, r1)" by (cases "ring_get r")
    have h: "ring_fine r1" "holds r = c # holds r1" using ring_get_law [OF Suc.prems(1) _ g] False by auto
    obtain ds r2 where d: "ring_read canon n r1 = (ds, r2)" by (cases "ring_read canon n r1")
    have i: "ring_fine r2" "holds r1 = ds @ holds r2" "ds = (if canon then upto_nl (take n (holds r1)) else take n (holds r1))"
      using Suc.IH [OF h(1) d] by blast+
    show ?thesis
    proof (cases "canon \<and> c = NL")
      case True
      then show ?thesis using Suc.prems(2) False g h by simp
    next
      case nl: False
      have e: "cs = c # ds" "r' = r2" using Suc.prems(2) False g d nl by simp_all
      show ?thesis unfolding e h(2) using i(1,2) nl by (subst (2) i(3)) auto
    qed
  qed
qed auto

section \<open>What the slave writes\<close>

definition opost :: "pty \<Rightarrow> char \<Rightarrow> string" where
  "opost p c = (if bit (c_oflag (tio p)) OPOST \<and> bit (c_oflag (tio p)) ONLCR \<and> c = NL then [CR, NL] else [c])"

lemma out_char_keeps [simp]:
  "pin (out_char c p) = pin p" "tio (out_char c p) = tio p" "pline (out_char c p) = pline p" "mrefs (out_char c p) = mrefs p"
  "srefs (out_char c p) = srefs p" "slave_seen (out_char c p) = slave_seen p" "used (out_char c p) = used p"
  by (simp_all add: out_char_def Let_def)

lemma out_char_puts: "pout (out_char c p) = fold ring_put (opost p c) (pout p)"
  by (simp add: out_char_def opost_def Let_def)

lemma out_char_fine [simp]: "ring_fine (pout p) \<Longrightarrow> ring_fine (pout (out_char c p))"
  by (simp add: out_char_puts)

lemma out_char_holds:
  "ring_fine (pout p) \<Longrightarrow> 2 < ring_space (pout p) \<Longrightarrow> holds (pout (out_char c p)) = holds (pout p) @ opost p c"
  unfolding out_char_puts by (rule puts_holds) (auto simp: opost_def ring_space_def)

lemma feed_out_law:
  "ring_fine (pout p) \<Longrightarrow> feed_out data p = (rest, p') \<Longrightarrow>
   ring_fine (pout p') \<and> tio p' = tio p \<and> (\<exists>xs. data = xs @ rest \<and> holds (pout p') = holds (pout p) @ concat (map (opost p) xs))"
proof (induction data arbitrary: p)
  case (Cons c cs)
  show ?case
  proof (cases "2 < ring_space (pout p)")
    case True
    have f: "feed_out cs (out_char c p) = (rest, p')" using Cons.prems(2) True by simp
    have o: "opost (out_char c p) = opost p" by (simp add: opost_def fun_eq_iff)
    obtain xs where "ring_fine (pout p')" "tio p' = tio p" "cs = xs @ rest"
        "holds (pout p') = holds (pout p) @ opost p c @ concat (map (opost p) xs)"
      using Cons.IH [OF _ f] Cons.prems(1) out_char_holds [OF Cons.prems(1) True, of c] o by auto
    then show ?thesis by (intro conjI exI [of _ "c # xs"]) simp_all
  qed (use Cons.prems in auto)
qed auto

definition out_sent :: "string \<Rightarrow> pty \<Rightarrow> string \<times> pty" where
  "out_sent data p = (case feed_out data p of (rest, p') \<Rightarrow> (concat (map (opost p) (take (length data - length rest) data)), p'))"

definition out_taken :: "nat \<times> bool \<times> bool \<Rightarrow> pty \<Rightarrow> string \<times> pty" where
  "out_taken = (\<lambda>(n, nb, intr) p. case master_read_turn n nb intr p of (PReturn r cs, p') \<Rightarrow> (cs, p') | (PSleep, p') \<Rightarrow> ([], p'))"

interpretation po: channel "\<lambda>p. ring_fine (pout p)" "\<lambda>p. holds (pout p)" out_sent out_taken
proof
  fix s :: pty and m xs s'
  assume a: "ring_fine (pout s)" "out_sent m s = (xs, s')"
  obtain rest where "feed_out m s = (rest, s')" using a(2) by (auto simp: out_sent_def split: prod.splits)
  then show "ring_fine (pout s') \<and> holds (pout s') = holds (pout s) @ xs"
    using feed_out_law [OF a(1), of m rest s'] a(2) by (auto simp: out_sent_def)
next
  fix s :: pty and r xs s'
  assume a: "ring_fine (pout s)" "out_taken r s = (xs, s')"
  obtain n nb intr where r: "r = (n, nb, intr)" by (cases r)
  show "ring_fine (pout s') \<and> holds (pout s) = xs @ holds (pout s')"
  proof (cases "0 < rn (pout s)")
    case True
    obtain cs r' where q: "ring_read False n (pout s) = (cs, r')" by (cases "ring_read False n (pout s)")
    have l: "ring_fine r'" "holds (pout s) = cs @ holds r'" using ring_read_law [OF a(1) q] by blast+
    have "xs = cs" "s' = pwake (s\<lparr>pout := r'\<rparr>)" using a(2) r q True by (simp_all add: out_taken_def master_read_turn_def)
    then show ?thesis using l by (simp add: pwake_def)
  next
    case False
    then show ?thesis using a r by (auto simp: out_taken_def master_read_turn_def split: if_splits)
  qed
qed

section \<open>What the master types\<close>

lemma echo_char_keeps [simp]:
  "pin (echo_char c p) = pin p" "tio (echo_char c p) = tio p" "pline (echo_char c p) = pline p" "mrefs (echo_char c p) = mrefs p"
  "srefs (echo_char c p) = srefs p" "slave_seen (echo_char c p) = slave_seen p" "used (echo_char c p) = used p"
  by (simp_all add: echo_char_def)

lemma signal_fg_keeps [simp]:
  "pin (signal_fg s p) = pin p" "tio (signal_fg s p) = tio p" "pline (signal_fg s p) = pline p"
  by (simp_all add: signal_fg_def signal_group_def)

lemma rub_out_keeps [simp]:
  "pin (rub_out p) = pin p" "tio (rub_out p) = tio p" "pline (rub_out p) = butlast (pline p)" "mrefs (rub_out p) = mrefs p"
  "srefs (rub_out p) = srefs p" "slave_seen (rub_out p) = slave_seen p" "used (rub_out p) = used p"
  by (simp_all add: rub_out_def Let_def)

lemma rub_outs_keep [simp]:
  "pin ((rub_out ^^ n) p) = pin p" "tio ((rub_out ^^ n) p) = tio p" "mrefs ((rub_out ^^ n) p) = mrefs p"
  "srefs ((rub_out ^^ n) p) = srefs p" "slave_seen ((rub_out ^^ n) p) = slave_seen p" "used ((rub_out ^^ n) p) = used p"
  by (induction n) simp_all

lemma rub_outs_line: "length (pline p) \<le> n \<Longrightarrow> pline ((rub_out ^^ n) p) = []"
proof (induction n arbitrary: p)
  case (Suc n)
  have "pline ((rub_out ^^ n) (rub_out p)) = []" using Suc.prems by (intro Suc.IH) simp
  then show ?case by (simp add: funpow_swap1)
qed simp

lemma flush_line_keeps [simp]:
  "tio (flush_line p) = tio p" "pline (flush_line p) = []" "mrefs (flush_line p) = mrefs p"
  "srefs (flush_line p) = srefs p" "slave_seen (flush_line p) = slave_seen p" "used (flush_line p) = used p"
  "pin (flush_line p) = fold ring_put (pline p) (pin p)"
  by (simp_all add: flush_line_def)

lemma input_char_appends:
  assumes "ring_fine (pin p)"
  shows "ring_fine (pin (input_char c p)) \<and> (\<exists>ys. holds (pin (input_char c p)) = holds (pin p) @ ys) \<and> tio (input_char c p) = tio p"
proof -
  have one: "\<exists>ys. holds (ring_put d (pin p)) = holds (pin p) @ ys" for d using ring_put_law [OF assms, of d] by blast
  have many: "\<exists>ys. holds (fold ring_put xs (pin p)) = holds (pin p) @ ys" for xs using puts_append [OF assms] by blast
  have end_nl: "\<exists>ys. holds (ring_put d (fold ring_put xs (pin p))) = holds (pin p) @ ys" for xs d using many [of "xs @ [d]"] by simp
  show ?thesis using assms one many end_nl by (simp add: input_char_def Let_def)
qed

text \<open>Both ends of the input: what a write of the master adds to the ring and what a read of the slave takes from it.\<close>

lemma feed_in_appends:
  "ring_fine (pin p) \<Longrightarrow> feed_in data p = (rest, p') \<Longrightarrow> ring_fine (pin p') \<and> (\<exists>ys. holds (pin p') = holds (pin p) @ ys)"
proof (induction data arbitrary: p)
  case (Cons c cs)
  obtain ys where y: "ring_fine (pin (input_char c p))" "holds (pin (input_char c p)) = holds (pin p) @ ys"
    using input_char_appends [OF Cons.prems(1), of c] by blast
  show ?case
  proof (cases "2 < ring_space (pin p)")
    case True
    then show ?thesis using Cons.IH [OF y(1)] Cons.prems(2) y(2) by auto
  qed (use Cons.prems in auto)
qed auto

definition in_sent :: "string \<Rightarrow> pty \<Rightarrow> string \<times> pty" where
  "in_sent data p = (case feed_in data p of (rest, p') \<Rightarrow> (drop (rn (pin p)) (holds (pin p')), p'))"

definition in_taken :: "nat \<times> bool \<times> bool \<times> nat \<times> nat \<Rightarrow> pty \<Rightarrow> string \<times> pty" where
  "in_taken = (\<lambda>(n, nb, intr, b, t) p.
     case slave_read_turn n nb intr b t p of (PReturn r cs, p') \<Rightarrow> (cs, p') | (PSleep, p') \<Rightarrow> ([], p'))"

lemma slave_read_some:
  assumes "ring_fine (pin p)" and "0 < rn (pin p)"
  shows "\<exists>r. ring_fine r \<and> (let cs = (if lflag p ICANON then upto_nl (take n (holds (pin p))) else take n (holds (pin p))) in
     holds (pin p) = cs @ holds r \<and>
     (\<forall>nb intr b t. slave_read_turn n nb intr b t p = (PReturn (int (length cs)) cs, pwake (p\<lparr>pin := r\<rparr>))))"
proof -
  obtain cs r where q: "ring_read (lflag p ICANON) n (pin p) = (cs, r)" by (cases "ring_read (lflag p ICANON) n (pin p)")
  have "\<forall>nb intr b t. slave_read_turn n nb intr b t p = (PReturn (int (length cs)) cs, pwake (p\<lparr>pin := r\<rparr>))"
    using assms(2) q by (simp add: slave_read_turn_def)
  then show ?thesis using ring_read_law [OF assms(1) q] by (intro exI [of _ r]) (simp add: Let_def)
qed

interpretation pi: channel "\<lambda>p. ring_fine (pin p)" "\<lambda>p. holds (pin p)" in_sent in_taken
proof
  fix s :: pty and m xs s'
  assume a: "ring_fine (pin s)" "in_sent m s = (xs, s')"
  obtain rest where f: "feed_in m s = (rest, s')" using a(2) by (auto simp: in_sent_def split: prod.splits)
  obtain ys where y: "ring_fine (pin s')" "holds (pin s') = holds (pin s) @ ys" using feed_in_appends [OF a(1) f] by blast
  have "xs = drop (length (holds (pin s))) (holds (pin s'))" using a(2) f by (simp add: in_sent_def)
  then show "ring_fine (pin s') \<and> holds (pin s') = holds (pin s) @ xs" using y by simp
next
  fix s :: pty and r xs s'
  assume a: "ring_fine (pin s)" "in_taken r s = (xs, s')"
  obtain n nb intr b t where r: "r = (n, nb, intr, b, t)" by (cases r)
  show "ring_fine (pin s') \<and> holds (pin s) = xs @ holds (pin s')"
  proof (cases "0 < rn (pin s)")
    case True
    obtain cs r' where l: "ring_fine r'" "holds (pin s) = cs @ holds r'"
        "slave_read_turn n nb intr b t s = (PReturn (int (length cs)) cs, pwake (s\<lparr>pin := r'\<rparr>))"
      using slave_read_some [OF a(1) True, of n] unfolding Let_def by blast
    have "xs = cs" "s' = pwake (s\<lparr>pin := r'\<rparr>)" using a(2) r l(3) by (simp_all add: in_taken_def)
    then show ?thesis using l(1,2) by (simp add: pwake_def)
  next
    case False
    then show ?thesis using a r by (auto simp: in_taken_def slave_read_turn_def Let_def split: if_splits)
  qed
qed

section \<open>A typed line\<close>

text \<open>
  The keys of a line are the bytes that do not end it: no newline, carriage return, end of file or signal. What they
  come to is the stack of the bytes with erase and kill, at most 255 of them.
\<close>

definition is_key :: "pty \<Rightarrow> char \<Rightarrow> bool" where
  "is_key p c \<longleftrightarrow> c \<noteq> NL \<and> c \<noteq> CR \<and> \<not> is_cc p VEOF c \<and> (lflag p ISIG \<longrightarrow> sig_of p c = 0 \<or> c = CHR 0x00)"

definition type_key :: "pty \<Rightarrow> string \<Rightarrow> char \<Rightarrow> string" where
  "type_key p l c =
     (if is_cc p VERASE c \<or> c = BS then butlast l
      else if is_cc p VKILL c then []
      else if length l < 255 then l @ [c] else l)"

text \<open>The byte that ends a line.\<close>

definition is_enter :: "pty \<Rightarrow> char \<Rightarrow> bool" where
  "is_enter p e \<longleftrightarrow> in_map p e = NL \<and> \<not> (e = CR \<and> bit (c_iflag (tio p)) IGNCR) \<and>
     \<not> is_cc p VERASE NL \<and> \<not> is_cc p VKILL NL \<and> \<not> is_cc p VEOF NL \<and> (lflag p ISIG \<longrightarrow> sig_of p NL = 0)"

definition same_side :: "pty \<Rightarrow> pty \<Rightarrow> bool" where
  "same_side p q \<longleftrightarrow> tio q = tio p \<and> mrefs q = mrefs p \<and> srefs q = srefs p \<and> slave_seen q = slave_seen p \<and> used q = used p"

lemma input_canon:
  assumes "lflag p ICANON" and "\<not> (c0 = CR \<and> bit (c_iflag (tio p)) IGNCR)" and "in_map p c0 = c"
    and "\<not> (lflag p ISIG \<and> sig_of p c \<noteq> 0 \<and> c \<noteq> CHR 0x00)" and "\<not> is_cc p VEOF c"
  shows "input_char c0 p =
       (if is_cc p VERASE c \<or> c = BS then (if pline p \<noteq> [] then rub_out p else p)
        else if is_cc p VKILL c then (rub_out ^^ length (pline p)) p
        else if c = NL then
          (let p1 = (if length (pline p) < LINE_SZ then p\<lparr>pline := pline p @ [c]\<rparr> else p)
           in flush_line (if lflag p ECHO then out_char NL p1 else p1))
        else if length (pline p) < LINE_SZ - 1 then
          (let p1 = p\<lparr>pline := pline p @ [c]\<rparr> in if lflag p ECHO then echo_char c p1 else p1)
        else p)"
  unfolding input_char_def if_not_P [OF assms(2)] assms(3) Let_def if_not_P [OF assms(4)] if_not_P [OF assms(5)]
  by (simp only: assms(1) not_True_eq_False if_False)

lemma input_key:
  assumes "lflag p ICANON" and "is_key p c"
  shows "pin (input_char c p) = pin p \<and> pline (input_char c p) = type_key p (pline p) c \<and> same_side p (input_char c p)"
proof -
  have m: "in_map p c = c" "c \<noteq> CR" "c \<noteq> NL" using assms(2) by (auto simp: in_map_def is_key_def)
  have e: "input_char c p =
       (if is_cc p VERASE c \<or> c = BS then (if pline p \<noteq> [] then rub_out p else p)
        else if is_cc p VKILL c then (rub_out ^^ length (pline p)) p
        else if length (pline p) < LINE_SZ - 1 then
          (let p1 = p\<lparr>pline := pline p @ [c]\<rparr> in if lflag p ECHO then echo_char c p1 else p1)
        else p)"
    using input_canon [OF assms(1) _ m(1)] assms(2) m(2,3) unfolding is_key_def by simp
  show ?thesis unfolding e type_key_def same_side_def Let_def using rub_outs_line [of p "length (pline p)"] by simp
qed

lemma input_enter:
  assumes "lflag p ICANON" and "is_enter p e" and "length (pline p) < LINE_SZ"
  shows "pin (input_char e p) = fold ring_put (pline p @ [NL]) (pin p) \<and> pline (input_char e p) = [] \<and> same_side p (input_char e p)"
proof -
  have "input_char e p = flush_line (if lflag p ECHO then out_char NL (p\<lparr>pline := pline p @ [NL]\<rparr>) else p\<lparr>pline := pline p @ [NL]\<rparr>)"
    using input_canon [OF assms(1), of e NL] assms(2,3) unfolding is_enter_def by simp
  then show ?thesis by (simp add: same_side_def)
qed

lemma type_key_length: "length l \<le> 255 \<Longrightarrow> length (type_key p l c) \<le> 255"
  by (auto simp: type_key_def)

lemma same_side_defs:
  assumes "same_side p q"
  shows "lflag q = lflag p" "is_cc q = is_cc p" "is_key q = is_key p" "type_key q = type_key p" "is_enter q = is_enter p"
  using assms by (auto simp: fun_eq_iff same_side_def lflag_def is_cc_def is_key_def type_key_def is_enter_def sig_of_def in_map_def)

lemma same_side_trans: "same_side p q \<Longrightarrow> same_side q r \<Longrightarrow> same_side p r"
  by (simp add: same_side_def)

lemma feed_line:
  assumes "lflag p ICANON" and "\<forall>c\<in>set cs. is_key p c" and "is_enter p e" and "length (pline p) \<le> 255" and "LINE_SZ \<le> ring_space (pin p)"
    and "ring_fine (pin p)"
  shows "\<exists>p'. feed_in (cs @ [e]) p = ([], p') \<and> ring_fine (pin p') \<and> same_side p p' \<and> pline p' = [] \<and>
     holds (pin p') = holds (pin p) @ foldl (type_key p) (pline p) cs @ [NL]"
  using assms
proof (induction cs arbitrary: p)
  case Nil
  have i: "pin (input_char e p) = fold ring_put (pline p @ [NL]) (pin p)" "pline (input_char e p) = []" "same_side p (input_char e p)"
    using input_enter [OF Nil.prems(1,3)] Nil.prems(4) by auto
  have "rn (pin p) + length (pline p @ [NL]) \<le> PTY_BUF" using Nil.prems(4,5) by (simp add: ring_space_def)
  then have "holds (fold ring_put (pline p @ [NL]) (pin p)) = holds (pin p) @ pline p @ [NL]" by (rule puts_holds [OF Nil.prems(6)])
  then show ?case using i Nil.prems(5) puts_fine [OF Nil.prems(6), of "pline p @ [NL]"]
    by (intro exI [of _ "input_char e p"]) (simp add: ring_space_def)
next
  case (Cons c cs)
  let ?q = "input_char c p"
  have q: "pin ?q = pin p" "pline ?q = type_key p (pline p) c" "same_side p ?q" using input_key [OF Cons.prems(1)] Cons.prems(2) by auto
  note d = same_side_defs [OF q(3)]
  have "\<exists>p'. feed_in (cs @ [e]) ?q = ([], p') \<and> ring_fine (pin p') \<and> same_side ?q p' \<and> pline p' = [] \<and>
     holds (pin p') = holds (pin ?q) @ foldl (type_key ?q) (pline ?q) cs @ [NL]"
    by (rule Cons.IH) (use Cons.prems type_key_length [OF Cons.prems(4), of p c] in \<open>simp_all add: d q(1,2)\<close>)
  then show ?case using Cons.prems(5) same_side_trans [OF q(3)] d q by (auto simp: ring_space_def)
qed

lemma line_no_nl: "NL \<notin> set l \<Longrightarrow> \<forall>c\<in>set cs. is_key p c \<Longrightarrow> NL \<notin> set (foldl (type_key p) l cs)"
proof (induction cs arbitrary: l)
  case (Cons c cs)
  have "NL \<notin> set (type_key p l c)" using Cons.prems by (auto simp: type_key_def is_key_def dest: in_set_butlastD)
  then show ?case using Cons by simp
qed simp

lemma line_length: "length l \<le> 255 \<Longrightarrow> length (foldl (type_key p) l cs) \<le> 255"
  by (induction cs arbitrary: l) (simp_all add: type_key_length)

lemma upto_nl_line: "NL \<notin> set l \<Longrightarrow> upto_nl (l @ NL # r) = l @ [NL]"
  by (induction l) auto

lemma get_upd: "get i s = Some k \<Longrightarrow> length (ptys s) = NPTY \<Longrightarrow> used p \<Longrightarrow> get i ((upd_pty k (\<lambda>_. p) s)\<lparr>io_wakes := w\<rparr>) = Some k \<and>
    ptys ((upd_pty k (\<lambda>_. p) s)\<lparr>io_wakes := w\<rparr>) ! k = p"
  by (auto simp: get_def upd_pty_def split: if_splits)

lemma master_writes_all:
  assumes "get i s = Some k" and "feed_in data (ptys s ! k) = ([], q)" and "data \<noteq> []"
    and "\<not> (slave_seen (ptys s ! k) \<and> srefs (ptys s ! k) \<le> 0)"
  shows "pty_write intr (\<lambda>_ p. p) i True data nb s = Some (int (length data), (upd_pty k (\<lambda>_. pwake q) s)\<lparr>io_wakes := io_wakes s + 1\<rparr>)"
proof -
  have "write_pty_turn True nb (intr 0) data 0 (ptys s ! k) = (PReturn (int (length data)) [], [], length data, pwake q)"
    using assms(2,4) by (auto simp: write_pty_turn_def Let_def)
  then have "pty_write_loop intr (\<lambda>_ p. p) 0 True nb data 0 (ptys s ! k) = Some (int (length data), [], pwake q)"
    using assms(3) by (subst pty_write_loop.simps) simp
  then show ?thesis using assms(1) by (simp add: pty_write_def)
qed

lemma slave_reads:
  assumes "get i s = Some k" and "0 < n" and "\<And>b t. slave_read_turn (nat n) nb (intr 0) b t (ptys s ! k) = (PReturn r cs, p')"
  shows "pty_read intr clk (\<lambda>_ p. p) i False n nb s = Some (r, cs, upd_pty k (\<lambda>_. p') s)"
proof -
  have "pty_read_loop (\<lambda>j p. slave_read_turn (nat n) nb (intr j) (clk 0) (clk (Suc j)) p) (\<lambda>_ p. p) 0 (ptys s ! k) = Some (r, cs, p')"
    using assms(3) by (subst pty_read_loop.simps) simp
  then show ?thesis using assms(1,2) by (simp add: pty_read_def)
qed

text \<open>C13: a line typed at the master of a pair in canonical mode, with its erase and kill characters and its end, is
  accepted whole, and the next read of the slave with room for a line gives exactly the edited line and a newline,
  whatever the echo does and whether the calls may block or not.
\<close>

theorem pty_line:
  assumes "get i s = Some k" and "length (ptys s) = NPTY" and "lflag (ptys s ! k) ICANON"
    and "ring_fine (pin (ptys s ! k))" and "rn (pin (ptys s ! k)) = 0" and "pline (ptys s ! k) = []"
    and "\<not> (slave_seen (ptys s ! k) \<and> srefs (ptys s ! k) \<le> 0)"
    and "\<forall>c\<in>set cs. is_key (ptys s ! k) c" and "is_enter (ptys s ! k) e" and "256 \<le> n"
  shows "\<exists>s' s''. pty_write intr (\<lambda>_ p. p) i True (cs @ [e]) nb s = Some (int (length cs) + 1, s') \<and>
     pty_read intr' clk (\<lambda>_ p. p) i False n nb' s' =
       Some (int (length (foldl (type_key (ptys s ! k)) [] cs)) + 1, foldl (type_key (ptys s ! k)) [] cs @ [NL], s'')"
proof -
  let ?l = "foldl (type_key (ptys s ! k)) [] cs"
  have u: "used (ptys s ! k)" using assms(1) by (auto simp: get_def split: if_splits)
  have "\<exists>p'. feed_in (cs @ [e]) (ptys s ! k) = ([], p') \<and> ring_fine (pin p') \<and> same_side (ptys s ! k) p' \<and> pline p' = [] \<and>
      holds (pin p') = holds (pin (ptys s ! k)) @ foldl (type_key (ptys s ! k)) (pline (ptys s ! k)) cs @ [NL]"
    using assms(6) by (intro feed_line [OF assms(3,8,9) _ _ assms(4)]) (simp_all add: ring_space_def assms(5))
  then obtain q where q: "feed_in (cs @ [e]) (ptys s ! k) = ([], q)" "ring_fine (pin q)" "same_side (ptys s ! k) q"
      "holds (pin q) = ?l @ [NL]" using assms(5,6) by (auto simp: holds_def)
  let ?s = "(upd_pty k (\<lambda>_. pwake q) s)\<lparr>io_wakes := io_wakes s + 1\<rparr>"
  have w: "pty_write intr (\<lambda>_ p. p) i True (cs @ [e]) nb s = Some (int (length cs) + 1, ?s)"
    using master_writes_all [OF assms(1) q(1) _ assms(7)] by simp
  have g: "get i ?s = Some k" "ptys ?s ! k = pwake q"
    using get_upd [OF assms(1,2), of "pwake q"] u q(3) by (auto simp: same_side_def pwake_def)
  have f: "ring_fine (pin (pwake q))" "holds (pin (pwake q)) = ?l @ [NL]" "lflag (pwake q) ICANON"
    using q assms(3) fun_cong [OF same_side_defs(1) [OF q(3)], of ICANON] by (simp_all add: pwake_def lflag_def)
  have "length (holds (pin (pwake q))) = length ?l + 1" unfolding f(2) by simp
  then have r: "0 < rn (pin (pwake q))" by simp
  have n: "length (?l @ [NL]) \<le> nat n" using line_length [of "[]" "ptys s ! k" cs] assms(10) by simp
  have t: "upto_nl (take (nat n) (holds (pin (pwake q)))) = ?l @ [NL]"
    unfolding f(2) using n line_no_nl [of "[]" cs "ptys s ! k"] assms(8) upto_nl_line [of ?l "[]"] by simp
  obtain r' where "slave_read_turn (nat n) nb' (intr' 0) b t (pwake q) = (PReturn (int (length (?l @ [NL]))) (?l @ [NL]), r')" for b t
    using slave_read_some [OF f(1) r, of "nat n"] unfolding Let_def if_P [OF f(3)] t by blast
  then have "pty_read intr' clk (\<lambda>_ p. p) i False n nb' ?s = Some (int (length (?l @ [NL])), ?l @ [NL], upd_pty k (\<lambda>_. r') ?s)"
    using slave_reads [OF g(1)] assms(10) unfolding g(2) by simp
  then show ?thesis using w by auto
qed

text \<open>The first pair, just allocated, and a line with a character taken back.\<close>

definition demo_ptys :: pty_sys where
  "demo_ptys = \<lparr>ptys = replicate 16 (pty_fresh \<lparr>used = False, locked = False, mrefs = 0, srefs = 0, slave_seen = False, pin = ring_zero,
       pout = ring_zero, pline = [], eof = 0, tio = termios_zero, rows = 0, cols = 0, pgrp = 0, sid = 0, pnode = None, sigs = [], wakes = 0\<rparr>),
     pfs = demo_fs, pme = None, io_wakes = 0\<rparr>"

theorem pty_line_witness:
  "\<exists>s' s''. pty_write (\<lambda>_. False) (\<lambda>_ p. p) 0 True (''lxs'' @ [CHR 0x7F] @ [CR]) False demo_ptys = Some (5, s') \<and>
     pty_read (\<lambda>_. False) (\<lambda>_. 0) (\<lambda>_ p. p) 0 False 1024 True s' = Some (3, ''lx'' @ [NL], s'')"
proof -
  define p where "p = ptys demo_ptys ! 0"
  let ?cs = "''lxs'' @ [CHR 0x7F]"
  have g: "get 0 demo_ptys = Some 0" "length (ptys demo_ptys) = 16"
    by (simp_all add: demo_ptys_def get_def pty_fresh_def nth_replicate)
  have d: "tio p = set_default_termios" "pline p = []" "pin p = ring_zero" "slave_seen p = False"
    by (simp_all add: p_def demo_ptys_def pty_fresh_def pty_clear_def nth_replicate)
  have k: "\<forall>c\<in>set ?cs. is_key p c"
    by (simp add: is_key_def is_cc_def sig_of_def d set_default_termios_def termios_zero_def del: One_nat_def)
  have e: "is_enter p CR"
    by (simp add: is_enter_def is_cc_def sig_of_def in_map_def d set_default_termios_def termios_zero_def bit_0)
  have l: "foldl (type_key p) [] ?cs = ''lx''"
    by (simp add: type_key_def is_cc_def d set_default_termios_def termios_zero_def)
  have r: "ring_fine (pin p)" "rn (pin p) = 0" "lflag p ICANON"
    unfolding d lflag_def by (simp_all add: ring_fine_def ring_ok_def ring_zero_def set_default_termios_def)
  show ?thesis
    using pty_line [OF g, folded p_def, OF r(3,1,2) d(2) _ k e, of 1024 "\<lambda>_. False" False "\<lambda>_. False" "\<lambda>_. 0" True] l d(4) by simp
qed

end
