(* ===== verification/Inotify.thy ===== *)
theory Inotify
  imports Pipe Fs
begin

text \<open>
  File notification, \<open>src/src/proc/inotify.c\<close>: the global table of watches, the events in the pipe of an instance,
  adding and removing watches, and reading events. The table is the list of its first \<open>nw\<close> entries. Of the tree
  only the nodes are read; \<open>insts\<close> names the open instances.
\<close>

abbreviation (input) MAXW :: nat where "MAXW \<equiv> 8192"
abbreviation (input) IN_Q_OVERFLOW :: nat where "IN_Q_OVERFLOW \<equiv> 0x4000"
abbreviation (input) IN_IGNORED :: nat where "IN_IGNORED \<equiv> 0x8000"
abbreviation (input) IN_ISDIR :: nat where "IN_ISDIR \<equiv> 0x40000000"
abbreviation (input) ONESHOT :: nat where "ONESHOT \<equiv> 31"

record iw =
  iw_f :: nat
  iw_wd :: int
  iw_n :: nat
  iw_mask :: nat

record ino =
  ios :: io
  ws :: "iw list"
  itree :: fs
  insts :: "nat list"

definition key :: "nat \<Rightarrow> fs \<Rightarrow> nat" where
  "key n st = (case hl (nodes st n) of Some t \<Rightarrow> t | None \<Rightarrow> n)"

section \<open>Events\<close>

definition rd :: "pipe \<Rightarrow> nat \<Rightarrow> nat \<Rightarrow> string" where
  "rd p off n = map (\<lambda>i. p_buf p ! ((off + i) mod PIPE_SZ)) [0..<n]"

definition le32 :: "nat \<Rightarrow> string" where
  "le32 x = [char_of (x mod 256), char_of (x div 256 mod 256), char_of (x div 65536 mod 256), char_of (x div 16777216 mod 256)]"

definition u32_of :: "string \<Rightarrow> nat" where
  "u32_of s = of_char (s ! 0) + 256 * of_char (s ! 1) + 65536 * of_char (s ! 2) + 16777216 * of_char (s ! 3)"

definition name_len :: "string option \<Rightarrow> nat" where
  "name_len name = (case name of None \<Rightarrow> 0 | Some s \<Rightarrow> (length s + 16) div 16 * 16)"

definition event :: "int \<Rightarrow> nat \<Rightarrow> nat \<Rightarrow> string option \<Rightarrow> string" where
  "event wd msk cookie name =
     le32 (nat (wd mod 2 ^ 32)) @ le32 msk @ le32 cookie @ le32 (name_len name) @
     (case name of None \<Rightarrow> [] | Some s \<Rightarrow> s @ replicate (name_len name - length s) (CHR 0x00))"

text \<open>One event to the pipe of an instance; \<open>None\<close> is no room. The same event twice in a row is queued once.\<close>

definition is_dup :: "string \<Rightarrow> nat \<Rightarrow> pipe \<Rightarrow> bool" where
  "is_dup ev cnt p \<longleftrightarrow>
     cnt \<noteq> 0 \<and> (p_head p + PIPE_SZ - (cnt - 1)) mod PIPE_SZ = length ev \<and> length ev \<le> p_count p \<and>
     rd p (cnt - 1) (length ev) = ev \<and> (cnt - 1 + PIPE_SZ - p_tail p) mod PIPE_SZ < p_count p"

definition put_pipe :: "string \<Rightarrow> pipe \<Rightarrow> pipe" where
  "put_pipe ev p = pipe_wake (p\<lparr>p_buf := ring_fill (p_buf p) (p_head p) ev, p_head := (p_head p + length ev) mod PIPE_SZ,
     p_count := p_count p + length ev\<rparr>)"

definition put_ev :: "string \<Rightarrow> nat \<Rightarrow> nat \<Rightarrow> io \<Rightarrow> io option" where
  "put_ev ev slack f s =
     (let q = the (f_pipe (kfiles s f)); p = kpipes s q in
      if is_dup ev (f_cnt (kfiles s f)) p then Some s
      else if PIPE_SZ - slack < p_count p + length ev then None
      else Some (upd_pipe q (put_pipe ev) (upd_file f (\<lambda>x. x\<lparr>f_cnt := p_head p + 1\<rparr>) s)))"

definition put_io :: "nat \<Rightarrow> int \<Rightarrow> nat \<Rightarrow> nat \<Rightarrow> string option \<Rightarrow> io \<Rightarrow> io" where
  "put_io f wd msk cookie name s =
     (case put_ev (event wd msk cookie name) (if msk = IN_Q_OVERFLOW then 0 else 16) f s of
        Some s' \<Rightarrow> s'
      | None \<Rightarrow> if msk \<noteq> IN_Q_OVERFLOW
                then (case put_ev (event (- 1) IN_Q_OVERFLOW 0 None) 0 f s of Some s' \<Rightarrow> s' | None \<Rightarrow> s)
                else s)"

definition put :: "nat \<Rightarrow> int \<Rightarrow> nat \<Rightarrow> nat \<Rightarrow> string option \<Rightarrow> ino \<Rightarrow> ino" where
  "put f wd msk cookie name s = s\<lparr>ios := put_io f wd msk cookie name (ios s)\<rparr>"

definition drop_at :: "nat \<Rightarrow> iw list \<Rightarrow> iw list" where "drop_at i l = butlast (l[i := last l])"

definition drop_w :: "nat \<Rightarrow> ino \<Rightarrow> ino" where "drop_w i s = s\<lparr>ws := drop_at i (ws s)\<rparr>"

lemma put_ws [simp]: "ws (put f wd msk cookie name s) = ws s"
  by (simp add: put_def)

lemma length_drop_at [simp]: "length (drop_at i l) = length l - 1"
  by (simp add: drop_at_def)

section \<open>Telling the watchers\<close>

function ev_loop :: "nat \<Rightarrow> nat \<Rightarrow> string option \<Rightarrow> nat \<Rightarrow> nat \<Rightarrow> ino \<Rightarrow> ino" where
  "ev_loop n msk name cookie i s =
     (if i < length (ws s) then
        (let w = ws s ! i in
         if iw_n w \<noteq> n \<or> iw_mask w AND msk AND 0xfff = 0 then ev_loop n msk name cookie (Suc i) s
         else
           (let s1 = put (iw_f w) (iw_wd w) msk cookie name s in
            if bit (iw_mask w) ONESHOT
            then ev_loop n msk name cookie i (drop_w i (put (iw_f w) (iw_wd w) IN_IGNORED 0 None s1))
            else ev_loop n msk name cookie (Suc i) s1))
      else s)"
  by pat_completeness auto
termination
  by (relation "measure (\<lambda>(n, msk, name, cookie, i, s). length (ws s) - i)") (auto simp: drop_w_def)

declare ev_loop.simps [simp del]

definition ino_ev :: "nat option \<Rightarrow> nat \<Rightarrow> string option \<Rightarrow> nat \<Rightarrow> ino \<Rightarrow> ino" where
  "ino_ev no msk name cookie s =
     (case no of None \<Rightarrow> s
      | Some n \<Rightarrow> if ws s = [] then s else ev_loop (key n (itree s)) msk name cookie 0 s)"

definition ino_any :: "ino \<Rightarrow> nat" where "ino_any s = length (ws s)"

definition ino_node :: "nat option \<Rightarrow> nat \<Rightarrow> ino \<Rightarrow> ino" where
  "ino_node no msk s =
     (case no of None \<Rightarrow> s
      | Some n \<Rightarrow>
          if ws s = [] then s
          else
            (let x = nodes (itree s) n;
                 m = (if ntype x = FS_DIR then msk OR IN_ISDIR else msk);
                 s1 = ino_ev (Some n) m None 0 s
             in (case nparent x of None \<Rightarrow> s1 | Some d \<Rightarrow> ino_ev (Some d) m (Some (nname x)) 0 s1)))"

function gone_loop :: "nat \<Rightarrow> nat \<Rightarrow> ino \<Rightarrow> ino" where
  "gone_loop n i s =
     (if i < length (ws s) then
        (let w = ws s ! i in
         if iw_n w = n then gone_loop n i (drop_w i (put (iw_f w) (iw_wd w) IN_IGNORED 0 None s))
         else gone_loop n (Suc i) s)
      else s)"
  by pat_completeness auto
termination
  by (relation "measure (\<lambda>(n, i, s). length (ws s) - i)") (auto simp: drop_w_def)

declare gone_loop.simps [simp del]

definition ino_gone :: "nat option \<Rightarrow> bool \<Rightarrow> ino \<Rightarrow> ino" where
  "ino_gone no self s =
     (case no of None \<Rightarrow> s
      | Some n \<Rightarrow>
          if ws s = [] then s
          else (let k = key n (itree s) in gone_loop k 0 (if self then ino_ev (Some k) 0x400 None 0 s else s)))"

section \<open>Watches and instances\<close>

definition ino_add :: "nat \<Rightarrow> nat \<Rightarrow> nat \<Rightarrow> ino \<Rightarrow> int \<times> ino" where
  "ino_add f n0 msk s =
     (let n = key n0 (itree s) in
      case first_idx (\<lambda>w. iw_f w = f \<and> iw_n w = n) (ws s) of
        Some i \<Rightarrow>
          if bit msk 28 then (- 17, s)
          else (let w = ws s ! i; m = (if bit msk 29 then iw_mask w OR msk else msk)
                in (iw_wd w, s\<lparr>ws := (ws s)[i := w\<lparr>iw_mask := m\<rparr>]\<rparr>))
      | None \<Rightarrow>
          if length (ws s) = MAXW then (- 28, s)
          else (let wd = f_disk (kfiles (ios s) f) + 1
                in (wd, s\<lparr>ws := ws s @ [\<lparr>iw_f = f, iw_wd = wd, iw_n = n, iw_mask = msk\<rparr>],
                          ios := upd_file f (\<lambda>x. x\<lparr>f_disk := wd\<rparr>) (ios s)\<rparr>)))"

definition ino_rm :: "nat \<Rightarrow> int \<Rightarrow> ino \<Rightarrow> int \<times> ino" where
  "ino_rm f wd s =
     (case first_idx (\<lambda>w. iw_f w = f \<and> iw_wd w = wd) (ws s) of
        Some i \<Rightarrow> (0, drop_w i (put f wd IN_IGNORED 0 None s))
      | None \<Rightarrow> (- 22, s))"

function close_loop :: "nat \<Rightarrow> nat \<Rightarrow> iw list \<Rightarrow> iw list" where
  "close_loop f i l =
     (if i < length l then (if iw_f (l ! i) = f then close_loop f i (drop_at i l) else close_loop f (Suc i) l) else l)"
  by pat_completeness auto
termination
  by (relation "measure (\<lambda>(f, i, l). length l - i)") auto

declare close_loop.simps [simp del]

definition ino_close :: "nat \<Rightarrow> ino \<Rightarrow> ino" where
  "ino_close f s =
     (let q = the (f_pipe (kfiles (ios s) f)) in
      s\<lparr>ws := close_loop f 0 (ws s), insts := remove1 f (insts s),
        ios := upd_file f (\<lambda>x. x\<lparr>f_pipe := None\<rparr>) (kfree_io q (iev (Drain_Pipe q) (ios s)))\<rparr>)"

definition ino_new :: "nat \<Rightarrow> ino \<Rightarrow> nat option \<times> ino" where
  "ino_new fl s =
     (case file_new F_INOTIFY (if bit fl 11 then 0x802 else 2) (ios s) of
        (None, o1) \<Rightarrow> (None, s\<lparr>ios := o1\<rparr>)
      | (Some f, o1) \<Rightarrow>
          (case kmalloc_io o1 of
             (None, o2) \<Rightarrow> (None, s\<lparr>ios := kfree_io f o2\<rparr>)
           | (Some q, o2) \<Rightarrow>
               (Some f, s\<lparr>ios := upd_file f (\<lambda>x. x\<lparr>f_pipe := Some q\<rparr>) (upd_pipe q (\<lambda>_. pipe_zero) o2), insts := f # insts s\<rparr>)))"

section \<open>Reading events\<close>

definition ev_turn :: "bool \<Rightarrow> nat \<Rightarrow> bool \<Rightarrow> string \<Rightarrow> pipe \<Rightarrow> turn \<times> string \<times> pipe" where
  "ev_turn nb n intr got p =
     (if p_count p = 0 then
        (if got \<noteq> [] then (Return (int (length got)), got, p)
         else if nb then (Return (- E_AGAIN), got, p)
         else if intr then (Return (- E_INTR), got, p)
         else (Sleep, got, p))
      else
        (let tot = add32 16 (u32_of (rd p (p_tail p + 12) 4)) in
         if n - length got < tot then (Return (if got \<noteq> [] then int (length got) else - E_INVAL), got, p)
         else (Again, got @ rd p (p_tail p) tot, p\<lparr>p_tail := (p_tail p + tot) mod PIPE_SZ, p_count := p_count p - tot\<rparr>)))"

partial_function (option) ev_read_loop ::
    "(nat \<Rightarrow> bool) \<Rightarrow> (nat \<Rightarrow> pipe \<Rightarrow> pipe) \<Rightarrow> nat \<Rightarrow> bool \<Rightarrow> nat \<Rightarrow> string \<Rightarrow> pipe \<Rightarrow> (int \<times> string \<times> pipe) option" where
  "ev_read_loop intr world t nb n got p =
     (case ev_turn nb n (intr t) got (world t p) of
        (Return r, got', p') \<Rightarrow> Some (r, got', p')
      | (_, got', p') \<Rightarrow> ev_read_loop intr world (Suc t) nb n got' p')"

definition ino_read :: "(nat \<Rightarrow> bool) \<Rightarrow> (nat \<Rightarrow> pipe \<Rightarrow> pipe) \<Rightarrow> nat \<Rightarrow> nat \<Rightarrow> ino \<Rightarrow> (int \<times> string \<times> ino) option" where
  "ino_read intr world f n s =
     (let q = the (f_pipe (kfiles (ios s) f)) in
      map_option (\<lambda>(r, got, p). (r, got, s\<lparr>ios := upd_pipe q (\<lambda>_. p) (ios s)\<rparr>))
        (ev_read_loop intr world 0 (nonblock (kfiles (ios s) f)) n [] (kpipes (ios s) q)))"

end
