(* ===== verification/Inotify_Correct.thy ===== *)
theory Inotify_Correct
  imports Inotify Pipe_Correct Fs_Correct "HOL-Library.Multiset"
begin

text \<open>
  What file notification promises. The pipe of an instance holds whole events and reads take whole events from its
  front, by the contract \<open>channel\<close> once more; every watch belongs to an open instance, an instance watches a node at
  most once and its watch numbers are its own; a node that goes away is watched by nobody. All operations in any
  order keep this.
\<close>

section \<open>Events\<close>

definition wf_ev :: "string \<Rightarrow> bool" where
  "wf_ev e \<longleftrightarrow> 16 \<le> length e \<and> length e \<le> 160 \<and> length e = 16 + u32_of (take 4 (drop 12 e))"

lemma length_le32 [simp]: "length (le32 x) = 4"
  by (simp add: le32_def)

lemma u32_le32:
  assumes "x < 2 ^ 32"
  shows "u32_of (le32 x) = x"
proof -
  have d: "x div 65536 = x div 256 div 256" "x div 16777216 = x div 65536 div 256" by (simp_all flip: div_mult2_eq)
  have "x div 16777216 < 256" using assms by (simp add: less_mult_imp_div_less)
  then have "u32_of (le32 x) = x mod 256 + 256 * (x div 256 mod 256) + 65536 * (x div 65536 mod 256) + 16777216 * (x div 16777216)"
    by (simp add: u32_of_def le32_def)
  also have "\<dots> = x"
    using div_mult_mod_eq [of x 256] div_mult_mod_eq [of "x div 256" 256] div_mult_mod_eq [of "x div 65536" 256] unfolding d by linarith
  finally show ?thesis .
qed

lemma event_wf:
  assumes "\<And>s. name = Some s \<Longrightarrow> length s < 128"
  shows "wf_ev (event wd m c name)"
proof -
  have n: "name_len name \<le> 128" "\<And>s. name = Some s \<Longrightarrow> length s \<le> name_len name"
    using assms by (auto simp: name_len_def split: option.splits)
  have l: "length (event wd m c name) = 16 + name_len name"
    using n(2) by (auto simp: event_def name_len_def split: option.splits)
  have "take 4 (drop 12 (event wd m c name)) = le32 (name_len name)" by (simp add: event_def)
  then show ?thesis using n(1) l u32_le32 [of "name_len name"] by (simp add: wf_ev_def)
qed

text \<open>The events of a byte string, by their lengths.\<close>

function parse_evs :: "string \<Rightarrow> string list" where
  "parse_evs s = (if length s < 16 then [] else
     (let k = 16 + u32_of (take 4 (drop 12 s)) in take k s # parse_evs (drop k s)))"
  by pat_completeness auto
termination
  by (relation "measure length", simp, simp only: in_measure length_drop)

declare parse_evs.simps [simp del]

lemma parse_ev:
  assumes "wf_ev e"
  shows "parse_evs (e @ s) = e # parse_evs s"
proof -
  have l: "16 \<le> length e" "length e = 16 + u32_of (take 4 (drop 12 e))" using assms unfolding wf_ev_def by blast+
  have "take 4 (drop 12 (e @ s)) = take 4 (drop 12 e)" using l(1) by simp
  then have k: "16 + u32_of (take 4 (drop 12 (e @ s))) = length e" using l(2) by metis
  have n: "\<not> length (e @ s) < 16" using l(1) by simp
  have "parse_evs (e @ s) = take (length e) (e @ s) # parse_evs (drop (length e) (e @ s))"
    by (subst parse_evs.simps) (simp only: n if_False Let_def k)
  then show ?thesis by simp
qed

lemma parse_nil [simp]: "parse_evs [] = []"
  by (subst parse_evs.simps) simp

lemma parse_concat: "\<forall>e\<in>set es. wf_ev e \<Longrightarrow> parse_evs (concat es) = es"
  by (induction es) (simp_all add: parse_ev)

section \<open>The queue of an instance\<close>

definition evs_of :: "pipe \<Rightarrow> string list" where "evs_of p = parse_evs (held_in p)"

definition queue :: "pipe \<Rightarrow> string list \<Rightarrow> bool" where
  "queue p es \<longleftrightarrow> pipe_ok p \<and> held_in p = concat es \<and> (\<forall>e\<in>set es. wf_ev e)"

definition queue_ok :: "pipe \<Rightarrow> bool" where "queue_ok p \<longleftrightarrow> queue p (evs_of p)"

lemma queue_evs: "queue p es \<Longrightarrow> evs_of p = es"
  by (simp add: queue_def evs_of_def parse_concat)

lemma queue_okI: "queue p es \<Longrightarrow> queue_ok p"
  using queue_evs by (auto simp: queue_ok_def)

lemma queue_zero: "queue_ok pipe_zero"
proof -
  have "queue pipe_zero []" by (simp add: queue_def pipe_ok_def ring_ok_def held_in_def pipe_zero_def)
  then show ?thesis by (rule queue_okI)
qed

lemma length_held [simp]: "length (held_in p) = p_count p"
  by (simp add: held_in_def)

lemma put_pipe_queue:
  assumes "queue p es" and "wf_ev e" and "p_count p + length e \<le> PIPE_SZ"
  shows "queue (put_pipe e p) (es @ [e])"
proof -
  have o: "ring_ok PIPE_SZ (p_buf p) (p_head p) (p_tail p) (p_count p)" using assms(1) by (simp add: queue_def pipe_ok_def)
  show ?thesis using ring_ok_put [OF o assms(3)] assms(1,2)
    by (simp add: queue_def pipe_ok_def held_in_def put_pipe_def pipe_wake_def)
qed

lemma rd_seq: "pipe_ok p \<Longrightarrow> rd p off n = ring_seq (p_buf p) off n"
  by (simp add: rd_def ring_seq_def pipe_ok_def ring_ok_def)

lemma rd_take:
  assumes "pipe_ok p" and "a + n \<le> p_count p"
  shows "rd p (p_tail p + a) n = take n (drop a (held_in p))"
proof -
  have "held_in p = ring_seq (p_buf p) (p_tail p) a @ ring_seq (p_buf p) (p_tail p + a) n @ ring_seq (p_buf p) (p_tail p + (a + n)) (p_count p - (a + n))"
    using ring_seq_add [of "p_buf p" "p_tail p" "a + n" "p_count p - (a + n)"] ring_seq_add [of "p_buf p" "p_tail p" a n] assms(2)
    by (simp add: held_in_def)
  then show ?thesis using rd_seq [OF assms(1)] by simp
qed

lemma ev_turn_some:
  assumes "queue p (e # es)"
  shows "ev_turn nb n intr got p =
    (if n - length got < length e then (Return (if got \<noteq> [] then int (length got) else - E_INVAL), got, p)
     else (Again, got @ e, p\<lparr>p_tail := (p_tail p + length e) mod PIPE_SZ, p_count := p_count p - length e\<rparr>))"
proof -
  have o: "pipe_ok p" and h: "held_in p = e @ concat es" and e: "wf_ev e" using assms by (auto simp: queue_def)
  have c: "p_count p = length e + length (concat es)" using arg_cong [OF h, of length] by simp
  have l: "16 \<le> length e" "length e \<le> 160" "length e = 16 + u32_of (take 4 (drop 12 e))" using e unfolding wf_ev_def by blast+
  have r: "rd p (p_tail p + 12) 4 = take 4 (drop 12 e)" using rd_take [OF o, of 12 4] c l(1) unfolding h by simp
  have t: "add32 16 (u32_of (rd p (p_tail p + 12) 4)) = length e"
  proof -
    have "160 < (2::nat) ^ 32" by simp
    then have "16 + u32_of (take 4 (drop 12 e)) < 2 ^ 32" using l(2,3) by linarith
    then show ?thesis unfolding r using l(3) add32_exact by metis
  qed
  have "rd p (p_tail p) (length e) = e" using rd_take [OF o, of 0 "length e"] c unfolding h by simp
  then show ?thesis using c l(1) unfolding ev_turn_def Let_def t by auto
qed

lemma ev_turn_queue:
  assumes "queue p es" and "ev_turn nb n intr got p = (r, got', p')"
  shows "(p' = p \<and> got' = got) \<or> (\<exists>e fs. es = e # fs \<and> got' = got @ e \<and> queue p' fs)"
proof (cases es)
  case Nil
  then have "held_in p = []" using assms(1) by (simp add: queue_def)
  then have "p_count p = 0" using length_held [of p] by simp
  then show ?thesis using assms(2) by (auto simp: ev_turn_def split: if_splits)
next
  case (Cons e fs)
  have q: "queue p (e # fs)" using assms(1) Cons by simp
  then have o: "ring_ok PIPE_SZ (p_buf p) (p_head p) (p_tail p) (p_count p)" and h: "held_in p = e @ concat fs"
    by (simp_all add: queue_def pipe_ok_def)
  have c: "length e \<le> p_count p" using arg_cong [OF h, of length] by simp
  let ?p = "p\<lparr>p_tail := (p_tail p + length e) mod PIPE_SZ, p_count := p_count p - length e\<rparr>"
  note g = ring_ok_get [OF o c]
  have s: "held_in p = ring_seq (p_buf p) (p_tail p) (length e) @ held_in ?p" using g by (simp add: held_in_def)
  then have "held_in ?p = concat fs" using h by (metis append_eq_append_conv length_ring_seq)
  then have "queue ?p fs" using g q by (simp add: queue_def pipe_ok_def)
  then show ?thesis using assms(2) Cons unfolding ev_turn_some [OF q] by (auto split: if_splits)
qed

definition ev_sent :: "string \<Rightarrow> pipe \<Rightarrow> string list \<times> pipe" where
  "ev_sent e p = (if wf_ev e \<and> p_count p + length e \<le> PIPE_SZ then ([e], put_pipe e p) else ([], p))"

definition ev_taken :: "bool \<times> nat \<times> bool \<times> string \<Rightarrow> pipe \<Rightarrow> string list \<times> pipe" where
  "ev_taken = (\<lambda>(nb, n, intr, got) p. case ev_turn nb n intr got p of (r, got', p') \<Rightarrow> (parse_evs (drop (length got) got'), p'))"

interpretation iq: channel queue_ok evs_of ev_sent ev_taken
proof
  fix s :: pipe and m xs s'
  assume a: "queue_ok s" "ev_sent m s = (xs, s')"
  have q: "queue s (evs_of s)" using a(1) by (simp add: queue_ok_def)
  show "queue_ok s' \<and> evs_of s' = evs_of s @ xs"
  proof (cases "wf_ev m \<and> p_count s + length m \<le> PIPE_SZ")
    case True
    then have "queue s' (evs_of s @ xs)" using put_pipe_queue [OF q, of m] a(2) by (simp add: ev_sent_def)
    then show ?thesis using queue_okI queue_evs by blast
  next
    case False
    then have "xs = []" "s' = s" using a(2) by (auto simp: ev_sent_def split: if_splits)
    then show ?thesis using a(1) by simp
  qed
next
  fix s :: pipe and m xs s'
  assume a: "queue_ok s" "ev_taken m s = (xs, s')"
  obtain nb n intr got where m: "m = (nb, n, intr, got)" by (cases m)
  obtain r got' p' where w: "ev_turn nb n intr got s = (r, got', p')" by (metis prod_cases3)
  have q: "queue s (evs_of s)" using a(1) by (simp add: queue_ok_def)
  have x: "xs = parse_evs (drop (length got) got')" "s' = p'" using a(2) m w by (auto simp: ev_taken_def)
  consider "s' = s" "xs = []" | e fs where "evs_of s = e # fs" "queue s' fs" "xs = parse_evs e"
    using ev_turn_queue [OF q w] x by auto
  then show "queue_ok s' \<and> evs_of s = xs @ evs_of s'"
  proof cases
    case 2
    then have "wf_ev e" using q by (simp add: queue_def)
    then have "xs = [e]" using 2(3) parse_ev [of e "[]"] by simp
    then show ?thesis using 2 queue_okI queue_evs by auto
  qed (use a in simp)
qed

section \<open>Instances and watches\<close>

definition inst_ok :: "io \<Rightarrow> nat list \<Rightarrow> bool" where
  "inst_ok s I \<longleftrightarrow>
     distinct I \<and> inj_on (\<lambda>f. f_pipe (kfiles s f)) (set I) \<and>
     (\<forall>f\<in>set I. \<exists>q. f_pipe (kfiles s f) = Some q \<and> queue_ok (kpipes s q)) \<and>
     (\<forall>a. Some a \<in> set (kmem s) \<longrightarrow> a \<notin> set I \<and> (\<forall>f\<in>set I. f_pipe (kfiles s f) \<noteq> Some a)) \<and>
     distinct (filter (\<lambda>x. x \<noteq> None) (kmem s))"

definition watch_ok :: "io \<Rightarrow> nat list \<Rightarrow> iw list \<Rightarrow> bool" where
  "watch_ok s I l \<longleftrightarrow>
     (\<forall>w\<in>set l. iw_f w \<in> set I \<and> 0 < iw_wd w \<and> iw_wd w \<le> f_disk (kfiles s (iw_f w))) \<and>
     distinct (map (\<lambda>w. (iw_f w, iw_n w)) l) \<and> distinct (map (\<lambda>w. (iw_f w, iw_wd w)) l) \<and> length l \<le> MAXW \<and>
     (\<forall>f\<in>set I. 0 \<le> f_disk (kfiles s f))"

definition ino_inv :: "ino \<Rightarrow> bool" where
  "ino_inv s \<longleftrightarrow> inst_ok (ios s) (insts s) \<and> watch_ok (ios s) (insts s) (ws s) \<and> (\<forall>n. length (nname (nodes (itree s) n)) < 128)"

text \<open>What a queued event leaves alone: everything but the pipe of the instance and the place of its last event.\<close>

definition same_files :: "io \<Rightarrow> io \<Rightarrow> bool" where
  "same_files s s' \<longleftrightarrow> kmem s' = kmem s \<and> (\<forall>f. f_pipe (kfiles s' f) = f_pipe (kfiles s f) \<and> f_disk (kfiles s' f) = f_disk (kfiles s f))"

lemma same_files_refl [simp]: "same_files s s"
  by (simp add: same_files_def)

lemma same_files_trans: "same_files a b \<Longrightarrow> same_files b c \<Longrightarrow> same_files a c"
  by (simp add: same_files_def)

lemma same_files_watch: "same_files s s' \<Longrightarrow> watch_ok s' I l = watch_ok s I l"
  by (simp add: same_files_def watch_ok_def)

lemma inst_queue:
  assumes "inst_ok s I" and "same_files s s'" and "f \<in> set I" and "f_pipe (kfiles s f) = Some q"
    and "queue_ok (kpipes s' q)" and "\<And>x. x \<noteq> q \<Longrightarrow> kpipes s' x = kpipes s x"
  shows "inst_ok s' I"
proof -
  have p: "f_pipe (kfiles s' g) = f_pipe (kfiles s g)" "kmem s' = kmem s" for g using assms(2) by (auto simp: same_files_def)
  have "\<exists>q. f_pipe (kfiles s g) = Some q \<and> queue_ok (kpipes s' q)" if g: "g \<in> set I" for g
  proof -
    obtain r where r: "f_pipe (kfiles s g) = Some r" "queue_ok (kpipes s r)" using assms(1) g by (auto simp: inst_ok_def)
    then show ?thesis using assms(5,6) by (cases "r = q") auto
  qed
  then show ?thesis using assms(1) by (simp add: inst_ok_def p)
qed

lemma put_ev_ok:
  assumes "inst_ok s I" and "f \<in> set I" and "wf_ev e" and "put_ev e slack f s = Some s'"
  shows "inst_ok s' I \<and> same_files s s'"
proof -
  obtain q where q: "f_pipe (kfiles s f) = Some q" "queue_ok (kpipes s q)" using assms(1,2) by (auto simp: inst_ok_def)
  show ?thesis
  proof (cases "is_dup e (f_cnt (kfiles s f)) (kpipes s q)")
    case True
    then show ?thesis using assms(1,4) q(1) by (simp add: put_ev_def)
  next
    case False
    have n: "p_count (kpipes s q) + length e \<le> PIPE_SZ"
      and s': "s' = upd_pipe q (put_pipe e) (upd_file f (\<lambda>x. x\<lparr>f_cnt := p_head (kpipes s q) + 1\<rparr>) s)"
      using assms(4) False q(1) by (auto simp: put_ev_def Let_def split: if_splits)
    have "queue_ok (put_pipe e (kpipes s q))" using put_pipe_queue [OF _ assms(3) n] q(2) queue_okI unfolding queue_ok_def by blast
    moreover have f: "same_files s s'" unfolding s' by (simp add: same_files_def upd_pipe_def upd_file_def)
    ultimately show ?thesis using inst_queue [OF assms(1) f assms(2) q(1)] unfolding s' by (simp add: upd_pipe_def upd_file_def)
  qed
qed

lemma put_io_ok:
  assumes "inst_ok s I" and "f \<in> set I" and "\<And>x. name = Some x \<Longrightarrow> length x < 128"
  shows "inst_ok (put_io f wd m c name s) I \<and> same_files s (put_io f wd m c name s)"
proof -
  have w: "wf_ev (event wd m c name)" "wf_ev (event (- 1) IN_Q_OVERFLOW 0 None)" using event_wf assms(3) by auto
  show ?thesis using assms(1) put_ev_ok [OF assms(1,2) w(1)] put_ev_ok [OF assms(1,2) w(2)]
    unfolding put_io_def by (simp split: option.splits)
qed

text \<open>An operation that only queues events and drops watches.\<close>

definition quiet :: "ino \<Rightarrow> ino \<Rightarrow> bool" where
  "quiet s s' \<longleftrightarrow> ino_inv s' \<and> itree s' = itree s \<and> insts s' = insts s \<and> set (ws s') \<subseteq> set (ws s)"

lemma quiet_refl: "ino_inv s \<Longrightarrow> quiet s s"
  by (simp add: quiet_def)

lemma quiet_trans: "quiet a b \<Longrightarrow> quiet b c \<Longrightarrow> quiet a c"
  by (auto simp: quiet_def)

lemma put_quiet:
  assumes "ino_inv s" and "f \<in> set (insts s)" and "\<And>x. name = Some x \<Longrightarrow> length x < 128"
  shows "quiet s (put f wd m c name s)"
proof -
  have i: "inst_ok (ios s) (insts s)" "watch_ok (ios s) (insts s) (ws s)" using assms(1) by (simp_all add: ino_inv_def)
  note p = put_io_ok [OF i(1) assms(2,3), where wd = wd and m = m and c = c]
  show ?thesis using p assms(1) i(2) same_files_watch [of "ios s" "put_io f wd m c name (ios s)" "insts s" "ws s"]
    by (simp add: ino_inv_def quiet_def put_def)
qed

lemma drop_at_mset:
  assumes "i < length l"
  shows "mset (l ! i # drop_at i l) = mset l"
proof -
  have "l \<noteq> []" using assms by auto
  then obtain m z where l: "l = m @ [z]" by (metis append_butlast_last_id)
  show ?thesis
  proof (cases "i = length m")
    case False
    then have i: "i < length m" using assms l by simp
    have "mset m = add_mset (m ! i) (mset (take i m) + mset (drop (Suc i) m))"
      using arg_cong [OF id_take_nth_drop [OF i], of mset] by simp
    moreover have "drop_at i l = m[i := z]" using i l by (simp add: drop_at_def list_update_append)
    then have "drop_at i l = take i m @ z # drop (Suc i) m" using i by (simp add: upd_conv_take_nth_drop)
    ultimately show ?thesis using i l by (simp add: nth_append)
  qed (use l in \<open>simp add: drop_at_def\<close>)
qed

lemma drop_at_facts:
  assumes "i < length l"
  shows "set (drop_at i l) \<subseteq> set l" "distinct (map g l) \<Longrightarrow> distinct (g (l ! i) # map g (drop_at i l))"
proof -
  show "set (drop_at i l) \<subseteq> set l" using mset_eq_setD [OF drop_at_mset [OF assms]] by auto
  have "mset (map g (l ! i # drop_at i l)) = mset (map g l)" using drop_at_mset [OF assms] by (metis mset_map)
  then show "distinct (map g l) \<Longrightarrow> distinct (g (l ! i) # map g (drop_at i l))" using mset_eq_imp_distinct_iff by fastforce
qed

lemma watch_drop: "watch_ok s I l \<Longrightarrow> i < length l \<Longrightarrow> watch_ok s I (drop_at i l)"
  using drop_at_facts(1) [of i l] drop_at_facts(2) [of i l "\<lambda>w. (iw_f w, iw_n w)"] drop_at_facts(2) [of i l "\<lambda>w. (iw_f w, iw_wd w)"]
  by (auto simp: watch_ok_def)

lemma drop_quiet: "ino_inv s \<Longrightarrow> i < length (ws s) \<Longrightarrow> quiet s (drop_w i s)"
  using watch_drop drop_at_facts(1) by (auto simp: quiet_def ino_inv_def drop_w_def)

lemma watch_inst: "ino_inv s \<Longrightarrow> i < length (ws s) \<Longrightarrow> iw_f (ws s ! i) \<in> set (insts s)"
  by (simp add: ino_inv_def watch_ok_def)

lemma ev_loop_quiet:
  assumes "ino_inv s" and "\<And>x. name = Some x \<Longrightarrow> length x < 128"
  shows "quiet s (ev_loop n m name c i s)"
  using assms
proof (induction n m name c i s rule: ev_loop.induct)
  case (1 n m name c i s)
  show ?case
  proof (cases "i < length (ws s)")
    case True
    let ?w = "ws s ! i"
    note f = watch_inst [OF "1.prems"(1) True]
    let ?s1 = "put (iw_f ?w) (iw_wd ?w) m c name s"
    let ?s2 = "put (iw_f ?w) (iw_wd ?w) IN_IGNORED 0 None ?s1"
    have p1: "quiet s ?s1" by (rule put_quiet [OF "1.prems"(1) f "1.prems"(2)])
    then have i1: "ino_inv ?s1" "iw_f ?w \<in> set (insts ?s1)" using f by (auto simp: quiet_def)
    have p2: "quiet s ?s2" by (rule quiet_trans [OF p1 put_quiet [OF i1]]) simp
    then have i2: "ino_inv ?s2" by (simp add: quiet_def)
    have p3: "quiet s (drop_w i ?s2)" using quiet_trans [OF p2 drop_quiet [OF i2]] True by simp
    have inv: "ino_inv (drop_w i ?s2)" using p3 by (simp add: quiet_def)
    show ?thesis
    proof (cases "iw_n ?w \<noteq> n \<or> iw_mask ?w AND m AND 0xfff = 0")
      case skip: True
      then show ?thesis using "1.IH"(1) [OF True refl skip "1.prems"] True by (subst ev_loop.simps) simp
    next
      case hit: False
      show ?thesis
      proof (cases "bit (iw_mask ?w) ONESHOT")
        case once: True
        show ?thesis using quiet_trans [OF p3 "1.IH"(2) [OF True refl hit refl once inv "1.prems"(2)]] True hit once by (subst ev_loop.simps) (simp add: Let_def)
      next
        case False
        show ?thesis using quiet_trans [OF p1 "1.IH"(3) [OF True refl hit refl False i1(1) "1.prems"(2)]] True hit False by (subst ev_loop.simps) (simp add: Let_def)
      qed
    qed
  qed (use "1.prems"(1) in \<open>subst ev_loop.simps, simp add: quiet_refl\<close>)
qed

lemma ino_ev_quiet:
  assumes "ino_inv s" and "\<And>x. name = Some x \<Longrightarrow> length x < 128"
  shows "quiet s (ino_ev no m name c s)"
  using ev_loop_quiet [OF assms] quiet_refl [OF assms(1)] by (auto simp: ino_ev_def split: option.splits)

lemma ino_node_quiet:
  assumes "ino_inv s"
  shows "quiet s (ino_node no m s)"
proof (cases "no = None \<or> ws s = []")
  case True
  then show ?thesis using quiet_refl [OF assms] by (auto simp: ino_node_def split: option.split)
next
  case False
  then obtain n where n: "no = Some n" by auto
  have l: "length (nname (nodes (itree s) n)) < 128" using assms by (simp add: ino_inv_def)
  have a: "quiet s (ino_ev (Some n) k None 0 s)" for k by (rule ino_ev_quiet [OF assms]) simp
  have b: "quiet s (ino_ev (Some d) k (Some (nname (nodes (itree s) n))) 0 (ino_ev (Some n) k None 0 s))" for d k
    by (rule quiet_trans [OF a ino_ev_quiet]) (use a l in \<open>auto simp: quiet_def\<close>)
  show ?thesis using False a b by (auto simp: n ino_node_def Let_def split: option.splits)
qed

lemma gone_loop_quiet:
  "ino_inv s \<Longrightarrow> \<forall>j<i. j < length (ws s) \<longrightarrow> iw_n (ws s ! j) \<noteq> n \<Longrightarrow>
   quiet s (gone_loop n i s) \<and> (\<forall>w\<in>set (ws (gone_loop n i s)). iw_n w \<noteq> n)"
proof (induction n i s rule: gone_loop.induct)
  case (1 n i s)
  show ?case
  proof (cases "i < length (ws s)")
    case True
    let ?w = "ws s ! i"
    let ?s1 = "put (iw_f ?w) (iw_wd ?w) IN_IGNORED 0 None s"
    have p1: "quiet s ?s1" by (rule put_quiet [OF "1.prems"(1) watch_inst [OF "1.prems"(1) True]]) simp
    then have "ino_inv ?s1" by (simp add: quiet_def)
    then have p2: "quiet s (drop_w i ?s1)" using quiet_trans [OF p1 drop_quiet] True by simp
    have inv: "ino_inv (drop_w i ?s1)" using p2 by (simp add: quiet_def)
    have pre: "\<forall>j<i. j < length (ws (drop_w i ?s1)) \<longrightarrow> iw_n (ws (drop_w i ?s1) ! j) \<noteq> n"
      using "1.prems"(2) True by (auto simp: drop_w_def drop_at_def nth_butlast)
    show ?thesis
    proof (cases "iw_n ?w = n")
      case hit: True
      have e: "gone_loop n i s = gone_loop n i (drop_w i ?s1)" using True hit by (subst gone_loop.simps) (simp add: Let_def)
      show ?thesis unfolding e using "1.IH"(1) [OF True refl hit inv pre] quiet_trans [OF p2] by blast
    next
      case False
      have e: "gone_loop n i s = gone_loop n (Suc i) s" using True False by (subst gone_loop.simps) simp
      show ?thesis unfolding e using "1.IH"(2) [OF True refl False "1.prems"(1)] "1.prems"(2) False by (auto simp: less_Suc_eq)
    qed
  next
    case False
    then have "gone_loop n i s = s" by (subst gone_loop.simps) simp
    moreover have "\<forall>w\<in>set (ws s). iw_n w \<noteq> n" using "1.prems"(2) False by (metis in_set_conv_nth linorder_not_less order_less_le_trans)
    ultimately show ?thesis using quiet_refl [OF "1.prems"(1)] by simp
  qed
qed

lemma ino_gone_ok:
  assumes "ino_inv s"
  shows "quiet s (ino_gone (Some n) self s) \<and> (\<forall>w\<in>set (ws (ino_gone (Some n) self s)). iw_n w \<noteq> key n (itree s))"
proof (cases "ws s = []")
  case True
  then show ?thesis using quiet_refl [OF assms] by (simp add: ino_gone_def)
next
  case False
  let ?s = "if self then ino_ev (Some (key n (itree s))) 0x400 None 0 s else s"
  have q: "quiet s ?s" using ino_ev_quiet [OF assms, of None] quiet_refl [OF assms] by simp
  then have "ino_inv ?s" by (simp add: quiet_def)
  then show ?thesis using gone_loop_quiet [of ?s 0 "key n (itree s)"] quiet_trans [OF q] False by (auto simp: ino_gone_def Let_def)
qed

lemma ino_add_inv:
  assumes "ino_inv s" and "f \<in> set (insts s)"
  shows "ino_inv (snd (ino_add f n m s))"
proof (cases "first_idx (\<lambda>w. iw_f w = f \<and> iw_n w = key n (itree s)) (ws s)")
  case None
  let ?d = "f_disk (kfiles (ios s) f)"
  let ?o = "upd_file f (\<lambda>x. x\<lparr>f_disk := ?d + 1\<rparr>) (ios s)"
  have i: "inst_ok (ios s) (insts s)" "watch_ok (ios s) (insts s) (ws s)" "\<forall>n. length (nname (nodes (itree s) n)) < 128"
    using assms(1) by (simp_all add: ino_inv_def)
  have new: "\<And>w. w \<in> set (ws s) \<Longrightarrow> \<not> (iw_f w = f \<and> iw_n w = key n (itree s))" using None by (simp add: first_idx_None)
  have old: "iw_wd w \<noteq> ?d + 1" if "w \<in> set (ws s)" "iw_f w = f" for w using i(2) that by (fastforce simp: watch_ok_def)
  have nn: "(f, key n (itree s)) \<notin> (\<lambda>w. (iw_f w, iw_n w)) ` set (ws s)" using new by fastforce
  have nw: "(f, ?d + 1) \<notin> (\<lambda>w. (iw_f w, iw_wd w)) ` set (ws s)" using old by fastforce
  have "f_pipe (kfiles ?o g) = f_pipe (kfiles (ios s) g)" "kmem ?o = kmem (ios s)" "kpipes ?o = kpipes (ios s)" for g
    by (simp_all add: upd_file_def)
  then have a: "inst_ok ?o (insts s)" using i(1) by (simp add: inst_ok_def)
  have "watch_ok ?o (insts s) (ws s @ [\<lparr>iw_f = f, iw_wd = ?d + 1, iw_n = key n (itree s), iw_mask = m\<rparr>])" if "length (ws s) \<noteq> MAXW"
    using i(2) that assms(2) nn nw unfolding watch_ok_def upd_file_def by auto
  then show ?thesis using None a i(3) assms(1) by (simp add: ino_add_def Let_def ino_inv_def)
next
  case (Some i)
  have "i < length (ws s)" using first_idx_SomeD [OF Some] by simp
  have "watch_ok (ios s) (insts s) ((ws s)[i := (ws s ! i)\<lparr>iw_mask := k\<rparr>])" (is "watch_ok _ _ ?l") for k
  proof -
    have e: "map (\<lambda>w. (iw_f w, iw_n w)) (?l) = map (\<lambda>w. (iw_f w, iw_n w)) (ws s)"
        "map (\<lambda>w. (iw_f w, iw_wd w)) (?l) = map (\<lambda>w. (iw_f w, iw_wd w)) (ws s)"
      using \<open>i < length (ws s)\<close> by (auto simp: list_eq_iff_nth_eq nth_list_update)
    have "\<exists>v\<in>set (ws s). iw_f w = iw_f v \<and> iw_wd w = iw_wd v" if w: "w \<in> set (?l)" for w
      using in_set_conv_nth [of w "?l"] w \<open>i < length (ws s)\<close> by (auto simp: nth_list_update split: if_splits)
    then show ?thesis using assms(1) unfolding ino_inv_def watch_ok_def e by (metis length_list_update)
  qed
  then show ?thesis using Some assms(1) by (simp add: ino_add_def Let_def ino_inv_def)
qed

lemma ino_rm_inv:
  assumes "ino_inv s"
  shows "ino_inv (snd (ino_rm f wd s))"
proof (cases "first_idx (\<lambda>w. iw_f w = f \<and> iw_wd w = wd) (ws s)")
  case None
  then show ?thesis using assms by (simp add: ino_rm_def)
next
  case (Some i)
  have i: "i < length (ws s)" "iw_f (ws s ! i) = f" using first_idx_SomeD [OF Some] by simp_all
  have p: "quiet s (put f wd IN_IGNORED 0 None s)" by (rule put_quiet [OF assms]) (use watch_inst [OF assms i(1)] i(2) in simp_all)
  then have "ino_inv (put f wd IN_IGNORED 0 None s)" by (simp add: quiet_def)
  then show ?thesis using drop_quiet [of "put f wd IN_IGNORED 0 None s" i] i(1) Some by (simp add: ino_rm_def quiet_def)
qed

lemma close_loop_ok:
  "watch_ok s I l \<Longrightarrow> \<forall>j<i. j < length l \<longrightarrow> iw_f (l ! j) \<noteq> f \<Longrightarrow>
   watch_ok s I (close_loop f i l) \<and> (\<forall>w\<in>set (close_loop f i l). iw_f w \<noteq> f)"
proof (induction f i l rule: close_loop.induct)
  case (1 f i l)
  show ?case
  proof (cases "i < length l")
    case True
    have pre: "\<forall>j<i. j < length (drop_at i l) \<longrightarrow> iw_f (drop_at i l ! j) \<noteq> f" using "1.prems"(2) True by (auto simp: drop_at_def nth_butlast)
    show ?thesis
    proof (cases "iw_f (l ! i) = f")
      case hit: True
      then show ?thesis using "1.IH"(1) [OF True hit watch_drop [OF "1.prems"(1) True] pre] True by (subst (1 2) close_loop.simps) simp
    next
      case False
      have "\<forall>j<Suc i. j < length l \<longrightarrow> iw_f (l ! j) \<noteq> f" using "1.prems"(2) False by (auto simp: less_Suc_eq)
      then show ?thesis using "1.IH"(2) [OF True False "1.prems"(1)] True False by (subst (1 2) close_loop.simps) simp
    qed
  next
    case False
    have "\<forall>w\<in>set l. iw_f w \<noteq> f" using "1.prems"(2) False by (metis in_set_conv_nth linorder_not_less order_less_le_trans)
    then show ?thesis using "1.prems"(1) False by (subst (1 2) close_loop.simps) simp
  qed
qed

lemma ino_close_inv:
  assumes "ino_inv s" and "f \<in> set (insts s)"
  shows "ino_inv (ino_close f s)"
proof -
  have i: "inst_ok (ios s) (insts s)" "watch_ok (ios s) (insts s) (ws s)" using assms(1) by (simp_all add: ino_inv_def)
  have d: "distinct (insts s)" using i(1) by (simp add: inst_ok_def)
  define o' where "o' = ios (ino_close f s)"
  have o: "kmem o' = kmem (ios s)" "kpipes o' = kpipes (ios s)" "\<And>g. g \<noteq> f \<Longrightarrow> kfiles o' g = kfiles (ios s) g"
    by (simp_all add: o'_def ino_close_def Let_def upd_file_def kfree_io_def iev_def)
  have e: "set (remove1 f (insts s)) = set (insts s) - {f}" using d by simp
  have "inst_ok o' (remove1 f (insts s))"
    using i(1) d unfolding inst_ok_def o(1,2) e by (auto simp: inj_on_def o(3))
  moreover have "watch_ok o' (remove1 f (insts s)) (close_loop f 0 (ws s))"
    using close_loop_ok [OF i(2), of 0 f] unfolding watch_ok_def e by (auto simp: o(3))
  ultimately show ?thesis using assms(1) by (simp add: ino_inv_def o'_def ino_close_def Let_def)
qed

lemma mem_tail:
  assumes "kmem s = Some a # r" and "inst_ok s I"
  shows "a \<notin> set I" "\<forall>f\<in>set I. f_pipe (kfiles s f) \<noteq> Some a" "Some a \<notin> set r" "inst_ok (s\<lparr>kmem := r, klive := L\<rparr>) I"
  using assms by (auto simp: inst_ok_def)

lemma inst_free: "inst_ok (kfree_io a s) I = inst_ok s I" "watch_ok (kfree_io a s) I l = watch_ok s I l"
  by (simp_all add: inst_ok_def watch_ok_def kfree_io_def)

text \<open>A place that is not an open instance may be written.\<close>

lemma inst_other:
  assumes "a \<notin> set I"
  shows "inst_ok (upd_file a g s) I = inst_ok s I" "watch_ok (upd_file a g s) I l = watch_ok s I l"
proof -
  have "kfiles (upd_file a g s) f = kfiles s f" if "f \<in> set I" for f using assms that by (auto simp: upd_file_def)
  moreover have "kmem (upd_file a g s) = kmem s" "kpipes (upd_file a g s) = kpipes s" by (simp_all add: upd_file_def)
  ultimately show "inst_ok (upd_file a g s) I = inst_ok s I" "watch_ok (upd_file a g s) I l = watch_ok s I l"
    by (auto simp: inst_ok_def watch_ok_def inj_on_def)
qed

lemma file_new_inst:
  assumes "inst_ok s I" and "watch_ok s I l" and "file_new ty fl s = (fo, s')"
  shows "inst_ok s' I \<and> watch_ok s' I l \<and> (\<forall>f. fo = Some f \<longrightarrow> f \<notin> set I \<and> Some f \<notin> set (kmem s') \<and> f_disk (kfiles s' f) = 0)"
proof (cases "kmem s")
  case Nil
  then show ?thesis using assms by (auto simp: file_new_def kmalloc_io_def)
next
  case (Cons x r)
  show ?thesis
  proof (cases x)
    case None
    then show ?thesis using assms Cons by (auto simp: file_new_def kmalloc_io_def inst_ok_def watch_ok_def)
  next
    case (Some a)
    have m: "kmem s = Some a # r" using Cons Some by simp
    note t = mem_tail [OF m assms(1)]
    have e: "s' = upd_file a (\<lambda>_. file_zero ty fl) (s\<lparr>kmem := r, klive := a # klive s\<rparr>)" "fo = Some a"
      using assms(3) m by (auto simp: file_new_def kmalloc_io_def)
    have "watch_ok (s\<lparr>kmem := r, klive := a # klive s\<rparr>) I l" using assms(2) by (simp add: watch_ok_def)
    then have "inst_ok s' I" "watch_ok s' I l" unfolding e(1) inst_other [OF t(1)] using t(4) by blast+
    moreover have "kmem s' = r" "f_disk (kfiles s' a) = 0" unfolding e(1) by (simp_all add: upd_file_def file_zero_def)
    ultimately show ?thesis using t(1,3) e(2) by simp
  qed
qed

lemma ino_new_inv:
  assumes "ino_inv s"
  shows "ino_inv (snd (ino_new fl s))"
proof -
  let ?I = "insts s"
  obtain fo o1 where n: "file_new F_INOTIFY (if bit fl 11 then 0x802 else 2) (ios s) = (fo, o1)" by fastforce
  have i: "inst_ok (ios s) ?I" "watch_ok (ios s) ?I (ws s)" using assms by (simp_all add: ino_inv_def)
  note o1 = file_new_inst [OF i n]
  show ?thesis
  proof (cases fo)
    case None
    then show ?thesis using n o1 assms by (simp add: ino_new_def ino_inv_def)
  next
    case (Some f)
    have f: "f \<notin> set ?I" "Some f \<notin> set (kmem o1)" "f_disk (kfiles o1 f) = 0" using o1 Some by auto
    show ?thesis
    proof (cases "\<exists>q r. kmem o1 = Some q # r")
      case False
      then have "\<exists>r. kmalloc_io o1 = (None, o1\<lparr>kmem := r\<rparr>) \<and> (kmem o1 = r \<or> kmem o1 = None # r)"
        by (auto simp: kmalloc_io_def split: list.splits option.splits)
      then obtain r where r: "kmalloc_io o1 = (None, o1\<lparr>kmem := r\<rparr>)" "kmem o1 = r \<or> kmem o1 = None # r" by blast
      have "inst_ok (o1\<lparr>kmem := r\<rparr>) ?I \<and> watch_ok (o1\<lparr>kmem := r\<rparr>) ?I (ws s)" using o1 r(2) by (auto simp: inst_ok_def watch_ok_def)
      then show ?thesis using n Some r(1) assms by (simp add: ino_new_def ino_inv_def inst_free)
    next
      case True
      then obtain q r where m: "kmem o1 = Some q # r" by blast
      let ?o = "upd_file f (\<lambda>x. x\<lparr>f_pipe := Some q\<rparr>) (upd_pipe q (\<lambda>_. pipe_zero) (o1\<lparr>kmem := r, klive := q # klive o1\<rparr>))"
      have io: "inst_ok o1 ?I" "watch_ok o1 ?I (ws s)" using o1 by auto
      note t = mem_tail [OF m io(1)]
      have fq: "f \<noteq> q" "Some f \<notin> set r" using f(2) m by auto
      have p: "kpipes ?o x = (if x = q then pipe_zero else kpipes o1 x)" "kmem ?o = r" "kfiles ?o f = (kfiles o1 f)\<lparr>f_pipe := Some q\<rparr>" for x
        by (simp_all add: upd_file_def upd_pipe_def)
      have g: "kfiles ?o g = kfiles o1 g" if "g \<in> set ?I" for g using f(1) that by (auto simp: upd_file_def upd_pipe_def)
      have old: "\<exists>x. f_pipe (kfiles ?o g) = Some x \<and> queue_ok (kpipes ?o x)" if "g \<in> set ?I" for g
      proof -
        obtain x where x: "f_pipe (kfiles o1 g) = Some x" "queue_ok (kpipes o1 x)" using io(1) \<open>g \<in> set ?I\<close> by (auto simp: inst_ok_def)
        then have "x \<noteq> q" using t(2) \<open>g \<in> set ?I\<close> by auto
        then show ?thesis using x by (simp add: g [OF \<open>g \<in> set ?I\<close>] p(1))
      qed
      have "inst_ok ?o (f # ?I)"
        unfolding inst_ok_def p(2) using io(1) t f(1) fq old queue_zero m by (auto simp: inst_ok_def inj_on_def g p(1,3))
      moreover have "watch_ok ?o (f # ?I) (ws s)" using io(2) f by (auto simp: watch_ok_def g p(3))
      ultimately show ?thesis using n Some m assms by (simp add: ino_new_def ino_inv_def kmalloc_io_def)
    qed
  qed
qed

section \<open>All operations in any order\<close>

definition ino_read_turn :: "nat \<Rightarrow> nat \<Rightarrow> bool \<Rightarrow> string \<Rightarrow> ino \<Rightarrow> ino" where
  "ino_read_turn f n intr got s =
     (let q = the (f_pipe (kfiles (ios s) f)); (r, got', p') = ev_turn (nonblock (kfiles (ios s) f)) n intr got (kpipes (ios s) q)
      in s\<lparr>ios := upd_pipe q (\<lambda>_. p') (ios s)\<rparr>)"

datatype ino_op = I_New nat | I_Close nat | I_Add nat nat nat | I_Rm nat int | I_Ev "nat option" nat "string option" nat
  | I_Node "nat option" nat | I_Gone "nat option" bool | I_Read nat nat bool string

text \<open>The calls on an instance are made on an open one, and names are those of nodes.\<close>

fun ino_do :: "ino_op \<Rightarrow> ino \<Rightarrow> ino" where
  "ino_do (I_New fl) s = snd (ino_new fl s)"
| "ino_do (I_Close f) s = (if f \<in> set (insts s) then ino_close f s else s)"
| "ino_do (I_Add f n m) s = (if f \<in> set (insts s) then snd (ino_add f n m s) else s)"
| "ino_do (I_Rm f wd) s = snd (ino_rm f wd s)"
| "ino_do (I_Ev no m name c) s = (if (case name of None \<Rightarrow> True | Some x \<Rightarrow> length x < 128) then ino_ev no m name c s else s)"
| "ino_do (I_Node no m) s = ino_node no m s"
| "ino_do (I_Gone no self) s = ino_gone no self s"
| "ino_do (I_Read f n intr got) s = (if f \<in> set (insts s) then ino_read_turn f n intr got s else s)"

definition ino_boot :: "ino \<Rightarrow> bool" where
  "ino_boot s \<longleftrightarrow> ws s = [] \<and> insts s = [] \<and> (\<forall>n. length (nname (nodes (itree s) n)) < 128) \<and> distinct (filter (\<lambda>x. x \<noteq> None) (kmem (ios s)))"

lemma ino_read_turn_inv:
  assumes "ino_inv s" and "f \<in> set (insts s)"
  shows "ino_inv (ino_read_turn f n intr got s)"
proof -
  have i: "inst_ok (ios s) (insts s)" "watch_ok (ios s) (insts s) (ws s)" using assms(1) by (simp_all add: ino_inv_def)
  obtain q where q: "f_pipe (kfiles (ios s) f) = Some q" "queue_ok (kpipes (ios s) q)" using i(1) assms(2) by (auto simp: inst_ok_def)
  obtain r got' p' where t: "ev_turn (nonblock (kfiles (ios s) f)) n intr got (kpipes (ios s) q) = (r, got', p')" by (metis prod_cases3)
  have "queue_ok p'" using ev_turn_queue [OF _ t] q(2) queue_okI unfolding queue_ok_def by blast
  moreover have "same_files (ios s) (upd_pipe q (\<lambda>_. p') (ios s))" by (simp add: same_files_def upd_pipe_def)
  ultimately have "inst_ok (upd_pipe q (\<lambda>_. p') (ios s)) (insts s)" "watch_ok (upd_pipe q (\<lambda>_. p') (ios s)) (insts s) (ws s)"
    using inst_queue [OF i(1) _ assms(2) q(1)] i(2) same_files_watch by (auto simp: upd_pipe_def)
  then show ?thesis using assms(1) q(1) t by (simp add: ino_read_turn_def ino_inv_def)
qed

lemma ino_do_inv: "ino_inv s \<Longrightarrow> ino_inv (ino_do op s)"
proof (cases op)
  case (I_Ev no m name c)
  assume "ino_inv s"
  then show ?thesis using I_Ev ino_ev_quiet [of s name no m c] by (auto simp: quiet_def split: option.splits)
next
  case (I_Gone no self)
  assume "ino_inv s"
  then show ?thesis using I_Gone ino_gone_ok [of s _ self] by (cases no) (auto simp: quiet_def ino_gone_def)
next
  case (I_Node no m)
  assume "ino_inv s"
  then show ?thesis using I_Node ino_node_quiet [of s no m] by (simp add: quiet_def)
qed (simp_all add: ino_new_inv ino_close_inv ino_add_inv ino_rm_inv ino_read_turn_inv)

interpretation ic: kernel_component ino_boot ino_do ino_inv
proof
  fix s assume "ino_boot s"
  then show "ino_inv s" by (simp add: ino_boot_def ino_inv_def inst_ok_def watch_ok_def)
next
  fix s x assume "ino_inv s"
  then show "ino_inv (ino_do x s)" by (rule ino_do_inv)
qed

text \<open>C11: after any sequence of operations every instance has a pipe of its own that holds whole events, every watch
  belongs to an open instance, no instance watches a node twice, the watch numbers of an instance are distinct and
  given out by it, and the table is within its size; and \<open>ino_gone\<close> leaves no watch of the node that goes away.
\<close>

theorem ino_watches:
  assumes "ino_boot s"
  shows "ino_inv (fold ino_do ops s) \<and>
     (\<forall>n self. list_all (\<lambda>w. iw_n w \<noteq> key n (itree (fold ino_do ops s))) (ws (ino_gone (Some n) self (fold ino_do ops s))))"
  using ic.run_inv [OF assms, of ops] ino_gone_ok [OF ic.run_inv [OF assms, of ops]] by (simp add: list_all_iff)

text \<open>An instance with two watches, an event and a read.\<close>

definition demo_ino :: ino where
  "demo_ino = \<lparr>ios = \<lparr>kpipes = (\<lambda>_. pipe_zero), kfiles = (\<lambda>_. file_zero F_NULL 0), klive = [], kmem = [Some 10, Some 11],
     fifo_data = (\<lambda>_. None), open_refs = (\<lambda>_. 0), ievs = []\<rparr>, ws = [], itree = demo_fs, insts = []\<rparr>"

lemma demo_watches: "map iw_wd (ws (fold ino_do [I_New 0, I_Add 10 0 0x100, I_Add 10 1 2] demo_ino)) = [1, 2]"
  by (simp add: demo_ino_def ino_new_def file_new_def kmalloc_io_def ino_add_def key_def demo_nodes empty_node_def upd_file_def
      upd_pipe_def file_zero_def Let_def)

theorem ino_watches_witness:
  "ino_boot demo_ino \<and> ino_inv (fold ino_do [I_New 0, I_Add 10 0 0x100, I_Add 10 1 2, I_Node (Some 1) 2, I_Read 10 64 False []] demo_ino) \<and>
   map iw_wd (ws (fold ino_do [I_New 0, I_Add 10 0 0x100, I_Add 10 1 2] demo_ino)) = [1, 2]"
proof -
  have b: "ino_boot demo_ino" by (simp add: ino_boot_def demo_ino_def demo_nodes empty_node_def)
  then show ?thesis using ino_watches [OF b] demo_watches by blast
qed

end
