(* ===== verification/Timer.thy ===== *)
theory Timer
  imports Kernel_Prelude "HOL-Library.Signed_Division"
begin

text \<open>
  Timers, \<open>src/src/proc/timer.c\<close>, with the alarm of a process (\<open>proc_check_alarm\<close> of \<open>signal.c\<close>, \<open>alarm\<close> of
  \<open>syscall.c\<close>): POSIX timers, interval timers, the walk of the tick over all processes and the earliest deadline
  that lets the tick skip the walk. Times are milliseconds since boot in 32 bits. \<open>up\<close> is what \<open>pit_uptime_ms\<close>
  answers; a process is named by its slot, \<open>tcur\<close> is the current one; \<open>tevs\<close> logs the tasks made ready and the
  calls of \<open>proc_send_signal\<close>.
\<close>

abbreviation (input) NSIG_MAX :: int where "NSIG_MAX \<equiv> 65"
abbreviation (input) NTM :: nat where "NTM \<equiv> 16"
abbreviation (input) T_EAGAIN :: int where "T_EAGAIN \<equiv> 11"
abbreviation (input) T_EFAULT :: int where "T_EFAULT \<equiv> 14"
abbreviation (input) T_EINVAL :: int where "T_EINVAL \<equiv> 22"

section \<open>Data\<close>

record ptimer =
  t_used :: bool
  t_armed :: bool
  t_clk :: int
  t_signo :: int
  t_notify :: int
  t_tid :: int
  t_val :: nat
  t_at :: nat
  t_iv :: nat
  t_over :: int

record tshared =
  handler :: "nat \<Rightarrow> nat"
  tm :: "ptimer list"

record tproc =
  alive :: bool
  pid :: int
  is_thread :: bool
  zleader :: bool
  tracer :: int
  psh :: nat
  sig_mask :: nat
  sig_pending :: nat
  alarm_at :: nat
  alarm_interval :: nat
  itv_at :: nat
  itv_iv :: nat
  itp_at :: nat
  itp_iv :: nat
  sq_sig :: int
  sq_tid :: nat
  sq_over :: int
  sq_val :: nat

datatype tm_event = Ready nat | Send_Signal nat nat

record tsys =
  procs :: "tproc option list"
  shs :: "nat \<Rightarrow> tshared"
  tm_next :: nat
  tm_any :: bool
  tcur :: nat
  tevs :: "tm_event list"

definition timer_zero :: ptimer where
  "timer_zero = \<lparr>t_used = False, t_armed = False, t_clk = 0, t_signo = 0, t_notify = 0, t_tid = 0, t_val = 0, t_at = 0, t_iv = 0, t_over = 0\<rparr>"

definition proc_of :: "nat \<Rightarrow> tsys \<Rightarrow> tproc option" where
  "proc_of i s = (case procs s ! i of Some p \<Rightarrow> if alive p then Some p else None | None \<Rightarrow> None)"

definition upd_proc :: "nat \<Rightarrow> (tproc \<Rightarrow> tproc) \<Rightarrow> tsys \<Rightarrow> tsys" where
  "upd_proc i f s = s\<lparr>procs := (procs s)[i := map_option f (procs s ! i)]\<rparr>"

definition upd_tm :: "nat \<Rightarrow> nat \<Rightarrow> (ptimer \<Rightarrow> ptimer) \<Rightarrow> tsys \<Rightarrow> tsys" where
  "upd_tm h k f s = s\<lparr>shs := (shs s)(h := (shs s h)\<lparr>tm := (tm (shs s h))[k := f (tm (shs s h) ! k)]\<rparr>)\<rparr>"

definition tev :: "tm_event \<Rightarrow> tsys \<Rightarrow> tsys" where "tev e s = s\<lparr>tevs := tevs s @ [e]\<rparr>"

text \<open>\<open>(int32_t)(a - b) >= 0\<close>.\<close>

definition due :: "nat \<Rightarrow> nat \<Rightarrow> bool" where "due a b \<longleftrightarrow> sub32 a b < 2 ^ 31"

section \<open>Signals of timers\<close>

definition blocks :: "tproc \<Rightarrow> int \<Rightarrow> bool" where "blocks p sig = bit (sig_mask p) (nat (sig - 1))"

definition raise_to :: "nat \<Rightarrow> int \<Rightarrow> tsys \<Rightarrow> nat" where
  "raise_to i sig s =
     (case procs s ! i of None \<Rightarrow> i | Some p \<Rightarrow>
        (case find (\<lambda>j. case proc_of j s of None \<Rightarrow> False | Some q \<Rightarrow> psh q = psh p \<and> \<not> zleader q \<and> \<not> blocks q sig) [0..<length (procs s)] of
           Some j \<Rightarrow> j | None \<Rightarrow> i))"

definition raise_sig :: "nat \<Rightarrow> int \<Rightarrow> bool \<Rightarrow> tsys \<Rightarrow> tsys" where
  "raise_sig i sig exact s =
     (case proc_of i s of
        None \<Rightarrow> s
      | Some p \<Rightarrow>
          if sig \<le> 0 \<or> NSIG_MAX \<le> sig then s
          else if handler (shs s (psh p)) (nat sig) = 1 \<and> tracer p = 0 then s
          else
            (let j = (if \<not> exact \<and> blocks p sig then raise_to i sig s else i)
             in tev (Ready j) (upd_proc j (\<lambda>q. q\<lparr>sig_pending := set_bit (nat (sig - 1)) (sig_pending q)\<rparr>) s)))"

definition by_pid :: "int \<Rightarrow> tsys \<Rightarrow> nat option" where
  "by_pid x s = find (\<lambda>j. case procs s ! j of None \<Rightarrow> False | Some q \<Rightarrow> pid q = x) [0..<length (procs s)]"

definition fire_to :: "nat \<Rightarrow> ptimer \<Rightarrow> tsys \<Rightarrow> nat option" where
  "fire_to l t s =
     (if t_notify t = 4 then
        (case by_pid (t_tid t) s of
           None \<Rightarrow> None
         | Some j \<Rightarrow> (case (procs s ! j, procs s ! l) of
                        (Some q, Some p) \<Rightarrow> if psh q = psh p then Some j else None
                      | _ \<Rightarrow> None))
      else Some l)"

definition fire :: "nat \<Rightarrow> ptimer \<Rightarrow> nat \<Rightarrow> tsys \<Rightarrow> tsys" where
  "fire l t k s =
     (if t_notify t = 1 then s
      else (case fire_to l t s of
              None \<Rightarrow> s
            | Some j \<Rightarrow>
                raise_sig j (t_signo t) (t_notify t = 4)
                  (upd_proc j (\<lambda>q. q\<lparr>sq_sig := t_signo t, sq_tid := k, sq_val := t_val t, sq_over := t_over t\<rparr>) s)))"

section \<open>The tick\<close>

definition proc_timer_hint :: "nat \<Rightarrow> tsys \<Rightarrow> tsys" where
  "proc_timer_hint at s = (if \<not> tm_any s \<or> \<not> due at (tm_next s) then s\<lparr>tm_next := at, tm_any := True\<rparr> else s)"

definition proc_check_alarm :: "nat \<Rightarrow> bool \<Rightarrow> nat \<Rightarrow> tsys \<Rightarrow> tsys" where
  "proc_check_alarm i from_irq up s =
     (case procs s ! i of
        None \<Rightarrow> s
      | Some p \<Rightarrow>
          if alarm_at p = 0 \<or> \<not> due up (alarm_at p) then s
          else if from_irq \<and> handler (shs s (psh p)) 14 \<le> 1 then s
          else
            (let at = (if alarm_interval p \<noteq> 0 then add32 up (alarm_interval p) else 0);
                 s1 = upd_proc i (\<lambda>p. p\<lparr>alarm_at := at\<rparr>) s;
                 s2 = (if at \<noteq> 0 then proc_timer_hint at s1 else s1)
             in tev (Send_Signal i 14) s2))"

definition expired :: "nat \<Rightarrow> ptimer \<Rightarrow> bool" where "expired now t \<longleftrightarrow> t_used t \<and> t_armed t \<and> due now (t_at t)"

definition advance :: "nat \<Rightarrow> ptimer \<Rightarrow> ptimer" where
  "advance now t =
     (if t_iv t \<noteq> 0 then
        (let over = sub32 now (t_at t) div t_iv t
         in t\<lparr>t_over := int over, t_at := add32 (t_at t) (t_iv t * (over + 1))\<rparr>)
      else t\<lparr>t_over := 0, t_armed := False\<rparr>)"

definition tick_timer :: "nat \<Rightarrow> nat \<Rightarrow> nat \<Rightarrow> tsys \<Rightarrow> tsys" where
  "tick_timer now i k s =
     (case procs s ! i of
        None \<Rightarrow> s
      | Some p \<Rightarrow>
          (let t = tm (shs s (psh p)) ! k in
           if expired now t then fire i (advance now t) k (upd_tm (psh p) k (advance now) s) else s))"

definition tick_proc :: "nat \<Rightarrow> nat \<Rightarrow> nat \<Rightarrow> tsys \<Rightarrow> tsys" where
  "tick_proc now up i s =
     (case proc_of i s of
        None \<Rightarrow> s
      | Some p \<Rightarrow>
          (let s1 = (if alarm_at p \<noteq> 0 \<and> due now (alarm_at p) then proc_check_alarm i True up s else s)
           in if is_thread p then s1 else fold (tick_timer now i) [0..<NTM] s1))"

definition timers_of :: "tproc \<Rightarrow> tsys \<Rightarrow> nat list" where
  "timers_of p s = map t_at (filter (\<lambda>t. t_used t \<and> t_armed t) (tm (shs s (psh p))))"

text \<open>The deadlines of a process, in the order in which the walks meet them.\<close>

definition deadlines_of :: "nat \<Rightarrow> tsys \<Rightarrow> nat list" where
  "deadlines_of i s =
     (case proc_of i s of
        None \<Rightarrow> []
      | Some p \<Rightarrow> (if alarm_at p \<noteq> 0 then [alarm_at p] else []) @ (if is_thread p then [] else timers_of p s))"

definition hint_proc :: "nat \<Rightarrow> tsys \<Rightarrow> tsys" where
  "hint_proc i s = fold proc_timer_hint (deadlines_of i s) s"

definition proc_timers_tick :: "nat \<Rightarrow> nat \<Rightarrow> tsys \<Rightarrow> tsys" where
  "proc_timers_tick now up s =
     (if \<not> tm_any s \<or> \<not> due now (tm_next s) then s
      else (let s1 = fold (tick_proc now up) [0..<length (procs s)] (s\<lparr>tm_any := False\<rparr>)
            in fold hint_proc [0..<length (procs s1)] s1))"

text \<open>\<open>(int32_t)(at - now)\<close>.\<close>

definition offset :: "nat \<Rightarrow> nat \<Rightarrow> int" where
  "offset now at = (let d = sub32 at now in if d < 2 ^ 31 then int d else int d - 2 ^ 32)"

definition proc_next_timer :: "nat \<Rightarrow> tsys \<Rightarrow> nat" where
  "proc_next_timer now s =
     nat (max 0 (fold (\<lambda>i best. fold (\<lambda>at b. if offset now at < b then offset now at else b) (deadlines_of i s) best)
       [0..<length (procs s)] 0x7fffffff))"

text \<open>The interval timers of cpu time, at every tick of the running process.\<close>

definition cpu_virtual :: "nat \<Rightarrow> tsys \<Rightarrow> tsys" where
  "cpu_virtual i s =
     (case procs s ! i of
        None \<Rightarrow> s
      | Some p \<Rightarrow>
          if itv_at p = 0 then s
          else if itv_at p = 1 then raise_sig i 26 True (upd_proc i (\<lambda>p. p\<lparr>itv_at := itv_iv p\<rparr>) s)
          else upd_proc i (\<lambda>p. p\<lparr>itv_at := itv_at p - 1\<rparr>) s)"

definition cpu_prof :: "nat \<Rightarrow> tsys \<Rightarrow> tsys" where
  "cpu_prof i s =
     (case procs s ! i of
        None \<Rightarrow> s
      | Some p \<Rightarrow>
          if itp_at p = 0 then s
          else if itp_at p = 1 then raise_sig i 27 True (upd_proc i (\<lambda>p. p\<lparr>itp_at := itp_iv p\<rparr>) s)
          else upd_proc i (\<lambda>p. p\<lparr>itp_at := itp_at p - 1\<rparr>) s)"

definition proc_cpu_timers :: "nat \<Rightarrow> bool \<Rightarrow> tsys \<Rightarrow> tsys" where
  "proc_cpu_timers i user s = cpu_prof i (if user then cpu_virtual i s else s)"

section \<open>System calls\<close>

text \<open>A time of the user is two 64-bit integers: seconds and nanoseconds.\<close>

type_synonym ts = "int \<times> int"

definition ts_ms :: "ts \<Rightarrow> nat" where
  "ts_ms t =
     (if fst t = 0 \<and> snd t = 0 then 0
      else (let ms = nat ((fst t * 1000 + (snd t + 999999) sdiv 1000000) mod 2 ^ 64)
            in if ms = 0 then 1 else min ms 0x7fffffff))"

definition ms_ts :: "nat \<Rightarrow> ts" where "ms_ts ms = (int (ms div 1000), int (ms mod 1000) * 1000000)"

definition uok :: "nat \<Rightarrow> nat \<Rightarrow> bool" where
  "uok a n \<longleftrightarrow> 0x10000 \<le> a \<and> add64 a n \<le> 0x800000000000 \<and> a \<le> add64 a n"

definition usec :: "ts \<Rightarrow> ts" where "usec t = (fst t, snd t sdiv 1000)"

definition nsec :: "ts \<Rightarrow> ts" where "nsec t = (fst t, snd t * 1000)"

text \<open>\<open>setitimer\<close>: the interval and the value, in this order; the result has the old ones.\<close>

definition itimer_get :: "int \<Rightarrow> tproc \<Rightarrow> nat \<times> nat" where
  "itimer_get which p = (if which = 0 then (alarm_at p, alarm_interval p) else if which = 1 then (itv_at p, itv_iv p) else (itp_at p, itp_iv p))"

definition itimer_set :: "int \<Rightarrow> nat \<Rightarrow> nat \<Rightarrow> tproc \<Rightarrow> tproc" where
  "itimer_set which at iv p =
     (if which = 0 then p\<lparr>alarm_at := at, alarm_interval := iv\<rparr>
      else if which = 1 then p\<lparr>itv_at := at, itv_iv := iv\<rparr> else p\<lparr>itp_at := at, itp_iv := iv\<rparr>)"

definition itimer_old :: "int \<Rightarrow> nat \<Rightarrow> tproc \<Rightarrow> ts \<times> ts" where
  "itimer_old which up p =
     (let (at, iv) = itimer_get which p;
          left = (if at \<noteq> 0 then (if which \<noteq> 0 then at else sub32 at up) else 0);
          left' = (if which = 0 \<and> at \<noteq> 0 \<and> (left = 0 \<or> 2 ^ 31 \<le> left) then 1 else left)
      in (usec (ms_ts iv), usec (ms_ts left')))"

definition itimer :: "int \<Rightarrow> (ts \<times> ts) option \<Rightarrow> bool \<Rightarrow> nat \<Rightarrow> tsys \<Rightarrow> int \<times> (ts \<times> ts) option \<times> tsys" where
  "itimer which nv want_old up s =
     (case procs s ! tcur s of
        None \<Rightarrow> (- T_EINVAL, None, s)
      | Some p \<Rightarrow>
          if which \<notin> {0, 1, 2} then (- T_EINVAL, None, s)
          else
            (let old = (if want_old then Some (itimer_old which up p) else None) in
             (case nv of
                None \<Rightarrow> (0, old, s)
              | Some (a, b) \<Rightarrow>
                  (let i = ts_ms (nsec a); v = ts_ms (nsec b);
                       at = (if v \<noteq> 0 then (if which \<noteq> 0 then v else add32 up v) else 0);
                       s1 = upd_proc (tcur s) (itimer_set which at (if v \<noteq> 0 then i else 0)) s
                   in (0, old, if v \<noteq> 0 \<and> which = 0 then proc_timer_hint at s1 else s1)))))"

definition sys_alarm :: "nat \<Rightarrow> nat \<Rightarrow> tsys \<Rightarrow> nat \<times> tsys" where
  "sys_alarm a up s =
     (case procs s ! tcur s of
        None \<Rightarrow> (0, s)
      | Some p \<Rightarrow>
          (let left = (if alarm_at p \<noteq> 0 then add32 (sub32 (alarm_at p) up) 999 div 1000 else 0);
               at = (if a \<noteq> 0 then (up + a * 1000) mod 2 ^ 32 else 0);
               s1 = upd_proc (tcur s) (\<lambda>p. p\<lparr>alarm_at := at, alarm_interval := 0\<rparr>) s
           in (left, if a \<noteq> 0 then proc_timer_hint at s1 else s1)))"

text \<open>The \<open>sigevent\<close> of \<open>timer_create\<close>: value, signal, kind of notification, thread.\<close>

type_synonym sevp = "nat \<times> int \<times> int \<times> int"

definition sevp_timer :: "int \<Rightarrow> sevp \<Rightarrow> ptimer \<Rightarrow> ptimer" where
  "sevp_timer me e t =
     (case e of (val, signo, notify, tid) \<Rightarrow>
        if notify = 2 then t\<lparr>t_val := val, t_signo := 32, t_notify := 4, t_tid := me\<rparr>
        else t\<lparr>t_val := val, t_signo := signo, t_notify := notify, t_tid := tid\<rparr>)"

definition cur_sh :: "tsys \<Rightarrow> nat" where "cur_sh s = (case procs s ! tcur s of Some p \<Rightarrow> psh p | None \<Rightarrow> 0)"

definition cur_pid :: "tsys \<Rightarrow> int" where "cur_pid s = (case procs s ! tcur s of Some p \<Rightarrow> pid p | None \<Rightarrow> 0)"

definition timer_create :: "int \<Rightarrow> nat \<Rightarrow> sevp \<Rightarrow> nat \<Rightarrow> tsys \<Rightarrow> int \<times> nat option \<times> tsys" where
  "timer_create clk b e c s =
     (if \<not> uok c 4 then (- T_EFAULT, None, s)
      else if 7 < clk \<or> clk = 2 \<or> clk = 3 then (- T_EINVAL, None, s)
      else (case first_idx (\<lambda>t. \<not> t_used t) (tm (shs s (cur_sh s))) of
              None \<Rightarrow> (- T_EAGAIN, None, s)
            | Some k \<Rightarrow>
                (let t = timer_zero\<lparr>t_clk := clk, t_signo := 14, t_val := k\<rparr>; set = (\<lambda>t. upd_tm (cur_sh s) k (\<lambda>_. t) s) in
                 if b = 0 then (0, Some k, set (t\<lparr>t_used := True\<rparr>))
                 else if \<not> uok b 64 then (- T_EFAULT, None, set t)
                 else
                   (let t1 = sevp_timer (cur_pid s) e t in
                    if t_notify t1 \<noteq> 1 \<and> (t_signo t1 \<le> 0 \<or> NSIG_MAX \<le> t_signo t1) then (- T_EINVAL, None, set t1)
                    else
                      (let t2 = (if t_notify t1 = 4 \<and> t_tid t1 = 0 then t1\<lparr>t_tid := cur_pid s\<rparr> else t1)
                       in (0, Some k, set (t2\<lparr>t_used := True\<rparr>)))))))"

definition timer_at :: "nat \<Rightarrow> tsys \<Rightarrow> ptimer option" where
  "timer_at a s = (if NTM \<le> a then None else (let t = tm (shs s (cur_sh s)) ! a in if t_used t then Some t else None))"

definition timer_left :: "nat \<Rightarrow> ptimer \<Rightarrow> nat" where
  "timer_left up t = (if t_armed t then (if 0x7fffffff < sub32 (t_at t) up then 1 else sub32 (t_at t) up) else 0)"

text \<open>\<open>wall\<close> is the answer of \<open>clock_now\<close>: seconds and nanoseconds.\<close>

definition abs_delay :: "int \<Rightarrow> ts \<Rightarrow> nat \<times> nat \<Rightarrow> nat \<Rightarrow> nat" where
  "abs_delay clk v wall up =
     (let want = nat ((fst v * 1000 + snd v sdiv 1000000) mod 2 ^ 64);
          cur = (if clk = 0 \<or> clk = 5 \<or> clk = 8 then fst wall * 1000 + snd wall div 1000000 else up)
      in if cur < want then (want - cur) mod 2 ^ 32 else 1)"

definition timer_settime ::
    "nat \<Rightarrow> nat \<Rightarrow> nat \<Rightarrow> ts \<times> ts \<Rightarrow> nat \<Rightarrow> nat \<times> nat \<Rightarrow> nat \<Rightarrow> tsys \<Rightarrow> int \<times> (ts \<times> ts) option \<times> tsys" where
  "timer_settime a flags c nv d wall up s =
     (case timer_at a s of
        None \<Rightarrow> (- T_EINVAL, None, s)
      | Some t \<Rightarrow>
          if \<not> uok c 32 \<or> (d \<noteq> 0 \<and> \<not> uok d 32) then (- T_EFAULT, None, s)
          else
            (let old = (if d \<noteq> 0 then Some (ms_ts (t_iv t), ms_ts (timer_left up t)) else None);
                 v0 = ts_ms (snd nv); i = ts_ms (fst nv);
                 v = (if v0 \<noteq> 0 \<and> bit flags 0 then abs_delay (t_clk t) (snd nv) wall up else v0);
                 s1 = upd_tm (cur_sh s) a (\<lambda>t. t\<lparr>t_armed := (v \<noteq> 0), t_at := add32 up v, t_iv := (if v \<noteq> 0 then i else 0), t_over := 0\<rparr>) s
             in (0, old, if v \<noteq> 0 then proc_timer_hint (add32 up v) s1 else s1)))"

definition timer_gettime :: "nat \<Rightarrow> nat \<Rightarrow> nat \<Rightarrow> tsys \<Rightarrow> int \<times> (ts \<times> ts) option \<times> tsys" where
  "timer_gettime a b up s =
     (case timer_at a s of
        None \<Rightarrow> (- T_EINVAL, None, s)
      | Some t \<Rightarrow> if \<not> uok b 32 then (- T_EFAULT, None, s) else (0, Some (ms_ts (t_iv t), ms_ts (timer_left up t)), s))"

definition timer_getoverrun :: "nat \<Rightarrow> tsys \<Rightarrow> int" where
  "timer_getoverrun a s = (case timer_at a s of None \<Rightarrow> - T_EINVAL | Some t \<Rightarrow> t_over t)"

definition timer_delete :: "nat \<Rightarrow> tsys \<Rightarrow> int \<times> tsys" where
  "timer_delete a s =
     (case timer_at a s of
        None \<Rightarrow> (- T_EINVAL, s)
      | Some _ \<Rightarrow> (0, upd_tm (cur_sh s) a (\<lambda>t. t\<lparr>t_used := False, t_armed := False\<rparr>) s))"

text \<open>\<open>getitimer\<close> and \<open>setitimer\<close> of the dispatcher; a null pointer asks for nothing.\<close>

definition getitimer :: "int \<Rightarrow> nat \<Rightarrow> nat \<Rightarrow> tsys \<Rightarrow> int \<times> (ts \<times> ts) option \<times> tsys" where
  "getitimer which b up s = (if \<not> uok b 32 then (- T_EFAULT, None, s) else itimer which None True up s)"

definition setitimer :: "int \<Rightarrow> nat \<Rightarrow> ts \<times> ts \<Rightarrow> nat \<Rightarrow> nat \<Rightarrow> tsys \<Rightarrow> int \<times> (ts \<times> ts) option \<times> tsys" where
  "setitimer which b nv c up s =
     (if (b \<noteq> 0 \<and> \<not> uok b 32) \<or> (c \<noteq> 0 \<and> \<not> uok c 32) then (- T_EFAULT, None, s)
      else itimer which (if b \<noteq> 0 then Some nv else None) (c \<noteq> 0) up s)"

end
