(* ===== verification/Timer_Correct.thy ===== *)
theory Timer_Correct
  imports Timer
begin

text \<open>
  What the timers promise: the tick never misses one. The earliest deadline that lets a tick return at once is not
  later than any deadline, so a tick that returns has nothing to do, and a tick that walks leaves no timer of a live
  process expired and a new earliest deadline that is right again. Deadlines are compared by their 32-bit
  differences; this is the order of time as long as they are near, which is the hypothesis of the theorem.
\<close>

section \<open>The order of deadlines\<close>

lemma sub32_int: "int (sub32 a b) = (int a - int b) mod 2 ^ 32"
proof -
  have "int (2 ^ 32 - b mod 2 ^ 32) = 2 ^ 32 - int b mod 2 ^ 32"
    by (subst of_nat_diff) (auto simp: zmod_int less_imp_le)
  then have e: "int a + int (2 ^ 32 - b mod 2 ^ 32) = int a - int b mod 2 ^ 32 + 2 ^ 32" by linarith
  have "int (sub32 a b) = (int a + int (2 ^ 32 - b mod 2 ^ 32)) mod 2 ^ 32"
    by (simp only: sub32_def of_nat_mod of_nat_add of_nat_power of_nat_numeral)
  also have "\<dots> = (int a - int b mod 2 ^ 32 + 2 ^ 32) mod 2 ^ 32" by (simp only: e)
  also have "\<dots> = (int a - int b mod 2 ^ 32) mod 2 ^ 32" by (rule mod_add_self2)
  also have "\<dots> = (int a - int b) mod 2 ^ 32" by (rule mod_diff_right_eq)
  finally show ?thesis .
qed

lemma mod_small: "- (2 ^ 31) < y \<Longrightarrow> y < 2 ^ 31 \<Longrightarrow> (y mod 2 ^ 32 < 2 ^ 31) = (0 \<le> (y::int))"
proof (cases "0 \<le> y")
  case True
  assume "y < 2 ^ 31"
  then show ?thesis using True by simp
next
  case False
  assume "- (2 ^ 31) < y"
  then have "(y + 2 ^ 32) mod 2 ^ 32 = y + 2 ^ 32" using False by (intro mod_pos_pos_trivial) simp_all
  then show ?thesis using False \<open>- (2 ^ 31) < y\<close> by simp
qed

lemma offset_cong: "offset now a mod 2 ^ 32 = (int a - int now) mod 2 ^ 32"
proof -
  have "offset now a mod 2 ^ 32 = int (sub32 a now) mod 2 ^ 32" by (simp add: offset_def Let_def)
  then show ?thesis by (simp add: sub32_int)
qed

definition near :: "nat \<Rightarrow> nat \<Rightarrow> bool" where
  "near now d \<longleftrightarrow> - (2 ^ 30) \<le> offset now d \<and> offset now d < 2 ^ 30"

lemma due_offset:
  assumes "near now a" and "near now b"
  shows "due a b = (offset now b \<le> offset now a)"
proof -
  let ?y = "offset now a - offset now b"
  have e: "int (sub32 a b) = ?y mod 2 ^ 32"
  proof -
    have "(offset now a - offset now b) mod 2 ^ 32 = ((int a - int now) - (int b - int now)) mod 2 ^ 32"
      by (rule mod_diff_cong [OF offset_cong offset_cong])
    then show ?thesis by (simp add: sub32_int)
  qed
  have "(2::int) ^ 31 = 2 * 2 ^ 30" by simp
  then have b: "- (2 ^ 31) < ?y" "?y < 2 ^ 31" using assms unfolding near_def by linarith+
  have "due a b = (int (sub32 a b) < 2 ^ 31)" by (simp add: due_def)
  then have "due a b = (0 \<le> ?y)" using mod_small [OF b] unfolding e by blast
  then show ?thesis by simp
qed

lemma offset_self [simp]: "offset now now = 0"
proof -
  have "int (sub32 now now) = 0" unfolding sub32_int by simp
  then show ?thesis by (simp add: offset_def)
qed

lemma near_self [simp]: "near now now"
  by (simp add: near_def)

lemma due_now: "near now d \<Longrightarrow> due now d = (offset now d \<le> 0)"
  using due_offset [of now now d] by simp

lemma offset_add:
  assumes "offset now a + int k < 2 ^ 31" and "- (2 ^ 31) \<le> offset now a"
  shows "offset now (add32 a k) = offset now a + int k"
proof -
  have "offset now (add32 a k) mod 2 ^ 32 = (int (add32 a k) - int now) mod 2 ^ 32" by (rule offset_cong)
  also have "\<dots> = ((int a - int now) + int k) mod 2 ^ 32"
    by (simp add: add32_def zmod_int mod_diff_left_eq algebra_simps)
  also have "\<dots> = (offset now a + int k) mod 2 ^ 32" using offset_cong [of now a] by (metis mod_add_left_eq)
  finally have e: "offset now (add32 a k) mod 2 ^ 32 = (offset now a + int k) mod 2 ^ 32" .
  have "- (2 ^ 31) \<le> offset now (add32 a k)" "offset now (add32 a k) < 2 ^ 31"
    using sub32_lt [of "add32 a k" now] by (auto simp: offset_def Let_def)
  then have "(offset now (add32 a k) + 2 ^ 31) mod 2 ^ 32 = offset now (add32 a k) + 2 ^ 31"
      "(offset now a + int k + 2 ^ 31) mod 2 ^ 32 = offset now a + int k + 2 ^ 31"
    using assms by (auto intro!: mod_pos_pos_trivial)
  then show ?thesis using mod_add_cong [OF e refl, of "2 ^ 31"] by simp
qed

text \<open>A periodic timer moves to its first period after now.\<close>

lemma advance_later:
  assumes "t_iv t < 2 ^ 30" and "near now (t_at t)" and "expired now t"
  shows "\<not> expired now (advance now t) \<and> t_iv (advance now t) = t_iv t \<and> (t_armed (advance now t) \<longrightarrow> near now (t_at (advance now t)))"
proof (cases "t_iv t = 0")
  case True
  then show ?thesis by (simp add: advance_def expired_def)
next
  case False
  let ?o = "offset now (t_at t)"
  have o: "?o \<le> 0" "- (2 ^ 30) \<le> ?o" using assms(2,3) due_now by (auto simp: expired_def near_def)
  have s: "int (sub32 now (t_at t)) = - ?o"
  proof -
    have "(- ?o) mod 2 ^ 32 = (- (int (t_at t) - int now)) mod 2 ^ 32" using offset_cong [of now "t_at t"] by (metis mod_minus_eq)
    then have "int (sub32 now (t_at t)) = (- ?o) mod 2 ^ 32" by (simp add: sub32_int)
    also have "\<dots> = - ?o" using o by (intro mod_pos_pos_trivial) auto
    finally show ?thesis .
  qed
  define x where "x = sub32 now (t_at t)"
  define k where "k = t_iv t * (x div t_iv t + 1)"
  have k: "x < k" "k \<le> x + t_iv t"
    using False mult_div_mod_eq [of "t_iv t" x] mod_less_divisor [of "t_iv t" x] unfolding k_def add_mult_distrib2 by linarith+
  have f: "offset now (add32 (t_at t) k) = ?o + int k" by (rule offset_add) (use k(2) s o assms(1) in \<open>simp_all add: x_def [symmetric]\<close>)
  then have "near now (add32 (t_at t) k)" "0 < offset now (add32 (t_at t) k)" using k s assms(1) by (auto simp: near_def x_def [symmetric])
  then show ?thesis using False due_now unfolding advance_def Let_def x_def [symmetric] k_def [symmetric] by (auto simp: expired_def)
qed

section \<open>The walk\<close>

text \<open>Every armed timer and alarm is near, and intervals are short of the same bound.\<close>

definition tm_near :: "nat \<Rightarrow> ptimer list \<Rightarrow> bool" where
  "tm_near now l \<longleftrightarrow> length l = NTM \<and> (\<forall>t\<in>set l. t_iv t < 2 ^ 30 \<and> (t_used t \<and> t_armed t \<longrightarrow> near now (t_at t)))"

definition proc_near :: "nat \<Rightarrow> tproc \<Rightarrow> bool" where
  "proc_near now p \<longleftrightarrow> alarm_interval p < 2 ^ 30 \<and> (alarm_at p \<noteq> 0 \<longrightarrow> near now (alarm_at p))"

definition all_near :: "nat \<Rightarrow> tsys \<Rightarrow> bool" where
  "all_near now s \<longleftrightarrow> (\<forall>h. tm_near now (tm (shs s h))) \<and> (\<forall>i<length (procs s). \<forall>p. procs s ! i = Some p \<longrightarrow> proc_near now p) \<and>
     (tm_any s \<longrightarrow> near now (tm_next s))"

text \<open>No timer of the process in a slot is expired.\<close>

definition settled :: "nat \<Rightarrow> nat \<Rightarrow> tsys \<Rightarrow> bool" where
  "settled now i s \<longleftrightarrow> (\<forall>p. proc_of i s = Some p \<longrightarrow> \<not> is_thread p \<longrightarrow> (\<forall>t\<in>set (tm (shs s (psh p))). \<not> expired now t))"

definition core :: "tproc \<Rightarrow> bool \<times> bool \<times> nat \<times> nat \<times> nat" where
  "core p = (alive p, is_thread p, psh p, alarm_at p, alarm_interval p)"

definition same_core :: "tsys \<Rightarrow> tsys \<Rightarrow> bool" where
  "same_core s s' \<longleftrightarrow> length (procs s') = length (procs s) \<and> shs s' = shs s \<and> tm_next s' = tm_next s \<and> tm_any s' = tm_any s \<and>
     (\<forall>i<length (procs s). map_option core (procs s' ! i) = map_option core (procs s ! i))"

lemma same_core_refl [simp]: "same_core s s"
  by (simp add: same_core_def)

lemma same_core_trans: "same_core a b \<Longrightarrow> same_core b c \<Longrightarrow> same_core a c"
  by (simp add: same_core_def)

lemma upd_core: "(\<And>p. core (f p) = core p) \<Longrightarrow> same_core s (upd_proc i f s)"
proof -
  assume a: "\<And>p. core (f p) = core p"
  have "map_option core ((procs s)[i := map_option f (procs s ! i)] ! j) = map_option core (procs s ! j)" if "j < length (procs s)" for j
    using a that by (cases "i = j") (auto simp: option.map_comp o_def)
  then show ?thesis by (simp add: same_core_def upd_proc_def)
qed

lemma tev_core [simp]: "same_core s (tev e s)"
  by (simp add: same_core_def tev_def)

lemma raise_sig_core: "same_core s (raise_sig i sig exact s)"
proof -
  have "same_core s (tev (Ready j) (upd_proc j (\<lambda>q. q\<lparr>sig_pending := set_bit (nat (sig - 1)) (sig_pending q)\<rparr>) s))" for j
    by (rule same_core_trans [OF upd_core tev_core]) (simp add: core_def)
  then show ?thesis by (auto simp: raise_sig_def Let_def split: option.splits)
qed

lemma fire_core: "same_core s (fire l t k s)"
proof -
  have "same_core s (raise_sig j sig e (upd_proc j (\<lambda>q. q\<lparr>sq_sig := a, sq_tid := b, sq_val := c, sq_over := d\<rparr>) s))" for j sig e a b c d
    by (rule same_core_trans [OF upd_core raise_sig_core]) (simp add: core_def)
  then show ?thesis by (auto simp: fire_def split: option.splits)
qed

lemma proc_cases:
  assumes "same_core s s'" and "i < length (procs s)" and "procs s' ! i = Some p'"
  obtains p where "procs s ! i = Some p" "alive p' = alive p" "is_thread p' = is_thread p" "psh p' = psh p"
    "alarm_at p' = alarm_at p" "alarm_interval p' = alarm_interval p"
proof -
  have "map_option core (procs s ! i) = Some (core p')" using assms by (metis same_core_def option.map(2))
  then obtain p where "procs s ! i = Some p" "core p = core p'" by auto
  then show ?thesis using that by (simp add: core_def)
qed

lemma core_near:
  assumes "same_core s s'" and "all_near now s"
  shows "all_near now s'"
proof -
  have e: "length (procs s') = length (procs s)" "shs s' = shs s" "tm_next s' = tm_next s" "tm_any s' = tm_any s"
    using assms(1) by (auto simp: same_core_def)
  have "proc_near now p'" if "i < length (procs s)" "procs s' ! i = Some p'" for i p'
    by (rule proc_cases [OF assms(1) that]) (use assms(2) that(1) in \<open>simp add: all_near_def proc_near_def\<close>)
  then show ?thesis using assms(2) by (simp add: all_near_def e)
qed

lemma core_settled:
  assumes "same_core s s'" and "settled now i s" and "i < length (procs s)"
  shows "settled now i s'"
  unfolding settled_def
proof (intro allI impI)
  fix p' assume p: "proc_of i s' = Some p'" "\<not> is_thread p'"
  then have "procs s' ! i = Some p'" "alive p'" by (auto simp: proc_of_def split: option.splits if_splits)
  then obtain p0 where "procs s ! i = Some p0" "alive p0" "\<not> is_thread p0" "psh p' = psh p0" using proc_cases [OF assms(1,3)] p(2) by metis
  moreover have "shs s' = shs s" using assms(1) by (simp add: same_core_def)
  ultimately show "\<forall>t\<in>set (tm (shs s' (psh p'))). \<not> expired now t" using assms(2) by (simp add: settled_def proc_of_def)
qed

text \<open>What every step of the walk does: deadlines stay near, slots keep their processes, no timer becomes expired.\<close>

definition moves :: "nat \<Rightarrow> tsys \<Rightarrow> tsys \<Rightarrow> bool" where
  "moves now s s' \<longleftrightarrow> all_near now s' \<and> length (procs s') = length (procs s) \<and>
     (\<forall>i<length (procs s). map_option (\<lambda>p. (alive p, is_thread p, psh p)) (procs s' ! i) = map_option (\<lambda>p. (alive p, is_thread p, psh p)) (procs s ! i)) \<and>
     (\<forall>h k. k < NTM \<longrightarrow> \<not> expired now (tm (shs s h) ! k) \<longrightarrow> \<not> expired now (tm (shs s' h) ! k))"

lemma moves_refl: "all_near now s \<Longrightarrow> moves now s s"
  by (simp add: moves_def)

lemma moves_trans: "moves now a b \<Longrightarrow> moves now b c \<Longrightarrow> moves now a c"
  by (simp add: moves_def)

lemma core_moves:
  assumes "same_core s s'" and "all_near now s"
  shows "moves now s s'"
proof -
  have "map_option (\<lambda>p. (alive p, is_thread p, psh p)) (procs s' ! i) = map_option (\<lambda>p. (alive p, is_thread p, psh p)) (procs s ! i)"
    if "i < length (procs s)" for i
  proof -
    have "map_option core (procs s' ! i) = map_option core (procs s ! i)" using assms(1) that by (simp add: same_core_def)
    then show ?thesis by (cases "procs s' ! i"; cases "procs s ! i") (auto simp: core_def)
  qed
  then show ?thesis using core_near [OF assms] assms(1) by (simp add: moves_def same_core_def)
qed

lemma moves_proc:
  assumes "moves now s s'" and "i < length (procs s)" and "procs s' ! i = Some p'"
  obtains p where "procs s ! i = Some p" "alive p' = alive p" "is_thread p' = is_thread p" "psh p' = psh p"
proof -
  have "map_option (\<lambda>p. (alive p, is_thread p, psh p)) (procs s ! i) = Some (alive p', is_thread p', psh p')"
    using assms by (metis (no_types, lifting) moves_def option.map(2))
  then show ?thesis using that by auto
qed

lemma settled_iff:
  assumes "all_near now s"
  shows "settled now i s = (\<forall>p. proc_of i s = Some p \<longrightarrow> \<not> is_thread p \<longrightarrow> (\<forall>k<NTM. \<not> expired now (tm (shs s (psh p)) ! k)))"
proof -
  have "length (tm (shs s h)) = NTM" for h using assms by (simp add: all_near_def tm_near_def)
  then show ?thesis by (auto simp: settled_def all_set_conv_all_nth)
qed

lemma moves_settled:
  assumes "moves now s s'" and "all_near now s" and "settled now i s" and "i < length (procs s)"
  shows "settled now i s'"
proof -
  have n: "all_near now s'" using assms(1) by (simp add: moves_def)
  have "\<not> expired now (tm (shs s' (psh p')) ! k)" if p: "proc_of i s' = Some p'" "\<not> is_thread p'" "k < NTM" for p' k
  proof -
    have "procs s' ! i = Some p'" "alive p'" using p(1) by (auto simp: proc_of_def split: option.splits if_splits)
    then obtain p where "procs s ! i = Some p" "alive p" "\<not> is_thread p" "psh p' = psh p" using moves_proc [OF assms(1,4)] p(2) by metis
    then have "\<not> expired now (tm (shs s (psh p')) ! k)" using assms(3) p(3) unfolding settled_iff [OF assms(2)] by (simp add: proc_of_def)
    then show ?thesis using assms(1) p(3) by (simp add: moves_def)
  qed
  then show ?thesis unfolding settled_iff [OF n] by blast
qed

lemma advance_tm_near:
  assumes "tm_near now l" and "k < NTM" and "expired now (l ! k)"
  shows "tm_near now (l[k := advance now (l ! k)]) \<and> \<not> expired now (advance now (l ! k))"
proof -
  have m: "l ! k \<in> set l" "length l = NTM" using assms(1,2) by (auto simp: tm_near_def)
  have "t_iv (l ! k) < 2 ^ 30" "near now (t_at (l ! k))" using assms(1,3) m by (auto simp: tm_near_def expired_def)
  note a = advance_later [OF this assms(3)]
  then have "\<forall>t\<in>set (l[k := advance now (l ! k)]). t_iv t < 2 ^ 30 \<and> (t_used t \<and> t_armed t \<longrightarrow> near now (t_at t))"
    using assms(1) m set_update_subset_insert [of l k "advance now (l ! k)"] by (fastforce simp: tm_near_def)
  then show ?thesis using a m by (simp add: tm_near_def)
qed

lemma tick_timer_moves:
  assumes "all_near now s" and "k < NTM" and "procs s ! i = Some p"
  shows "moves now s (tick_timer now i k s) \<and> \<not> expired now (tm (shs (tick_timer now i k s) (psh p)) ! k)"
proof (cases "expired now (tm (shs s (psh p)) ! k)")
  case False
  then show ?thesis using assms moves_refl by (simp add: tick_timer_def Let_def)
next
  case True
  let ?l = "tm (shs s (psh p))"
  let ?s = "upd_tm (psh p) k (advance now) s"
  have n: "tm_near now ?l" "length ?l = NTM" using assms(1) by (auto simp: all_near_def tm_near_def)
  note a = advance_tm_near [OF n(1) assms(2) True]
  have t: "tm (shs ?s h) = (if h = psh p then ?l[k := advance now (?l ! k)] else tm (shs s h))" for h by (simp add: upd_tm_def)
  have "all_near now ?s" using assms(1) a unfolding all_near_def t by (simp add: upd_tm_def)
  moreover have "\<not> expired now (tm (shs ?s h) ! j)" if "j < NTM" "\<not> expired now (tm (shs s h) ! j)" for h j
    using that a n(2) by (cases "j = k") (auto simp: t)
  ultimately have m: "moves now s ?s" by (simp add: moves_def) (simp add: upd_tm_def)
  then have "all_near now ?s" by (simp add: moves_def)
  then have f: "moves now ?s (fire i (advance now (?l ! k)) k ?s)" by (rule core_moves [OF fire_core])
  have e: "tick_timer now i k s = fire i (advance now (?l ! k)) k ?s" using True assms(3) by (simp add: tick_timer_def Let_def)
  have "\<not> expired now (tm (shs ?s (psh p)) ! k)" using a n(2) assms(2) by (simp add: t)
  then show ?thesis unfolding e using moves_trans [OF m f] f assms(2) by (simp add: moves_def)
qed

lemma tick_timers_moves:
  assumes "all_near now s" and "i < length (procs s)" and "procs s ! i = Some p" and "m \<le> NTM"
  shows "moves now s (fold (tick_timer now i) [0..<m] s) \<and> (\<forall>k<m. \<not> expired now (tm (shs (fold (tick_timer now i) [0..<m] s) (psh p)) ! k))"
  using assms(4)
proof (induction m)
  case 0
  then show ?case using moves_refl [OF assms(1)] by simp
next
  case (Suc m)
  let ?s = "fold (tick_timer now i) [0..<m] s"
  have ih: "moves now s ?s" "\<forall>k<m. \<not> expired now (tm (shs ?s (psh p)) ! k)" using Suc by auto
  then have n: "all_near now ?s" by (simp add: moves_def)
  have "map_option (\<lambda>p. (alive p, is_thread p, psh p)) (procs ?s ! i) = Some (alive p, is_thread p, psh p)"
    using ih(1) assms(2,3) by (simp add: moves_def)
  then obtain q where q: "procs ?s ! i = Some q" "psh q = psh p" by auto
  have k: "m < NTM" using Suc.prems by simp
  note t = tick_timer_moves [OF n k q(1)]
  have "\<not> expired now (tm (shs (tick_timer now i m ?s) (psh p)) ! j)" if "j < Suc m" for j
    using t ih(2) that k q(2) by (cases "j = m") (auto simp: moves_def)
  then show ?case using moves_trans [OF ih(1)] t by simp
qed

lemma hint_moves:
  assumes "all_near now s" and "near now d"
  shows "moves now s (proc_timer_hint d s)"
  using assms by (auto simp: moves_def all_near_def proc_timer_hint_def)

lemma near_ahead: "k < 2 ^ 30 \<Longrightarrow> near now (add32 now k)"
  using offset_add [of now now k] by (simp add: near_def)

lemma alarm_moves:
  assumes "all_near now s" and "i < length (procs s)"
  shows "moves now s (proc_check_alarm i irq now s)"
proof (cases "procs s ! i")
  case None
  then show ?thesis using moves_refl [OF assms(1)] by (simp add: proc_check_alarm_def)
next
  case (Some p)
  define at where "at = (if alarm_interval p \<noteq> 0 then add32 now (alarm_interval p) else 0)"
  let ?s = "upd_proc i (\<lambda>p. p\<lparr>alarm_at := at\<rparr>) s"
  have iv: "alarm_interval p < 2 ^ 30" using assms Some by (auto simp: all_near_def proc_near_def)
  have n: "at \<noteq> 0 \<Longrightarrow> near now at" using near_ahead [OF iv] by (simp add: at_def split: if_splits)
  have g: "procs ?s ! j = (if j = i then Some (p\<lparr>alarm_at := at\<rparr>) else procs s ! j)" if "j < length (procs s)" for j
    using that Some by (simp add: upd_proc_def)
  have "proc_near now q" if "j < length (procs s)" "procs ?s ! j = Some q" for j q
    using that(2) assms(1) that(1) iv n unfolding g [OF that(1)] by (auto simp: all_near_def proc_near_def split: if_splits)
  then have "all_near now ?s" using assms(1) by (simp add: all_near_def) (simp add: upd_proc_def)
  moreover have "length (procs ?s) = length (procs s)" "shs ?s = shs s" by (simp_all add: upd_proc_def)
  ultimately have m: "moves now s ?s" using Some by (simp add: moves_def g)
  have h: "moves now s (proc_timer_hint at ?s)" if "at \<noteq> 0"
    using moves_trans [OF m hint_moves] m n that by (simp add: moves_def)
  have t: "moves now s (tev e r)" if "moves now s r" for e r
    using moves_trans [OF that core_moves [OF tev_core]] that by (simp add: moves_def)
  show ?thesis using Some moves_refl [OF assms(1)] t [OF m] t [OF h] unfolding at_def by (auto simp: proc_check_alarm_def Let_def)
qed

lemma tick_proc_moves:
  assumes "all_near now s" and "i < length (procs s)"
  shows "moves now s (tick_proc now now i s) \<and> settled now i (tick_proc now now i s)"
proof (cases "proc_of i s")
  case None
  then show ?thesis using moves_refl [OF assms(1)] by (simp add: tick_proc_def settled_def)
next
  case (Some p)
  have p: "procs s ! i = Some p" using Some by (auto simp: proc_of_def split: option.splits if_splits)
  let ?s = "if alarm_at p \<noteq> 0 \<and> due now (alarm_at p) then proc_check_alarm i True now s else s"
  have m: "moves now s ?s" using alarm_moves [OF assms] moves_refl [OF assms(1)] by simp
  then have n: "all_near now ?s" "i < length (procs ?s)" using assms(2) by (auto simp: moves_def)
  have "map_option (\<lambda>p. (alive p, is_thread p, psh p)) (procs ?s ! i) = Some (alive p, is_thread p, psh p)"
    using m assms(2) p by (simp add: moves_def)
  then obtain q where q: "procs ?s ! i = Some q" "is_thread q = is_thread p" by auto
  have e: "tick_proc now now i s = (if is_thread p then ?s else fold (tick_timer now i) [0..<NTM] ?s)"
    using Some by (simp add: tick_proc_def Let_def)
  show ?thesis
  proof (cases "is_thread p")
    case True
    then have "settled now i ?s" using q by (auto simp: settled_def proc_of_def split: if_splits)
    then show ?thesis using m True by (simp add: e)
  next
    case False
    let ?r = "fold (tick_timer now i) [0..<NTM] ?s"
    have t: "moves now ?s ?r" "\<forall>k<NTM. \<not> expired now (tm (shs ?r (psh q)) ! k)" using tick_timers_moves [OF n q(1), of NTM] by blast+
    then have r: "all_near now ?r" by (simp add: moves_def)
    have "settled now i ?r" unfolding settled_iff [OF r]
    proof (intro allI impI)
      fix q' k assume "proc_of i ?r = Some q'" "k < NTM"
      then have "procs ?r ! i = Some q'" by (auto simp: proc_of_def split: option.splits if_splits)
      then have "psh q' = psh q" using moves_proc [OF t(1) n(2)] q(1) by (metis option.inject)
      then show "\<not> expired now (tm (shs ?r (psh q')) ! k)" using t(2) \<open>k < NTM\<close> by simp
    qed
    then show ?thesis using moves_trans [OF m t(1)] False by (simp add: e)
  qed
qed

lemma walk_moves:
  assumes "all_near now s" and "n \<le> length (procs s)"
  shows "moves now s (fold (tick_proc now now) [0..<n] s) \<and> (\<forall>j<n. settled now j (fold (tick_proc now now) [0..<n] s))"
  using assms(2)
proof (induction n)
  case 0
  then show ?case using moves_refl [OF assms(1)] by simp
next
  case (Suc n)
  let ?s = "fold (tick_proc now now) [0..<n] s"
  have ih: "moves now s ?s" "\<forall>j<n. settled now j ?s" using Suc by auto
  then have a: "all_near now ?s" "length (procs ?s) = length (procs s)" by (auto simp: moves_def)
  have l: "n < length (procs ?s)" using Suc.prems a(2) by simp
  note t = tick_proc_moves [OF a(1) l]
  have "settled now j (tick_proc now now n ?s)" if "j < Suc n" for j
    using t moves_settled [of now ?s "tick_proc now now n ?s" j] a(1) ih(2) that l by (cases "j = n") auto
  then show ?case using moves_trans [OF ih(1)] t by simp
qed

section \<open>The earliest deadline\<close>

definition deadlines :: "tsys \<Rightarrow> nat list" where
  "deadlines s = concat (map (\<lambda>i. deadlines_of i s) [0..<length (procs s)])"

definition hint_ok :: "nat \<Rightarrow> tsys \<Rightarrow> bool" where
  "hint_ok now s \<longleftrightarrow> (\<forall>d\<in>set (deadlines s). tm_any s \<and> offset now (tm_next s) \<le> offset now d)"

definition hinted :: "nat \<Rightarrow> nat set \<Rightarrow> tsys \<Rightarrow> bool" where
  "hinted now D s \<longleftrightarrow> (\<forall>d\<in>D. tm_any s \<and> offset now (tm_next s) \<le> offset now d) \<and> (tm_any s \<longrightarrow> near now (tm_next s))"

lemma hint_keeps [simp]: "procs (proc_timer_hint d s) = procs s" "shs (proc_timer_hint d s) = shs s"
  by (simp_all add: proc_timer_hint_def)

lemma hints_keep [simp]: "procs (fold proc_timer_hint ds s) = procs s" "shs (fold proc_timer_hint ds s) = shs s"
  by (induction ds arbitrary: s) simp_all

lemma hint_one: "near now d \<Longrightarrow> hinted now D s \<Longrightarrow> hinted now (insert d D) (proc_timer_hint d s)"
  using due_offset [of now d "tm_next s"] by (fastforce simp: hinted_def proc_timer_hint_def)

lemma hint_many: "\<forall>d\<in>set ds. near now d \<Longrightarrow> hinted now D s \<Longrightarrow> hinted now (set ds \<union> D) (fold proc_timer_hint ds s)"
proof (induction ds arbitrary: s D)
  case (Cons d ds)
  have "hinted now (insert d D) (proc_timer_hint d s)" using Cons.prems by (intro hint_one) simp_all
  then have "hinted now (set ds \<union> insert d D) (fold proc_timer_hint ds (proc_timer_hint d s))"
    using Cons.prems(1) by (intro Cons.IH) simp_all
  then show ?case by simp
qed simp

lemma deadlines_of_cong: "procs s' = procs s \<Longrightarrow> shs s' = shs s \<Longrightarrow> deadlines_of i s' = deadlines_of i s"
  by (auto simp: deadlines_of_def proc_of_def timers_of_def split: option.split)

lemma deadline_near: "all_near now s \<Longrightarrow> i < length (procs s) \<Longrightarrow> d \<in> set (deadlines_of i s) \<Longrightarrow> near now d"
  by (auto simp: deadlines_of_def proc_of_def timers_of_def all_near_def proc_near_def tm_near_def split: option.splits if_splits)

lemma hint_procs:
  assumes "all_near now s" and "\<forall>i\<in>set is. i < length (procs s)" and "hinted now D s"
  shows "procs (fold hint_proc is s) = procs s \<and> shs (fold hint_proc is s) = shs s \<and>
     hinted now ((\<Union>i\<in>set is. set (deadlines_of i s)) \<union> D) (fold hint_proc is s)"
  using assms
proof (induction "is" arbitrary: s D)
  case (Cons i "is")
  let ?s = "hint_proc i s"
  have k: "procs ?s = procs s" "shs ?s = shs s" by (simp_all add: hint_proc_def)
  have h: "hinted now (set (deadlines_of i s) \<union> D) ?s"
    unfolding hint_proc_def using Cons.prems deadline_near by (intro hint_many) auto
  then have a: "all_near now ?s" using Cons.prems(1) by (simp add: all_near_def k hinted_def)
  have "procs (fold hint_proc is ?s) = procs ?s \<and> shs (fold hint_proc is ?s) = shs ?s \<and>
     hinted now ((\<Union>i\<in>set is. set (deadlines_of i ?s)) \<union> (set (deadlines_of i s) \<union> D)) (fold hint_proc is ?s)"
    using Cons.prems(2) by (intro Cons.IH [OF a _ h]) (simp add: k)
  then show ?case by (simp add: k deadlines_of_cong [OF k] Un_ac)
qed simp

lemma hint_settled:
  assumes "procs s' = procs s" and "shs s' = shs s"
  shows "settled now i s' = settled now i s"
  using assms by (simp add: settled_def proc_of_def)

text \<open>A tick that may return at once has nothing to do.\<close>

lemma early_settled:
  assumes "hint_ok now s" and "all_near now s" and "\<not> tm_any s \<or> \<not> due now (tm_next s)" and "i < length (procs s)"
  shows "settled now i s"
  unfolding settled_def
proof (intro allI impI ballI)
  fix p t assume p: "proc_of i s = Some p" "\<not> is_thread p" "t \<in> set (tm (shs s (psh p)))"
  show "\<not> expired now t"
  proof
    assume x: "expired now t"
    have "t_at t \<in> set (deadlines_of i s)" using p x by (auto simp: deadlines_of_def timers_of_def expired_def)
    then have "tm_any s" "offset now (tm_next s) \<le> offset now (t_at t)" using assms(1,4) by (auto simp: hint_ok_def deadlines_def)
    moreover have "near now (t_at t)" "near now (tm_next s)" using assms(2) p(3) x calculation(1) by (auto simp: all_near_def tm_near_def expired_def)
    ultimately show False using assms(3) x due_now [of now "t_at t"] due_now [of now "tm_next s"] by (simp add: expired_def)
  qed
qed

text \<open>C12: with deadlines near the present and an earliest deadline that is not later than any of them, the tick leaves no
  expired timer of a live process armed, and the earliest deadline it keeps is again not later than any deadline;
  this holds for the tick that returns at once as for the tick that walks.
\<close>

theorem timers_tick_misses_none:
  assumes "all_near now s" and "hint_ok now s"
  shows "all_near now (proc_timers_tick now now s) \<and> hint_ok now (proc_timers_tick now now s) \<and>
     list_all (\<lambda>i. settled now i (proc_timers_tick now now s)) [0..<length (procs s)]"
proof (cases "\<not> tm_any s \<or> \<not> due now (tm_next s)")
  case True
  then have e: "proc_timers_tick now now s = s" unfolding proc_timers_tick_def by (rule if_P)
  show ?thesis unfolding e using assms early_settled [OF assms(2,1) True] by (simp add: list_all_iff)
next
  case False
  let ?s0 = "s\<lparr>tm_any := False\<rparr>"
  let ?s1 = "fold (tick_proc now now) [0..<length (procs s)] ?s0"
  let ?s2 = "fold hint_proc [0..<length (procs ?s1)] ?s1"
  have e: "proc_timers_tick now now s = ?s2" unfolding proc_timers_tick_def if_not_P [OF False] Let_def by (rule refl)
  have n0: "all_near now ?s0" using assms(1) by (simp add: all_near_def)
  have w: "moves now ?s0 ?s1" "\<forall>j<length (procs s). settled now j ?s1" using walk_moves [OF n0, of "length (procs s)"] by simp_all
  then have n1: "all_near now ?s1" "length (procs ?s1) = length (procs s)" by (auto simp: moves_def)
  have "hinted now {} ?s1" using n1(1) by (simp add: hinted_def all_near_def)
  then have h: "procs ?s2 = procs ?s1" "shs ?s2 = shs ?s1" "hinted now (\<Union>i<length (procs ?s1). set (deadlines_of i ?s1)) ?s2"
    using hint_procs [OF n1(1), of "[0..<length (procs ?s1)]" "{}"] by (simp_all add: atLeast0LessThan)
  have "all_near now ?s2" using n1(1) h by (simp add: all_near_def hinted_def)
  moreover have "hint_ok now ?s2" using h(3) unfolding hint_ok_def deadlines_def h(1) deadlines_of_cong [OF h(1,2)]
    by (auto simp: hinted_def)
  ultimately show ?thesis unfolding e using w(2) hint_settled [OF h(1,2)] by (simp add: list_all_iff)
qed

text \<open>A process with a timer of 10 ms that is 25 ms late and one of the future.\<close>

definition demo_tproc :: tproc where
  "demo_tproc = \<lparr>alive = True, pid = 5, is_thread = False, zleader = False, tracer = 0, psh = 0, sig_mask = 0, sig_pending = 0,
     alarm_at = 0, alarm_interval = 0, itv_at = 0, itv_iv = 0, itp_at = 0, itp_iv = 0, sq_sig = 0, sq_tid = 0, sq_over = 0, sq_val = 0\<rparr>"

definition demo_late :: ptimer where
  "demo_late = timer_zero\<lparr>t_used := True, t_armed := True, t_signo := 14, t_at := 975, t_iv := 10\<rparr>"

definition demo_tsys :: tsys where
  "demo_tsys = \<lparr>procs = [Some demo_tproc], shs = (\<lambda>_. \<lparr>handler = (\<lambda>_. 4096), tm = demo_late # replicate 15 timer_zero\<rparr>),
     tm_next = 975, tm_any = True, tcur = 0, tevs = []\<rparr>"

lemma demo_near: "near 1000 975"
  by (simp add: near_def offset_def sub32_def)

theorem timers_tick_misses_none_witness:
  "all_near 1000 demo_tsys \<and> hint_ok 1000 demo_tsys \<and> settled 1000 0 (proc_timers_tick 1000 1000 demo_tsys) \<and>
   hint_ok 1000 (proc_timers_tick 1000 1000 demo_tsys) \<and> t_at (advance 1000 demo_late) = 1005"
proof -
  have n: "all_near 1000 demo_tsys"
    by (auto simp: all_near_def demo_tsys_def demo_late_def demo_tproc_def timer_zero_def tm_near_def proc_near_def demo_near)
  have h: "hint_ok 1000 demo_tsys"
    by (simp add: hint_ok_def deadlines_def deadlines_of_def proc_of_def timers_of_def demo_tsys_def demo_late_def demo_tproc_def timer_zero_def)
  have "t_at (advance 1000 demo_late) = 1005" by (simp add: advance_def demo_late_def timer_zero_def sub32_def add32_def)
  then show ?thesis using timers_tick_misses_none [OF n h] n h by (simp add: demo_tsys_def)
qed

end
