(* ===== verification/NodeData.thy ===== *)
theory NodeData
  imports Mount Inotify KString
begin

text \<open>
  The contents of files in memory, from \<open>src/src/proc/file.c\<close>: room for a write (\<open>node_reserve\<close>), writing at an
  offset, truncating, and the read and write of an open file on a node. A buffer is the list of the bytes of the
  file; \<open>ncap\<close> is its size in memory, 0 for borrowed bytes. \<open>None\<close> is an access outside the buffer or a loop that
  does not end. Parameters: the allocator answers \<open>kg\<close> (\<open>kgrow\<close>) and \<open>km\<close> (\<open>kmalloc_big\<close>) to each attempt, \<open>rm\<close> is
  what happens to the tree while \<open>fs_wait_room\<close> waits, \<open>junk\<close> is what fresh memory holds, \<open>pcs\<close> what the page cache
  writes back (\<open>pc_sync\<close>).
\<close>

type_synonym attempts = "nat \<Rightarrow> bool"
type_synonym waits = "nat \<Rightarrow> fs \<Rightarrow> fs"

abbreviation (input) N_EISDIR :: int where "N_EISDIR \<equiv> 21"
abbreviation (input) N_ENOMEM :: int where "N_ENOMEM \<equiv> 12"

section \<open>Room\<close>

partial_function (option) grow_cap :: "nat \<Rightarrow> nat \<Rightarrow> nat option" where
  "grow_cap need cap =
     (if cap < need then grow_cap need (if cap < 2 ^ 20 then (cap * 2) mod 2 ^ 32 else add32 cap (cap div 4)) else Some cap)"

text \<open>Four attempts: the block grows in place, or there is a new one; before each of the last three \<open>fs_wait_room\<close> waits.\<close>

datatype room = Grown | Fresh | No_Room

fun find_room :: "attempts \<Rightarrow> attempts \<Rightarrow> waits \<Rightarrow> nat \<Rightarrow> nat \<Rightarrow> nat \<Rightarrow> fs \<Rightarrow> room \<times> fs" where
  "find_room kg km rm n t 0 st = (No_Room, st)"
| "find_room kg km rm n t (Suc k) st =
     (let st1 = (if t = 0 then st else rm t st); x = nodes st1 n in
      if ndata x \<noteq> None \<and> ncap x \<noteq> 0 \<and> kg t then (Grown, st1)
      else if km t then (Fresh, st1)
      else find_room kg km rm n (Suc t) k st1)"

definition node_bytes :: "(nat \<Rightarrow> char) \<Rightarrow> fs_node \<Rightarrow> string" where
  "node_bytes junk x = (case ndata x of Some b \<Rightarrow> take (nsize x) b | None \<Rightarrow> map junk [0..<nsize x])"

text \<open>The move into a new block of \<open>cap\<close> bytes.\<close>

definition move_data :: "(nat \<Rightarrow> char) \<Rightarrow> nat \<Rightarrow> nat \<Rightarrow> fs \<Rightarrow> fs option" where
  "move_data junk n cap st =
     (let x = nodes st n in
      if ndata x \<noteq> None \<and> cap < nsize x then None
      else Some (upd n (\<lambda>y. y\<lparr>ndata := Some (node_bytes junk x), nsize := nsize x mod 2 ^ 32, ncap := cap\<rparr>) (fs_data_free n st)))"

definition node_reserve :: "attempts \<Rightarrow> attempts \<Rightarrow> waits \<Rightarrow> (nat \<Rightarrow> char) \<Rightarrow> nat \<Rightarrow> nat \<Rightarrow> fs \<Rightarrow> (int \<times> fs) option" where
  "node_reserve kg km rm junk n need st =
     (let x = nodes st n; need1 = add32 need 1 in
      if need1 \<le> ncap x then Some (0, st)
      else
        (let c0 = (if ncap x \<noteq> 0 then ncap x mod 2 ^ 32 else 64);
             c1 = (if c0 < add64 (nsize x) 1 then add64 (nsize x) 1 mod 2 ^ 32 else c0)
         in do {
           cap \<leftarrow> grow_cap need1 c1;
           (case find_room kg km rm n 0 4 st of
              (Grown, st1) \<Rightarrow> Some (0, upd n (\<lambda>x. x\<lparr>ncap := cap\<rparr>) st1)
            | (Fresh, st1) \<Rightarrow> map_option (Pair 0) (move_data junk n cap st1)
            | (No_Room, st1) \<Rightarrow> Some (- N_ENOMEM, st1)) }))"

section \<open>Writing and truncating\<close>

definition sync_pc :: "(nat \<Rightarrow> fs \<Rightarrow> fs) \<Rightarrow> nat \<Rightarrow> fs \<Rightarrow> fs" where
  "sync_pc pcs n st = (if npc (nodes st n) then pcs n st else st)"

definition splice :: "nat \<Rightarrow> string \<Rightarrow> string \<Rightarrow> string" where
  "splice off buf old = take off (old @ replicate (off - length old) (CHR 0x00)) @ buf @ drop (off + length buf) old"

text \<open>The stores of \<open>node_write_at\<close> after the room is there, with the zero behind the last byte.\<close>

definition store_at :: "(nat \<Rightarrow> char) \<Rightarrow> nat \<Rightarrow> string \<Rightarrow> nat \<Rightarrow> fs_node \<Rightarrow> fs_node option" where
  "store_at junk off buf t x =
     (let stop = add32 off (length buf); size = max (nsize x) stop in
      if ndata x = None \<or> ncap x < off + length buf \<or> ncap x \<le> size then None
      else Some (x\<lparr>ndata := Some (take size (splice off buf (node_bytes junk x))), nsize := size, mtime := t\<rparr>))"

definition node_write_at ::
    "attempts \<Rightarrow> attempts \<Rightarrow> waits \<Rightarrow> (nat \<Rightarrow> char) \<Rightarrow> (nat \<Rightarrow> fs \<Rightarrow> fs) \<Rightarrow> nat \<Rightarrow> nat \<Rightarrow> string \<Rightarrow> vfs \<Rightarrow> (int \<times> vfs) option" where
  "node_write_at kg km rm junk pcs n off buf v =
     (if ntype (nodes (vf v) n) \<noteq> FS_FILE then Some (- N_EISDIR, v)
      else
        (let v0 = v\<lparr>vf := sync_pc pcs n (vf v)\<rparr>; stop = add32 off (length buf) in do {
           (g, v1) \<leftarrow> mnt_grow n stop v0;
           (if g < 0 then Some (g, v1)
            else do {
              (r, st2) \<leftarrow> node_reserve kg km rm junk n (max stop (nsize (nodes (vf v1) n)) mod 2 ^ 32) (vf v1);
              (if r < 0 then Some (- N_ENOMEM, v1\<lparr>vf := st2\<rparr>)
               else do {
                 x \<leftarrow> store_at junk off buf (now st2) (nodes st2 n);
                 st3 \<leftarrow> fs_touch (Some n) (upd n (\<lambda>_. x) st2);
                 Some (s32 (int (length buf)), v1\<lparr>vf := st3\<rparr>) }) }) }))"

text \<open>Truncating: borrowed bytes are copied first; a longer file gets zeros.\<close>

definition set_length :: "(nat \<Rightarrow> char) \<Rightarrow> nat \<Rightarrow> nat \<Rightarrow> fs_node \<Rightarrow> fs_node option" where
  "set_length junk len t x =
     (if ndata x = None \<and> len \<le> nsize x then Some (x\<lparr>nsize := len, mtime := t\<rparr>)
      else if ndata x = None \<or> ncap x \<le> len then None
      else (let old = node_bytes junk x
            in Some (x\<lparr>ndata := Some (take len (old @ replicate (len - length old) (CHR 0x00))), nsize := len, mtime := t\<rparr>)))"

definition own_bytes ::
    "attempts \<Rightarrow> attempts \<Rightarrow> waits \<Rightarrow> (nat \<Rightarrow> char) \<Rightarrow> nat \<Rightarrow> fs \<Rightarrow> (int \<times> fs) option" where
  "own_bytes kg km rm junk n st =
     (let x = nodes st n in
      if ndata x \<noteq> None \<and> ncap x = 0 then node_reserve kg km rm junk n (nsize x mod 2 ^ 32) st else Some (0, st))"

definition node_truncate ::
    "attempts \<Rightarrow> attempts \<Rightarrow> waits \<Rightarrow> (nat \<Rightarrow> char) \<Rightarrow> (nat \<Rightarrow> fs \<Rightarrow> fs) \<Rightarrow> nat \<Rightarrow> nat \<Rightarrow> vfs \<Rightarrow> (int \<times> vfs) option" where
  "node_truncate kg km rm junk pcs n len v =
     (if ntype (nodes (vf v) n) \<noteq> FS_FILE then Some (- N_EISDIR, v)
      else
        (let v0 = v\<lparr>vf := sync_pc pcs n (vf v)\<rparr> in do {
           (g, v1) \<leftarrow> mnt_grow n len v0;
           (if g < 0 then Some (g, v1)
            else do {
              (r, st2) \<leftarrow> own_bytes kg km rm junk n (vf v1);
              (if r < 0 then Some (- N_ENOMEM, v1\<lparr>vf := st2\<rparr>)
               else do {
                 (q, st3) \<leftarrow> (if nsize (nodes st2 n) < len then node_reserve kg km rm junk n len st2 else Some (0, st2));
                 (if q < 0 then Some (- N_ENOMEM, v1\<lparr>vf := st3\<rparr>)
                  else do {
                    x \<leftarrow> set_length junk len (now st3) (nodes st3 n);
                    st4 \<leftarrow> fs_touch (Some n) (upd n (\<lambda>_. x) st3);
                    Some (0, v1\<lparr>vf := st4\<rparr>) }) }) }) }))"

section \<open>An open file on a node\<close>

text \<open>
  The cases of \<open>file_read\<close> and \<open>file_write\<close> for a node, at the offset of an open file: the offset has 64 bits, the
  parameter of \<open>node_write_at\<close> has 32. The answer of \<open>shm_rw\<close> is a parameter, \<open>- 1\<close> for a file that is not shared
  memory; \<open>pcr\<close> is what the page cache writes back (\<open>pc_sync_range\<close>); \<open>sealed\<close> is the test for the seals of a
  \<open>memfd\<close>. The watchers of the node hear of it.
\<close>

definition node_read ::
    "(int \<times> string) \<Rightarrow> (fs_node \<Rightarrow> fs_node) \<Rightarrow> nat \<Rightarrow> nat \<Rightarrow> nat \<Rightarrow> ino \<Rightarrow> (int \<times> string \<times> nat \<times> ino) option" where
  "node_read shm pcr nd off n s =
     (if ntype (nodes (itree s) nd) = FS_DIR then Some (- N_EISDIR, [], off, s)
      else if 0 \<le> fst shm then Some (fst shm, snd shm, add64 off (nat (fst shm)), s)
      else
        (let s1 = (if npc (nodes (itree s) nd) then s\<lparr>itree := upd nd pcr (itree s)\<rparr> else s); x = nodes (itree s1) nd in
         if nsize x \<le> off then Some (0, [], off, s1)
         else
           (let k = min ((nsize x - off) mod 2 ^ 32) n in
            (case ndata x of
               None \<Rightarrow> if k = 0 then Some (0, [], off, ino_node (Some nd) 1 s1) else None
             | Some b \<Rightarrow> Some (s32 (int k), take k (drop off b), add64 off k, ino_node (Some nd) 1 s1)))))"

definition node_write ::
    "attempts \<Rightarrow> attempts \<Rightarrow> waits \<Rightarrow> (nat \<Rightarrow> char) \<Rightarrow> (nat \<Rightarrow> fs \<Rightarrow> fs) \<Rightarrow> (nat \<Rightarrow> int) \<Rightarrow> bool \<Rightarrow> bool \<Rightarrow>
     nat \<Rightarrow> nat \<Rightarrow> string \<Rightarrow> vfs \<Rightarrow> ino \<Rightarrow> (int \<times> nat \<times> vfs \<times> ino) option" where
  "node_write kg km rm junk pcs shm sealed app n off buf v s =
     (let o1 = (if app then nsize (nodes (vf v) n) else off) in
      if sealed then Some (- 1, o1, v, s)
      else do {
        (r, v1) \<leftarrow> (if shm o1 = - 1 then node_write_at kg km rm junk pcs n (o1 mod 2 ^ 32) buf v else Some (shm o1, v));
        Some (if 0 < r then (r, add64 o1 (nat r), v1, ino_node (Some n) 2 (s\<lparr>itree := vf v1\<rparr>)) else (r, o1, v1, s)) })"

end
