(* ===== verification/NodeData_Correct.thy ===== *)
theory NodeData_Correct
  imports NodeData Mount_Correct KString_Correct Inotify_Correct
begin

text \<open>
  A write to a file in memory changes the bytes it was given and no others: whatever the allocator answers, the file
  has the old contents with the new bytes at the offset (zeros in a hole), or the write says that there is no memory
  or no room on the mount and the contents are what they were. Truncating keeps the bytes below the new length.
  What comes from outside: the tree stays well formed while a write waits for memory, and the files in \<open>K\<close>, the one
  written among them, are not dropped then (\<open>ext2\<close> drops closed files only).
\<close>

section \<open>Counting a mount ends\<close>

definition mounts_ok :: "vfs \<Rightarrow> bool" where
  "mounts_ok v \<longleftrightarrow> (\<forall>e\<in>set (tab v). mused e \<longrightarrow> (\<forall>a. mat e = Some a \<longrightarrow> live (nodes (vf v) a)))"

lemma mnt_grow_total:
  assumes "fs_wf (vf v)" "mounts_ok v" "live (nodes (vf v) n)"
  shows "\<exists>g v1. mnt_grow n len v = Some (g, v1) \<and> vf v1 = vf v \<and> g \<le> 0"
proof -
  obtain r where r: "tree_ok (vf v)" "ranked r (vf v)" using assms(1) by (auto simp: fs_wf_def)
  obtain m where "up (\<lambda>a. find_at a v \<noteq> None) (Some n) (vf v) = Some m" using up_ends [OF r] assms(3) by blast
  then obtain f where f: "mnt_find (Some n) v = Some f" by (auto simp: mnt_find_def)
  show ?thesis
  proof (cases f)
    case None
    then show ?thesis using f by (simp add: mnt_grow_def)
  next
    case (Some i)
    note i = mnt_find_SomeD [OF f [unfolded Some]]
    then have "live (nodes (vf v) (the (mat (tab v ! i))))" using assms(2) nth_mem [OF i(1)] unfolding mounts_ok_def by fastforce
    then obtain p where "walk (the (mat (tab v ! i))) (vf v) = Some p" using walk_ends [OF assms(1)] by blast
    then obtain v1 where "recount i v = Some v1" "vf v1 = vf v" by (cases p) (auto simp: recount_def upd_mnt_def)
    then show ?thesis using f Some by (simp add: mnt_grow_def Let_def upd_mnt_def)
  qed
qed

section \<open>Room\<close>

lemma grow_cap_ok:
  assumes "need \<le> 3 * 2 ^ 30" "0 < cap" "cap < 2 ^ 32"
  shows "\<exists>c. grow_cap need cap = Some c \<and> need \<le> c \<and> cap \<le> c \<and> c < 2 ^ 32"
  using assms(2,3)
proof (induction "need - cap" arbitrary: cap rule: less_induct)
  case less
  show ?case
  proof (cases "cap < need")
    case True
    define d where "d = (if cap < 2 ^ 20 then (cap * 2) mod 2 ^ 32 else add32 cap (cap div 4))"
    have d: "cap < d" "d < 2 ^ 32" using True less.prems assms(1) by (auto simp: d_def add32_def)
    have "need - d < need - cap" using d True by linarith
    from less.hyps [OF this] d obtain c where "grow_cap need d = Some c" "need \<le> c" "d \<le> c" "c < 2 ^ 32" by auto
    moreover have "grow_cap need cap = grow_cap need d" using True by (subst grow_cap.simps) (simp add: d_def)
    ultimately show ?thesis using d by auto
  next
    case False
    then show ?thesis using less.prems by (subst grow_cap.simps) simp
  qed
qed

definition waits_keep :: "waits \<Rightarrow> nat set \<Rightarrow> bool" where
  "waits_keep rm K \<longleftrightarrow> (\<forall>t s. fs_wf s \<longrightarrow> fs_wf (rm t s) \<and> (\<forall>m\<in>K. nodes (rm t s) m = nodes s m))"

lemma find_room_ok:
  assumes "waits_keep rm K" "n \<in> K"
  shows "fs_wf st \<Longrightarrow> find_room kg km rm n t k st = (a, st1) \<Longrightarrow>
    fs_wf st1 \<and> (\<forall>m\<in>K. nodes st1 m = nodes st m) \<and> (a = Grown \<longrightarrow> ndata (nodes st n) \<noteq> None \<and> ncap (nodes st n) \<noteq> 0) \<and>
    (a = No_Room \<longrightarrow> (\<forall>i. t \<le> i \<and> i < t + k \<longrightarrow> \<not> km i))"
proof (induction k arbitrary: t st)
  case 0
  then show ?case by auto
next
  case (Suc k)
  define st0 where "st0 = (if t = 0 then st else rm t st)"
  have s: "fs_wf st0" "\<forall>m\<in>K. nodes st0 m = nodes st m" using assms(1) Suc.prems(1) by (auto simp: st0_def waits_keep_def)
  then have n: "nodes st0 n = nodes st n" using assms(2) by blast
  have e: "find_room kg km rm n t (Suc k) st =
      (if ndata (nodes st n) \<noteq> None \<and> ncap (nodes st n) \<noteq> 0 \<and> kg t then (Grown, st0) else if km t then (Fresh, st0)
       else find_room kg km rm n (Suc t) k st0)" by (simp add: st0_def [symmetric] n Let_def)
  have le: "i = t \<or> Suc t \<le> i \<and> i < Suc t + k" if "t \<le> i \<and> i < t + Suc k" for i using that by linarith
  show ?case
  proof (cases "(ndata (nodes st n) \<noteq> None \<and> ncap (nodes st n) \<noteq> 0 \<and> kg t) \<or> km t")
    case True
    then show ?thesis using Suc.prems(2) s unfolding e by (auto split: if_splits)
  next
    case False
    then have "find_room kg km rm n (Suc t) k st0 = (a, st1)" using Suc.prems(2) unfolding e by (simp split: if_splits)
    from Suc.IH [OF s(1) this] have "fs_wf st1" "\<forall>m\<in>K. nodes st1 m = nodes st0 m"
      "a = Grown \<Longrightarrow> ndata (nodes st n) \<noteq> None \<and> ncap (nodes st n) \<noteq> 0"
      and l: "a = No_Room \<Longrightarrow> \<forall>i. Suc t \<le> i \<and> i < Suc t + k \<longrightarrow> \<not> km i" unfolding n by blast+
    moreover have "a = No_Room \<Longrightarrow> \<forall>i. t \<le> i \<and> i < t + Suc k \<longrightarrow> \<not> km i" using l le False by blast
    ultimately show ?thesis using s(2) by simp
  qed
qed

text \<open>What \<open>node_reserve\<close> leaves alone, and what it gives.\<close>

definition same_file :: "fs_node \<Rightarrow> fs_node \<Rightarrow> bool" where
  "same_file x y \<longleftrightarrow> file_bytes y = file_bytes x \<and> nsize y = nsize x \<and> ntype y = ntype x \<and> live y = live x \<and> npc y = npc x"

lemma node_bytes_ok: "buf_ok x \<Longrightarrow> node_bytes junk x = file_bytes x"
  by (auto simp: node_bytes_def file_bytes_def buf_ok_def split: option.splits)

lemma length_file_bytes: "buf_ok x \<Longrightarrow> length (file_bytes x) = nsize x"
  by (auto simp: file_bytes_def buf_ok_def split: option.splits)

lemma move_data_ok:
  assumes "fs_wf st" "buf_ok (nodes st n)" "nsize (nodes st n) < cap" "cap < 2 ^ 32"
  shows "\<exists>st'. move_data junk n cap st = Some st' \<and> fs_wf st' \<and> (\<forall>m. m \<noteq> n \<longrightarrow> nodes st' m = nodes st m) \<and>
    same_file (nodes st n) (nodes st' n) \<and> buf_ok (nodes st' n) \<and> ndata (nodes st' n) \<noteq> None \<and> ncap (nodes st' n) = cap"
proof -
  let ?x = "nodes st n"
  define f where "f = (\<lambda>y :: fs_node. y\<lparr>ndata := Some (node_bytes junk ?x), nsize := nsize ?x mod 2 ^ 32, ncap := cap\<rparr>)"
  have e: "move_data junk n cap st = Some (upd n f (fs_data_free n st))" using assms(3) by (simp add: move_data_def Let_def f_def)
  have "flat f" "flat (\<lambda>x. x\<lparr>ndata := None, ncap := 0, lazy := 0\<rparr>)" by (simp_all add: flat_def f_def)
  then have "fs_wf (upd n f (fs_data_free n st))" unfolding fs_data_free_def using assms(1) by (intro upd_wf)
  moreover have "nsize ?x mod 2 ^ 32 = nsize ?x" using assms(3,4) by simp
  moreover have "length (node_bytes junk ?x) = nsize ?x" "node_bytes junk ?x = file_bytes ?x"
    using node_bytes_ok [OF assms(2)] length_file_bytes [OF assms(2)] by simp_all
  ultimately show ?thesis using assms(3) unfolding e
    by (simp add: upd_def fs_data_free_def f_def same_file_def file_bytes_def [of "_\<lparr>ncap := _\<rparr>"] buf_ok_def [of "_\<lparr>ncap := _\<rparr>"])
qed

lemma node_reserve_ok:
  assumes wf: "fs_wf st" and w: "waits_keep rm K" "n \<in> K" and x: "buf_ok (nodes st n)" "ncap (nodes st n) < 2 ^ 32"
    and need: "nsize (nodes st n) \<le> need" "need < 3 * 2 ^ 30"
  shows "\<exists>r st'. node_reserve kg km rm junk n need st = Some (r, st') \<and> fs_wf st' \<and> (\<forall>m\<in>K - {n}. nodes st' m = nodes st m) \<and>
    same_file (nodes st n) (nodes st' n) \<and> buf_ok (nodes st' n) \<and> ncap (nodes st' n) < 2 ^ 32 \<and>
    (if r = 0 then need < ncap (nodes st' n) \<and> ndata (nodes st' n) \<noteq> None else r = - N_ENOMEM \<and> (\<forall>t<4. \<not> km t))"
proof (cases "add32 need 1 \<le> ncap (nodes st n)")
  case True
  have "add32 need 1 = need + 1" using need(2) by (intro add32_exact) simp
  then have "need < ncap (nodes st n)" using True by simp
  moreover from this have "ndata (nodes st n) \<noteq> None" using x(1) by (auto simp: buf_ok_def split: option.splits)
  moreover have "node_reserve kg km rm junk n need st = Some (0, st)" using True by (simp add: node_reserve_def Let_def)
  ultimately show ?thesis using wf x by (simp add: same_file_def)
next
  case False
  let ?x = "nodes st n"
  define c0 where "c0 = (if ncap ?x \<noteq> 0 then ncap ?x mod 2 ^ 32 else 64)"
  define c1 where "c1 = (if c0 < add64 (nsize ?x) 1 then add64 (nsize ?x) 1 mod 2 ^ 32 else c0)"
  have n1: "add32 need 1 = need + 1" "add64 (nsize ?x) 1 = nsize ?x + 1" using need by (simp_all add: add32_exact)
  have "0 < c1" "c1 < 2 ^ 32" using x(2) need n1(2) by (auto simp: c1_def c0_def)
  then obtain cap where cap: "grow_cap (add32 need 1) c1 = Some cap" "need < cap" "cap < 2 ^ 32"
    using grow_cap_ok [of "need + 1" c1] need(2) unfolding n1 by auto
  obtain a st1 where fr: "find_room kg km rm n 0 4 st = (a, st1)" by fastforce
  from find_room_ok [OF w wf fr] have s1: "fs_wf st1" "\<forall>m\<in>K. nodes st1 m = nodes st m"
    and a: "a = Grown \<Longrightarrow> ndata ?x \<noteq> None \<and> ncap ?x \<noteq> 0" "a = No_Room \<Longrightarrow> \<forall>t<4. \<not> km t" by auto
  then have nx: "nodes st1 n = ?x" using w(2) by blast
  have e: "node_reserve kg km rm junk n need st =
      (case a of Grown \<Rightarrow> Some (0, upd n (\<lambda>x. x\<lparr>ncap := cap\<rparr>) st1) | Fresh \<Rightarrow> map_option (Pair 0) (move_data junk n cap st1)
       | No_Room \<Rightarrow> Some (- N_ENOMEM, st1))"
    using False cap(1) fr unfolding node_reserve_def Let_def c1_def [unfolded c0_def, symmetric] by (simp split: room.split)
  show ?thesis
  proof (cases a)
    case Grown
    have "flat (\<lambda>x. x\<lparr>ncap := cap\<rparr>)" by (simp add: flat_def)
    then have "fs_wf (upd n (\<lambda>x. x\<lparr>ncap := cap\<rparr>) st1)" using s1(1) by (intro upd_wf)
    moreover have "buf_ok (?x\<lparr>ncap := cap\<rparr>)" using x(1) a(1) [OF Grown] cap(2) need(1) by (auto simp: buf_ok_def)
    moreover have "same_file ?x (?x\<lparr>ncap := cap\<rparr>)" by (simp add: same_file_def file_bytes_def split: option.split)
    ultimately show ?thesis using Grown s1(2) a(1) cap unfolding e by (simp add: upd_def nx)
  next
    case Fresh
    have "nsize (nodes st1 n) < cap" using cap(2) need(1) nx by simp
    from move_data_ok [OF s1(1) _ this cap(3), of junk] x(1) obtain st2 where "move_data junk n cap st1 = Some st2" "fs_wf st2"
      "\<forall>m. m \<noteq> n \<longrightarrow> nodes st2 m = nodes st1 m" "same_file ?x (nodes st2 n)" "buf_ok (nodes st2 n)" "ndata (nodes st2 n) \<noteq> None"
      "ncap (nodes st2 n) = cap" unfolding nx by blast
    then show ?thesis using Fresh s1(2) cap unfolding e by simp
  next
    case No_Room
    then show ?thesis using s1 a(2) x nx unfolding e by (simp add: same_file_def)
  qed
qed

section \<open>Writing\<close>

text \<open>The contents after a write, byte by byte: the new bytes, the old ones around them, zeros in a hole.\<close>

definition written :: "nat \<Rightarrow> string \<Rightarrow> string \<Rightarrow> string \<Rightarrow> bool" where
  "written off buf old new \<longleftrightarrow> length new = max (length old) (off + length buf) \<and>
     (\<forall>i<length new. new ! i =
        (if off \<le> i \<and> i < off + length buf then buf ! (i - off) else if i < length old then old ! i else CHR 0x00))"

lemma written_splice: "written off buf old (splice off buf old)"
  by (auto simp: written_def splice_def nth_append min_def max_def)

lemma written_at: "written off buf old new \<Longrightarrow> take (length buf) (drop off new) = buf"
  by (rule nth_equalityI) (auto simp: written_def)

lemma s32_nat: "k < 2 ^ 31 \<Longrightarrow> s32 (int k) = int k"
  by (rule s32_exact) simp_all

lemma store_at_ok:
  assumes "buf_ok x" "ndata x \<noteq> None" "off + length buf < 2 ^ 32" "max (off + length buf) (nsize x) < ncap x"
  shows "\<exists>y. store_at junk off buf t x = Some y \<and> buf_ok y \<and> written off buf (file_bytes x) (file_bytes y) \<and> (\<exists>b k. y = x\<lparr>ndata := b, nsize := k, mtime := t\<rparr>)"
proof -
  define new where "new = splice off buf (file_bytes x)"
  define size where "size = max (nsize x) (off + length buf)"
  have w: "written off buf (file_bytes x) new" unfolding new_def by (rule written_splice)
  then have l: "length new = size" by (simp add: written_def size_def length_file_bytes [OF assms(1)])
  let ?y = "x\<lparr>ndata := Some new, nsize := size, mtime := t\<rparr>"
  have a: "add32 off (length buf) = off + length buf" using assms(3) by (rule add32_exact)
  have "store_at junk off buf t x = Some ?y" using assms l
    by (simp add: store_at_def Let_def a node_bytes_ok new_def [symmetric] size_def [symmetric]) (auto simp: size_def)
  moreover have "buf_ok ?y" "file_bytes ?y = new" using l assms(4) by (auto simp: buf_ok_def file_bytes_def size_def)
  ultimately show ?thesis using w by auto
qed

text \<open>Where the end of the write wraps around 32 bits the room asked for is too small, and the stores leave the buffer.\<close>

lemma store_at_wraps: "ncap x < 2 ^ 32 \<Longrightarrow> 2 ^ 32 \<le> off + length buf \<Longrightarrow> store_at junk off buf t x = None"
  by (simp add: store_at_def Let_def)

text \<open>New contents of a node, and the word that it changed.\<close>

lemma touch_data:
  assumes "fs_wf st" "y = (nodes st n)\<lparr>ndata := b, nsize := k, mtime := t\<rparr>" "live (nodes st n)"
  obtains l where "fs_touch (Some n) (upd n (\<lambda>_. y) st) = Some ((upd n (\<lambda>_. y) st)\<lparr>log := l\<rparr>)" "fs_wf ((upd n (\<lambda>_. y) st)\<lparr>log := l\<rparr>)"
proof -
  have "flat (\<lambda>x. x\<lparr>ndata := b, nsize := k, mtime := t\<rparr>)" by (simp add: flat_def)
  from upd_wf [OF assms(1) this, of n] have "fs_wf (upd n (\<lambda>_. y) st)" by (simp add: upd_def assms(2))
  moreover have "live (nodes (upd n (\<lambda>_. y) st) n)" using assms(2,3) by (simp add: upd_def)
  ultimately show ?thesis using that touch_wf by blast
qed

lemma node_write_at_ok:
  assumes wf: "fs_wf st" "sync_pc pcs n (vf v) = st" "mounts_ok (v\<lparr>vf := st\<rparr>)" and w: "waits_keep rm K" "n \<in> K"
    and t: "ntype (nodes (vf v) n) = FS_FILE" and x: "live (nodes st n)" "buf_ok (nodes st n)" "ncap (nodes st n) < 2 ^ 32"
    and sz: "nsize (nodes st n) < 3 * 2 ^ 30" "off + length buf < 3 * 2 ^ 30" "length buf < 2 ^ 31"
  shows "\<exists>r v'. node_write_at kg km rm junk pcs n off buf v = Some (r, v') \<and> fs_wf (vf v') \<and> buf_ok (nodes (vf v') n) \<and>
    (\<forall>m\<in>K - {n}. nodes (vf v') m = nodes st m) \<and> ntype (nodes (vf v') n) = ntype (nodes st n) \<and>
    (if 0 \<le> r then r = int (length buf) \<and> written off buf (file_bytes (nodes st n)) (file_bytes (nodes (vf v') n))
     else file_bytes (nodes (vf v') n) = file_bytes (nodes st n) \<and>
       ((\<forall>t<4. \<not> km t) \<or> (\<exists>v1. mnt_grow n (off + length buf) (v\<lparr>vf := st\<rparr>) = Some (r, v1))))"
proof -
  define stop where "stop = off + length buf"
  have a: "add32 off (length buf) = stop" unfolding stop_def using sz(2) by (intro add32_exact) simp
  obtain g v1 where g: "mnt_grow n stop (v\<lparr>vf := st\<rparr>) = Some (g, v1)" "vf v1 = st" "g \<le> 0"
    using mnt_grow_total [of "v\<lparr>vf := st\<rparr>" n stop] wf x(1) by auto
  define need where "need = max stop (nsize (nodes st n))"
  have nd: "nsize (nodes st n) \<le> need" "need < 3 * 2 ^ 30" "need mod 2 ^ 32 = need" using sz by (auto simp: need_def stop_def)
  obtain r st2 where r: "node_reserve kg km rm junk n need st = Some (r, st2)" "fs_wf st2" "\<forall>m\<in>K - {n}. nodes st2 m = nodes st m"
    "same_file (nodes st n) (nodes st2 n)" "buf_ok (nodes st2 n)"
    "if r = 0 then need < ncap (nodes st2 n) \<and> ndata (nodes st2 n) \<noteq> None else r = - N_ENOMEM \<and> (\<forall>t<4. \<not> km t)"
    using node_reserve_ok [OF wf(1) w x(2,3) nd(1,2)] by blast
  have e: "node_write_at kg km rm junk pcs n off buf v =
    (if g < 0 then Some (g, v1) else if r < 0 then Some (- N_ENOMEM, v1\<lparr>vf := st2\<rparr>)
     else do { y \<leftarrow> store_at junk off buf (now st2) (nodes st2 n); st3 \<leftarrow> fs_touch (Some n) (upd n (\<lambda>_. y) st2);
               Some (s32 (int (length buf)), v1\<lparr>vf := st3\<rparr>) })"
    using t wf(2) g r(1) nd(3) by (simp add: node_write_at_def Let_def a need_def)
  show ?thesis
  proof (cases "g < 0 \<or> r < 0")
    case True
    then show ?thesis using g r wf x by (auto simp: e same_file_def stop_def)
  next
    case False
    then have r0: "r = 0" "need < ncap (nodes st2 n)" "ndata (nodes st2 n) \<noteq> None" using r(6) by (auto split: if_splits)
    have s: "nsize (nodes st2 n) = nsize (nodes st n)" "file_bytes (nodes st2 n) = file_bytes (nodes st n)" "live (nodes st2 n)"
      "ntype (nodes st2 n) = ntype (nodes st n)" using r(4) x(1) by (simp_all add: same_file_def)
    have "max (off + length buf) (nsize (nodes st2 n)) < ncap (nodes st2 n)" using r0(2) s(1) by (simp add: need_def stop_def)
    from store_at_ok [OF r(5) r0(3) _ this, of junk "now st2"] sz(2) obtain y b k where
      y: "store_at junk off buf (now st2) (nodes st2 n) = Some y" "buf_ok y" "written off buf (file_bytes (nodes st n)) (file_bytes y)"
        "y = (nodes st2 n)\<lparr>ndata := b, nsize := k, mtime := now st2\<rparr>" unfolding s(2) by auto
    let ?s3 = "upd n (\<lambda>_. y) st2"
    have n3: "nodes ?s3 n = y" "\<forall>m. m \<noteq> n \<longrightarrow> nodes ?s3 m = nodes st2 m" by (auto simp: upd_def)
    from touch_data [OF r(2) y(4) s(3)] obtain l where l: "fs_touch (Some n) ?s3 = Some (?s3\<lparr>log := l\<rparr>)" "fs_wf (?s3\<lparr>log := l\<rparr>)" by blast
    have "s32 (int (length buf)) = int (length buf)" using sz(3) by (rule s32_nat)
    then have "node_write_at kg km rm junk pcs n off buf v = Some (int (length buf), v1\<lparr>vf := ?s3\<lparr>log := l\<rparr>\<rparr>)"
      unfolding e using False y(1) l(1) by simp
    moreover have "ntype y = ntype (nodes st n)" using s(4) y(4) by simp
    ultimately show ?thesis using l(2) n3 y(2,3) r(3) by simp
  qed
qed

text \<open>What an open file reads back.\<close>

lemma node_read_ok:
  assumes "ntype (nodes (itree s) n) \<noteq> FS_DIR" "buf_ok (nodes (itree s) n)" "nsize (nodes (itree s) n) < 2 ^ 32" "k < 2 ^ 31" "off < 2 ^ 32"
    "off + k \<le> nsize (nodes (itree s) n)"
  shows "\<exists>s'. node_read (- 1, []) id n off k s = Some (int k, take k (drop off (file_bytes (nodes (itree s) n))), off + k, s')"
proof -
  let ?x = "nodes (itree s) n"
  have u: "upd n id (itree s) = itree s" by (simp add: upd_def)
  have a: "add64 off k = off + k" using assms(4,5) by (intro add64_exact) simp
  show ?thesis
  proof (cases "nsize ?x \<le> off")
    case True
    then show ?thesis using assms by (simp add: node_read_def Let_def u)
  next
    case False
    then have m: "min ((nsize ?x - off) mod 2 ^ 32) k = k" using assms(3,6) by simp
    obtain b where b: "ndata ?x = Some b" "length b = nsize ?x" using False assms(2) by (auto simp: buf_ok_def split: option.splits)
    have "s32 (int k) = int k" using assms(4) by (rule s32_nat)
    then show ?thesis using assms(1) False b a unfolding node_read_def Let_def by (auto simp: u m [simplified] file_bytes_def)
  qed
qed

section \<open>Truncating\<close>

lemma own_bytes_ok:
  assumes "fs_wf st" "waits_keep rm K" "n \<in> K" "buf_ok (nodes st n)" "ncap (nodes st n) < 2 ^ 32" "nsize (nodes st n) < 3 * 2 ^ 30"
  shows "\<exists>r st'. own_bytes kg km rm junk n st = Some (r, st') \<and> fs_wf st' \<and> (\<forall>m\<in>K - {n}. nodes st' m = nodes st m) \<and>
    same_file (nodes st n) (nodes st' n) \<and> buf_ok (nodes st' n) \<and> ncap (nodes st' n) < 2 ^ 32 \<and>
    (if r = 0 then ndata (nodes st' n) = None \<or> 0 < ncap (nodes st' n) else r = - N_ENOMEM \<and> (\<forall>t<4. \<not> km t))"
proof (cases "ndata (nodes st n) \<noteq> None \<and> ncap (nodes st n) = 0")
  case True
  have "nsize (nodes st n) mod 2 ^ 32 = nsize (nodes st n)" using assms(6) by simp
  then have e: "own_bytes kg km rm junk n st = node_reserve kg km rm junk n (nsize (nodes st n)) st"
    using True by (simp add: own_bytes_def)
  show ?thesis unfolding e using node_reserve_ok [OF assms(1-5) le_refl assms(6), of kg km junk] by (fastforce split: if_splits)
next
  case False
  then show ?thesis using assms by (auto simp: own_bytes_def same_file_def)
qed

lemma set_length_ok:
  assumes "buf_ok x" "ndata x = None \<and> nsize x = len \<or> ndata x \<noteq> None \<and> len < ncap x"
  shows "\<exists>y. set_length junk len t x = Some y \<and> buf_ok y \<and>
    file_bytes y = take len (file_bytes x @ replicate (len - length (file_bytes x)) (CHR 0x00)) \<and>
    (\<exists>b k. y = x\<lparr>ndata := b, nsize := k, mtime := t\<rparr>)"
proof (cases "ndata x")
  case None
  then have "nsize x = 0" "ncap x = 0" "len = 0" using assms by (auto simp: buf_ok_def)
  moreover have "x\<lparr>nsize := 0, mtime := t\<rparr> = x\<lparr>ndata := None, nsize := 0, mtime := t\<rparr>" using None by (cases x) simp
  ultimately show ?thesis using None by (auto simp: set_length_def buf_ok_def file_bytes_def intro!: exI [of _ None] exI [of _ 0])
next
  case (Some b)
  define new where "new = take len (file_bytes x @ replicate (len - length (file_bytes x)) (CHR 0x00))"
  have l: "length new = len" by (simp add: new_def)
  let ?y = "x\<lparr>ndata := Some new, nsize := len, mtime := t\<rparr>"
  have "set_length junk len t x = Some ?y" using assms Some by (simp add: set_length_def Let_def node_bytes_ok new_def)
  moreover have "buf_ok ?y" "file_bytes ?y = new" using l assms Some by (auto simp: buf_ok_def file_bytes_def)
  ultimately show ?thesis unfolding new_def by blast
qed

lemma same_file_trans: "same_file x y \<Longrightarrow> same_file y z \<Longrightarrow> same_file x z"
  by (simp add: same_file_def)

lemma grow_ok:
  assumes "fs_wf st" "waits_keep rm K" "n \<in> K" "buf_ok (nodes st n)" "ncap (nodes st n) < 2 ^ 32" "len < 3 * 2 ^ 30"
  shows "\<exists>q st'. (if nsize (nodes st n) < len then node_reserve kg km rm junk n len st else Some (0, st)) = Some (q, st') \<and>
    fs_wf st' \<and> (\<forall>m\<in>K - {n}. nodes st' m = nodes st m) \<and> same_file (nodes st n) (nodes st' n) \<and> buf_ok (nodes st' n) \<and>
    (if q = 0 then nsize (nodes st n) < len \<longrightarrow> len < ncap (nodes st' n) \<and> ndata (nodes st' n) \<noteq> None else q < 0) \<and>
    (len \<le> nsize (nodes st n) \<longrightarrow> st' = st)"
proof (cases "nsize (nodes st n) < len")
  case True
  then show ?thesis using node_reserve_ok [OF assms(1-5) less_imp_le [OF True] assms(6), of kg km junk] by (fastforce split: if_splits)
next
  case False
  then show ?thesis using assms(1,4) by (simp add: same_file_def)
qed

lemma node_truncate_ok:
  assumes wf: "fs_wf st" "sync_pc pcs n (vf v) = st" "mounts_ok (v\<lparr>vf := st\<rparr>)" and w: "waits_keep rm K" "n \<in> K"
    and t: "ntype (nodes (vf v) n) = FS_FILE" and x: "live (nodes st n)" "buf_ok (nodes st n)" "ncap (nodes st n) < 2 ^ 32"
    and sz: "nsize (nodes st n) < 3 * 2 ^ 30" "len < 3 * 2 ^ 30"
  shows "\<exists>r v'. node_truncate kg km rm junk pcs n len v = Some (r, v') \<and> fs_wf (vf v') \<and> buf_ok (nodes (vf v') n) \<and>
    (\<forall>m\<in>K - {n}. nodes (vf v') m = nodes st m) \<and>
    (if r = 0 then file_bytes (nodes (vf v') n) = take len (file_bytes (nodes st n) @ replicate (len - nsize (nodes st n)) (CHR 0x00))
     else r < 0 \<and> file_bytes (nodes (vf v') n) = file_bytes (nodes st n))"
proof -
  obtain g v1 where g: "mnt_grow n len (v\<lparr>vf := st\<rparr>) = Some (g, v1)" "vf v1 = st" "g \<le> 0"
    using mnt_grow_total [of "v\<lparr>vf := st\<rparr>" n len] wf x(1) by auto
  obtain r st2 where r: "own_bytes kg km rm junk n st = Some (r, st2)" "fs_wf st2" "\<forall>m\<in>K - {n}. nodes st2 m = nodes st m"
    "same_file (nodes st n) (nodes st2 n)" "buf_ok (nodes st2 n)" "ncap (nodes st2 n) < 2 ^ 32"
    "if r = 0 then ndata (nodes st2 n) = None \<or> 0 < ncap (nodes st2 n) else r = - N_ENOMEM \<and> (\<forall>t<4. \<not> km t)"
    using own_bytes_ok [OF wf(1) w x(2,3) sz(1)] by blast
  have s2: "nsize (nodes st2 n) = nsize (nodes st n)" using r(4) by (simp add: same_file_def)
  define grow where "grow = (if nsize (nodes st2 n) < len then node_reserve kg km rm junk n len st2 else Some (0, st2))"
  note grow_ok [OF r(2) w r(5,6) sz(2), of kg km junk]
  then obtain q st3 where q: "grow = Some (q, st3)" "fs_wf st3" "\<forall>m\<in>K - {n}. nodes st3 m = nodes st2 m" "same_file (nodes st2 n) (nodes st3 n)"
    "buf_ok (nodes st3 n)" "if q = 0 then nsize (nodes st2 n) < len \<longrightarrow> len < ncap (nodes st3 n) \<and> ndata (nodes st3 n) \<noteq> None else q < 0"
    "len \<le> nsize (nodes st2 n) \<longrightarrow> st3 = st2" unfolding grow_def by blast
  have e: "node_truncate kg km rm junk pcs n len v =
    (if g < 0 then Some (g, v1) else if r < 0 then Some (- N_ENOMEM, v1\<lparr>vf := st2\<rparr>) else if q < 0 then Some (- N_ENOMEM, v1\<lparr>vf := st3\<rparr>)
     else do { y \<leftarrow> set_length junk len (now st3) (nodes st3 n); st4 \<leftarrow> fs_touch (Some n) (upd n (\<lambda>_. y) st3); Some (0, v1\<lparr>vf := st4\<rparr>) })"
    using t wf(2) g r(1) q(1) by (simp add: node_truncate_def Let_def grow_def [symmetric])
  have s3: "same_file (nodes st n) (nodes st3 n)" using r(4) q(4) by (rule same_file_trans)
  show ?thesis
  proof (cases "g < 0 \<or> r < 0 \<or> q < 0")
    case True
    then show ?thesis using g r q wf x s3 by (auto simp: e same_file_def)
  next
    case False
    then have z: "r = 0" "q = 0" using r(7) q(6) by (auto split: if_splits)
    have "ndata (nodes st3 n) = None \<and> nsize (nodes st3 n) = len \<or> ndata (nodes st3 n) \<noteq> None \<and> len < ncap (nodes st3 n)"
    proof (cases "nsize (nodes st2 n) < len")
      case True
      then show ?thesis using q(6) z(2) by simp
    next
      case False
      then have "st3 = st2" using q(7) by simp
      then show ?thesis using r(5,7) z(1) False by (auto simp: buf_ok_def split: option.splits)
    qed
    from set_length_ok [OF q(5) this, of junk "now st3"] obtain y b k where y: "set_length junk len (now st3) (nodes st3 n) = Some y" "buf_ok y"
      "file_bytes y = take len (file_bytes (nodes st3 n) @ replicate (len - length (file_bytes (nodes st3 n))) (CHR 0x00))"
      "y = (nodes st3 n)\<lparr>ndata := b, nsize := k, mtime := now st3\<rparr>" by blast
    from touch_data [OF q(2) y(4)] s3 x(1) obtain l where l: "fs_touch (Some n) (upd n (\<lambda>_. y) st3) = Some ((upd n (\<lambda>_. y) st3)\<lparr>log := l\<rparr>)"
      "fs_wf ((upd n (\<lambda>_. y) st3)\<lparr>log := l\<rparr>)" by (auto simp: same_file_def)
    have "node_truncate kg km rm junk pcs n len v = Some (0, v1\<lparr>vf := (upd n (\<lambda>_. y) st3)\<lparr>log := l\<rparr>\<rparr>)" unfolding e using False y(1) l(1) by simp
    moreover have "\<forall>m\<in>K - {n}. nodes (upd n (\<lambda>_. y) st3) m = nodes st m" using q(3) r(3) by (simp add: upd_def)
    ultimately show ?thesis using l(2) y(2,3) s3 length_file_bytes [OF x(2)] by (simp add: upd_def same_file_def)
  qed
qed

section \<open>A write through an open file\<close>

text \<open>C8: A write at the offset of an open file, or at its end for a file opened for appending, always answers. If
  it does not fail it takes all bytes, the contents are the old ones with the new bytes at the offset and zeros in a
  hole, the offset moves behind them and a read there gives them back. If it fails, the contents are what they were, the
  offset is where the write would have begun (the end of the file for appending), and it was the mount that refused or
  the allocator that had nothing in four attempts. The tree stays well formed, and the files that are not dropped while
  the write waits for memory keep everything. Conditions: an ordinary file whose contents are in memory, not shared
  memory and not sealed; its size and the end of the write are below 3 GiB and the write is below 2 GiB.\<close>

theorem node_write_exact:
  assumes "fs_wf st" "sync_pc pcs n (vf v) = st" "mounts_ok (v\<lparr>vf := st\<rparr>)" and "waits_keep rm K" "n \<in> K"
    and "ntype (nodes (vf v) n) = FS_FILE" and "live (nodes st n)" "ntype (nodes st n) = FS_FILE" "buf_ok (nodes st n)" "ncap (nodes st n) < 2 ^ 32"
    and "pos = (if app then nsize (nodes (vf v) n) else off)"
    and "nsize (nodes st n) < 3 * 2 ^ 30" "pos + length buf < 3 * 2 ^ 30" "length buf < 2 ^ 31"
  shows "\<exists>r off' v' s'. node_write kg km rm junk pcs (\<lambda>_. - 1) False app n off buf v s = Some (r, off', v', s') \<and> fs_wf (vf v') \<and>
    (\<forall>m\<in>K - {n}. nodes (vf v') m = nodes st m) \<and>
    (if 0 \<le> r then r = int (length buf) \<and> off' = pos + length buf \<and> written pos buf (file_bytes (nodes st n)) (file_bytes (nodes (vf v') n)) \<and>
       (\<exists>s2. node_read (- 1, []) id n pos (length buf) (s\<lparr>itree := vf v'\<rparr>) = Some (int (length buf), buf, off', s2))
     else off' = pos \<and> file_bytes (nodes (vf v') n) = file_bytes (nodes st n) \<and>
       ((\<forall>t<4. \<not> km t) \<or> (\<exists>v1. mnt_grow n (pos + length buf) (v\<lparr>vf := st\<rparr>) = Some (r, v1))))"
proof -
  obtain r v' where r: "node_write_at kg km rm junk pcs n pos buf v = Some (r, v')" "fs_wf (vf v')" "buf_ok (nodes (vf v') n)"
    "\<forall>m\<in>K - {n}. nodes (vf v') m = nodes st m" "ntype (nodes (vf v') n) = FS_FILE"
    "if 0 \<le> r then r = int (length buf) \<and> written pos buf (file_bytes (nodes st n)) (file_bytes (nodes (vf v') n))
     else file_bytes (nodes (vf v') n) = file_bytes (nodes st n) \<and>
       ((\<forall>t<4. \<not> km t) \<or> (\<exists>v1. mnt_grow n (pos + length buf) (v\<lparr>vf := st\<rparr>) = Some (r, v1)))"
    using node_write_at_ok [OF assms(1-7,9,10,12-14), of kg km junk] assms(8) by auto
  have p: "pos mod 2 ^ 32 = pos" "pos < 2 ^ 32" "add64 pos (length buf) = pos + length buf" using assms(13) by (auto intro: add64_exact)
  define s' where "s' = (if 0 < r then ino_node (Some n) 2 (s\<lparr>itree := vf v'\<rparr>) else s)"
  have e: "node_write kg km rm junk pcs (\<lambda>_. - 1) False app n off buf v s = Some (r, if 0 < r then add64 pos (nat r) else pos, v', s')"
    using r(1) p(1) unfolding node_write_def Let_def assms(11) [symmetric] by (simp add: s'_def)
  show ?thesis
  proof (cases "0 \<le> r")
    case True
    then have w: "r = int (length buf)" "written pos buf (file_bytes (nodes st n)) (file_bytes (nodes (vf v') n))" using r(6) by simp_all
    have l: "nsize (nodes (vf v') n) = max (nsize (nodes st n)) (pos + length buf)"
      using w(2) length_file_bytes [OF r(3)] length_file_bytes [OF assms(9)] by (simp add: written_def)
    have "\<exists>s2. node_read (- 1, []) id n pos (length buf) (s\<lparr>itree := vf v'\<rparr>) = Some (int (length buf), buf, pos + length buf, s2)"
      using node_read_ok [of "s\<lparr>itree := vf v'\<rparr>" n "length buf" pos] r(3,5) l assms(12-14) p(2) written_at [OF w(2)] by simp
    then show ?thesis using e r(2,4) w p(3) by auto
  next
    case False
    then show ?thesis using e r(2,4,6) by auto
  qed
qed

text \<open>Two bytes behind the end of an empty file.\<close>

definition demo_plain :: vfs where "demo_plain = \<lparr>vf = demo_fs, tab = []\<rparr>"

theorem node_write_exact_witness:
  "\<exists>v' s'. node_write (\<lambda>_. False) (\<lambda>_. True) (\<lambda>_ s. s) (\<lambda>_. CHR ''x'') (\<lambda>_ s. s) (\<lambda>_. - 1) False False 1 2 ''hi'' demo_plain demo_ino =
     Some (2, 4, v', s') \<and> written 2 ''hi'' '''' (file_bytes (nodes (vf v') 1))"
proof -
  have f: "mnt_find (Some 1) demo_plain = Some None"
    by (simp add: mnt_find_def find_at_def demo_plain_def up.simps demo_nodes empty_node_def)
  then have g: "mnt_grow 1 4 demo_plain = Some (0, demo_plain)" by (simp add: mnt_grow_def)
  have "\<exists>r off' v' s'. node_write (\<lambda>_. False) (\<lambda>_. True) (\<lambda>_ s. s) (\<lambda>_. CHR ''x'') (\<lambda>_ s. s) (\<lambda>_. - 1) False False 1 2 ''hi'' demo_plain demo_ino =
      Some (r, off', v', s') \<and> fs_wf (vf v') \<and> (\<forall>m\<in>{1} - {1}. nodes (vf v') m = nodes demo_fs m) \<and>
    (if 0 \<le> r then r = int (length ''hi'') \<and> off' = 2 + length ''hi'' \<and> written 2 ''hi'' (file_bytes (nodes demo_fs 1)) (file_bytes (nodes (vf v') 1)) \<and>
       (\<exists>s2. node_read (- 1, []) id 1 2 (length ''hi'') (demo_ino\<lparr>itree := vf v'\<rparr>) = Some (int (length ''hi''), ''hi'', off', s2))
     else off' = 2 \<and> file_bytes (nodes (vf v') 1) = file_bytes (nodes demo_fs 1) \<and>
       ((\<forall>t<(4::nat). \<not> True) \<or> (\<exists>v1. mnt_grow 1 (2 + length ''hi'') (demo_plain\<lparr>vf := demo_fs\<rparr>) = Some (r, v1))))"
    by (rule node_write_exact)
      (use demo_wf(1) in \<open>simp_all add: sync_pc_def demo_plain_def demo_nodes empty_node_def mounts_ok_def waits_keep_def buf_ok_def\<close>)
  moreover have "demo_plain\<lparr>vf := demo_fs\<rparr> = demo_plain" "file_bytes (nodes demo_fs 1) = ''''" by (simp_all add: demo_plain_def demo_nodes empty_node_def file_bytes_def)
  moreover have "\<not> (\<forall>t<(4::nat). \<not> True)" by (auto intro: exI [of _ 0])
  ultimately show ?thesis using g by (auto split: if_splits)
qed

end
